(* ===== verification/Lsvd_Prelude.thy ===== *)
theory Lsvd_Prelude
  imports Main
begin

text \<open>
  Shared ground of the development: the widths of C++ bit-fields and integer
  conversions, the rounding helpers of \<^verbatim>\<open>src/src/lsvd_types.h\<close>, and the
  generic facts about lists that the component theories rely on. Facts about
  bit-field stores that are in range are collected in \<open>width_simps\<close>.
\<close>

lemma mult_div_le:
  fixes n m :: int
  shows "0 < m \<Longrightarrow> m * (n div m) \<le> n"
  using pos_mod_sign [of m n] minus_mod_eq_mult_div [of n m] by linarith

named_theorems width_simps \<open>stores that fit their bit-field or integer type\<close>

section \<open>Fixed-width integers\<close>

text \<open>
  A store into a signed (unsigned) field of \<open>w\<close> bits keeps the low \<open>w\<close> bits; the
  signed one reads them back in two's complement. A conversion to \<open>int\<close> or
  \<open>uint32_t\<close> is the same operation at 32 bits.
\<close>

definition sbf :: "nat \<Rightarrow> int \<Rightarrow> int" where
  "sbf w x = signed_take_bit (w - 1) x"

definition ubf :: "nat \<Rightarrow> int \<Rightarrow> int" where
  "ubf w x = take_bit w x"

lemma sbf_id [width_simps]:
  "- (2 ^ (w - 1)) \<le> x \<Longrightarrow> x < 2 ^ (w - 1) \<Longrightarrow> sbf w x = x"
  by (simp add: sbf_def signed_take_bit_int_eq_self)

lemma ubf_id [width_simps]: "0 \<le> x \<Longrightarrow> x < 2 ^ w \<Longrightarrow> ubf w x = x"
  by (simp add: ubf_def take_bit_int_eq_self)

lemma sbf_range: "- (2 ^ (w - 1)) \<le> sbf w x" "sbf w x < 2 ^ (w - 1)"
  by (simp_all add: sbf_def signed_take_bit_int_greater_eq_minus_exp signed_take_bit_int_less_exp)

lemma ubf_range: "0 \<le> ubf w x" "ubf w x < 2 ^ w"
  by (simp_all add: ubf_def)

section \<open>Rounding helpers\<close>

text \<open>
  \<^verbatim>\<open>div_round_up\<close>, \<^verbatim>\<open>round_up\<close> and \<^verbatim>\<open>round_down\<close> compute on C++
  \<open>int\<close>: arguments and results are 32-bit. The arithmetic is written over \<open>int\<close>
  with the conversion of the arguments; division truncates towards zero.
\<close>

definition cdiv :: "int \<Rightarrow> int \<Rightarrow> int" where
  "cdiv n m = sgn n * sgn m * (\<bar>n\<bar> div \<bar>m\<bar>)"

definition div_round_up :: "int \<Rightarrow> int \<Rightarrow> int" where
  "div_round_up n m = cdiv (sbf 32 (sbf 32 n + sbf 32 m - 1)) (sbf 32 m)"

definition round_up :: "int \<Rightarrow> int \<Rightarrow> int" where
  "round_up n m = sbf 32 (sbf 32 m * div_round_up n m)"

definition round_down :: "int \<Rightarrow> int \<Rightarrow> int" where
  "round_down n m = sbf 32 (sbf 32 m * cdiv (sbf 32 n) (sbf 32 m))"

lemma cdiv_nonneg: "0 \<le> n \<Longrightarrow> 0 < m \<Longrightarrow> cdiv n m = n div m"
  by (cases "n = 0") (simp_all add: cdiv_def)

lemma div_round_up_eq:
  "0 \<le> n \<Longrightarrow> 0 < m \<Longrightarrow> n + m < 2 ^ 31 \<Longrightarrow> div_round_up n m = (n + m - 1) div m"
  by (simp add: div_round_up_def sbf_id cdiv_nonneg)

lemma round_down_eq:
  assumes "0 \<le> n" "n < 2 ^ 31" "0 < m" "m < 2 ^ 31"
  shows "round_down n m = m * (n div m)"
proof -
  have "0 \<le> m * (n div m)" "m * (n div m) \<le> n"
    using assms by (simp_all add: pos_imp_zdiv_nonneg_iff mult_div_le)
  then show ?thesis
    using assms by (simp add: round_down_def sbf_id cdiv_nonneg)
qed

lemma round_up_eq:
  assumes "0 \<le> n" "0 < m" "n + m < 2 ^ 31"
  shows "round_up n m = m * ((n + m - 1) div m)"
proof -
  have "0 \<le> m * ((n + m - 1) div m)" "m * ((n + m - 1) div m) \<le> n + m - 1"
    using assms mult_div_le [of m "n + m - 1"] by (simp_all add: pos_imp_zdiv_nonneg_iff)
  then show ?thesis
    using assms by (simp add: round_up_def div_round_up_eq sbf_id)
qed

section \<open>Lists\<close>

text \<open>C++ \<^verbatim>\<open>vector::insert\<close> and \<^verbatim>\<open>vector::erase\<close> at an index.\<close>

definition vec_insert :: "nat \<Rightarrow> 'a \<Rightarrow> 'a list \<Rightarrow> 'a list" where
  "vec_insert k x xs = take k xs @ x # drop k xs"

definition vec_erase :: "nat \<Rightarrow> 'a list \<Rightarrow> 'a list" where
  "vec_erase k xs = take k xs @ drop (Suc k) xs"

lemma length_vec_insert [simp]: "k \<le> length xs \<Longrightarrow> length (vec_insert k x xs) = Suc (length xs)"
  by (simp add: vec_insert_def)

lemma length_vec_erase [simp]: "k < length xs \<Longrightarrow> length (vec_erase k xs) = length xs - 1"
  by (simp add: vec_erase_def)

lemma vec_insert_append [simp]: "vec_insert (length xs) x (xs @ ys) = xs @ x # ys"
  by (simp add: vec_insert_def)

lemma vec_erase_append [simp]: "vec_erase (length xs) (xs @ y # ys) = xs @ ys"
  by (simp add: vec_erase_def)

lemma drop_take_drop: "n \<le> j \<Longrightarrow> drop n (take j xs) @ drop j xs = drop n xs"
proof -
  assume "n \<le> j"
  have "drop n xs = drop n (take j xs @ drop j xs)" by simp
  also have "\<dots> = drop n (take j xs) @ drop (n - length (take j xs)) (drop j xs)"
    by (rule drop_append)
  also have "drop (n - length (take j xs)) (drop j xs) = drop j xs"
    using \<open>n \<le> j\<close> by (cases "j \<le> length xs") simp_all
  finally show ?thesis by simp
qed

lemma take_drop_take: "j \<le> n \<Longrightarrow> take j xs @ drop j (take n xs) = take n xs"
  by (metis append_take_drop_id min.absorb1 take_take)

lemma append_Cons_cases:
  assumes "A @ x # B = A' @ y # B'"
  obtains "A = A'" "x = y" "B = B'"
    | C where "A' = A @ x # C" "B = C @ y # B'"
    | C where "A = A' @ y # C" "B' = C @ x # B"
  using assms by (auto simp: append_eq_append_conv2 append_eq_Cons_conv Cons_eq_append_conv)

text \<open>
  \<^verbatim>\<open>std::lower_bound\<close> on a range partitioned by \<open>p\<close>: the index of the first
  element that does not satisfy \<open>p\<close>.
\<close>

definition lower_bound_idx :: "('a \<Rightarrow> bool) \<Rightarrow> 'a list \<Rightarrow> nat" where
  "lower_bound_idx p xs = length (takeWhile p xs)"

end
