(* ===== verification/Config.thy ===== *)
theory Config
  imports Lsvd_Prelude
begin

text \<open>
  The configuration (\<^verbatim>\<open>config.h\<close>, \<^verbatim>\<open>config.cc\<close>): its defaults and how JSON documents change them. The JSON
  library is a parameter \<open>parse\<close> that gives the members of a document, or \<open>None\<close> where it throws; the
  file system is a parameter too. The theory shows which document decides each setting, and that settings
  keep their types.
\<close>

section \<open>The configuration\<close>

record lsvd_config =
  rcache_dir :: string
  rcache_bytes :: int
  rcache_fetch_window :: int
  wlog_dir :: string
  wlog_bytes :: int
  wlog_write_window :: int
  wlog_chunk_bytes :: int
  antithrash_ratio :: int
  backend_obj_bytes :: int
  backend_write_window :: int
  checkpoint_interval_objs :: int
  flush_timeout_ms :: int
  flush_interval_ms :: int
  gc_threshold_pc :: int
  gc_write_window :: int
  no_gc :: bool

definition get_default :: lsvd_config where
  "get_default =
     \<lparr>rcache_dir = ''/tmp/lsvd/'', rcache_bytes = 500 * 1024 * 1024, rcache_fetch_window = 12,
      wlog_dir = ''/tmp/lsvd/'', wlog_bytes = 500 * 1024 * 1024, wlog_write_window = 8, wlog_chunk_bytes = 2 * 1024 * 1024,
      antithrash_ratio = 67, backend_obj_bytes = 8 * 1024 * 1024, backend_write_window = 8,
      checkpoint_interval_objs = 500, flush_timeout_ms = 2000, flush_interval_ms = 1000,
      gc_threshold_pc = 60, gc_write_window = 4, no_gc = False\<rparr>"

text \<open>\<^verbatim>\<open>fspath(dir) / filename\<close>: an absolute second path replaces the first.\<close>

definition path_append :: "string \<Rightarrow> string \<Rightarrow> string" where
  "path_append d f =
     (if f \<noteq> [] \<and> hd f = CHR ''/'' then f
      else if d = [] \<or> last d = CHR ''/'' then d @ f
      else d @ ''/'' @ f)"

definition wlog_path :: "lsvd_config \<Rightarrow> string \<Rightarrow> string" where
  "wlog_path cfg imgname = path_append (wlog_dir cfg) (imgname @ ''.wlog'')"

section \<open>JSON documents\<close>

text \<open>
  The value of a member as far as the code looks at it: a number that is not unsigned, and every value of
  another kind, is \<open>JOther\<close>. A document that is not an object contains no member.
\<close>

datatype json = JBool bool | JUint int | JStr string | JOther

type_synonym json_doc = "string \<rightharpoonup> json"

definition JSON_GET_BOOL :: "json_doc \<Rightarrow> string \<Rightarrow> bool \<Rightarrow> bool" where
  "JSON_GET_BOOL js key old = (case js key of Some (JBool b) \<Rightarrow> b | _ \<Rightarrow> old)"

definition JSON_GET_UINT :: "json_doc \<Rightarrow> string \<Rightarrow> int \<Rightarrow> int" where
  "JSON_GET_UINT js key old = (case js key of Some (JUint n) \<Rightarrow> n | _ \<Rightarrow> old)"

definition JSON_GET_STR :: "json_doc \<Rightarrow> string \<Rightarrow> string \<Rightarrow> string" where
  "JSON_GET_STR js key old = (case js key of Some (JStr s) \<Rightarrow> s | _ \<Rightarrow> old)"

definition parse_json :: "(string \<Rightarrow> json_doc option) \<Rightarrow> string \<Rightarrow> lsvd_config \<Rightarrow> lsvd_config option" where
  "parse_json parse text c =
     (case parse text of
        None \<Rightarrow> None
      | Some js \<Rightarrow>
          let c = c\<lparr>rcache_dir := JSON_GET_STR js ''rcache_dir'' (rcache_dir c)\<rparr>;
              c = c\<lparr>rcache_bytes := JSON_GET_UINT js ''rcache_bytes'' (rcache_bytes c)\<rparr>;
              c = c\<lparr>rcache_fetch_window := JSON_GET_UINT js ''rcache_fetch_window'' (rcache_fetch_window c)\<rparr>;
              c = c\<lparr>wlog_dir := JSON_GET_STR js ''wlog_dir'' (wlog_dir c)\<rparr>;
              c = c\<lparr>wlog_bytes := JSON_GET_UINT js ''wlog_bytes'' (wlog_bytes c)\<rparr>;
              c = c\<lparr>wlog_write_window := JSON_GET_UINT js ''wlog_write_window'' (wlog_write_window c)\<rparr>;
              c = c\<lparr>wlog_chunk_bytes := JSON_GET_UINT js ''wlog_chunk_bytes'' (wlog_chunk_bytes c)\<rparr>;
              c = c\<lparr>antithrash_ratio := JSON_GET_UINT js ''antithrash_ratio'' (antithrash_ratio c)\<rparr>;
              c = c\<lparr>backend_obj_bytes := JSON_GET_UINT js ''backend_obj_bytes'' (backend_obj_bytes c)\<rparr>;
              c = c\<lparr>backend_write_window := JSON_GET_UINT js ''backend_write_window'' (backend_write_window c)\<rparr>;
              c = c\<lparr>checkpoint_interval_objs := JSON_GET_UINT js ''checkpoint_interval_objs'' (checkpoint_interval_objs c)\<rparr>;
              c = c\<lparr>flush_timeout_ms := JSON_GET_UINT js ''flush_timeout_ms'' (flush_timeout_ms c)\<rparr>;
              c = c\<lparr>flush_interval_ms := JSON_GET_UINT js ''flush_interval_ms'' (flush_interval_ms c)\<rparr>;
              c = c\<lparr>gc_threshold_pc := JSON_GET_UINT js ''gc_threshold_pc'' (gc_threshold_pc c)\<rparr>;
              c = c\<lparr>gc_write_window := JSON_GET_UINT js ''gc_write_window'' (gc_write_window c)\<rparr>
          in Some (c\<lparr>no_gc := JSON_GET_BOOL js ''no_gc'' (no_gc c)\<rparr>))"

section \<open>Configuration files\<close>

text \<open>
  A path has no file, a file that cannot be read, or a file with a content. \<open>None\<close> is an exception, or the
  failed assertion on an empty path. For a missing file the two branches of the code differ in their log message only.
\<close>

datatype cfg_file = Missing | Unreadable | Content string

definition parse_file ::
  "(string \<Rightarrow> json_doc option) \<Rightarrow> (string \<Rightarrow> cfg_file) \<Rightarrow> string \<Rightarrow> bool \<Rightarrow> lsvd_config \<Rightarrow> lsvd_config option" where
  "parse_file parse fs path can_be_missing c =
     (if path = [] then None
      else case fs path of
             Missing \<Rightarrow> (if can_be_missing then Some c else Some c)
           | Unreadable \<Rightarrow> None
           | Content s \<Rightarrow> parse_json parse s c)"

text \<open>The exceptions inside the \<^verbatim>\<open>try\<close> block become the empty result.\<close>

definition from_user_cfg ::
  "(string \<Rightarrow> json_doc option) \<Rightarrow> (string \<Rightarrow> cfg_file) \<Rightarrow> string \<Rightarrow> lsvd_config option" where
  "from_user_cfg parse fs cfg =
     (if cfg = [] then Some get_default
      else case parse_file parse fs ''/usr/local/etc/lsvd.json'' True get_default of
             None \<Rightarrow> None
           | Some c1 \<Rightarrow>
               (case parse_file parse fs ''./lsvd.json'' True c1 of
                  None \<Rightarrow> None
                | Some c2 \<Rightarrow>
                    if cfg ! 0 = CHR ''{'' then parse_json parse cfg c2 else parse_file parse fs cfg False c2))"

section \<open>Which document decides\<close>

text \<open>The unsigned settings, by the name of their member.\<close>

definition uint_settings :: "(string \<times> (lsvd_config \<Rightarrow> int)) list" where
  "uint_settings =
     [(''rcache_bytes'', rcache_bytes), (''rcache_fetch_window'', rcache_fetch_window), (''wlog_bytes'', wlog_bytes),
      (''wlog_write_window'', wlog_write_window), (''wlog_chunk_bytes'', wlog_chunk_bytes),
      (''antithrash_ratio'', antithrash_ratio), (''backend_obj_bytes'', backend_obj_bytes),
      (''backend_write_window'', backend_write_window), (''checkpoint_interval_objs'', checkpoint_interval_objs),
      (''flush_timeout_ms'', flush_timeout_ms), (''flush_interval_ms'', flush_interval_ms),
      (''gc_threshold_pc'', gc_threshold_pc), (''gc_write_window'', gc_write_window)]"

text \<open>The documents that apply, in order; \<open>None\<close> if one of them cannot be read or parsed.\<close>

definition file_docs :: "(string \<Rightarrow> json_doc option) \<Rightarrow> (string \<Rightarrow> cfg_file) \<Rightarrow> string \<Rightarrow> json_doc list option" where
  "file_docs parse fs path =
     (case fs path of Missing \<Rightarrow> Some [] | Unreadable \<Rightarrow> None | Content s \<Rightarrow> map_option (\<lambda>d. [d]) (parse s))"

definition cfg_docs :: "(string \<Rightarrow> json_doc option) \<Rightarrow> (string \<Rightarrow> cfg_file) \<Rightarrow> string \<Rightarrow> json_doc list option" where
  "cfg_docs parse fs cfg =
     (if cfg = [] then Some []
      else case (file_docs parse fs ''/usr/local/etc/lsvd.json'', file_docs parse fs ''./lsvd.json'',
                 if cfg ! 0 = CHR ''{'' then map_option (\<lambda>d. [d]) (parse cfg) else file_docs parse fs cfg) of
             (Some a, Some b, Some c) \<Rightarrow> Some (a @ b @ c)
           | _ \<Rightarrow> None)"

text \<open>The value of a setting is that of the last document in which it has the right type.\<close>

definition last_of :: "(json \<Rightarrow> 'a option) \<Rightarrow> string \<Rightarrow> json_doc list \<Rightarrow> 'a \<Rightarrow> 'a" where
  "last_of sel key ds dflt = last (dflt # List.map_filter (\<lambda>d. Option.bind (d key) sel) ds)"

definition sel_uint :: "json \<Rightarrow> int option" where
  "sel_uint v = (case v of JUint n \<Rightarrow> Some n | _ \<Rightarrow> None)"

definition sel_str :: "json \<Rightarrow> string option" where
  "sel_str v = (case v of JStr s \<Rightarrow> Some s | _ \<Rightarrow> None)"

definition sel_bool :: "json \<Rightarrow> bool option" where
  "sel_bool v = (case v of JBool b \<Rightarrow> Some b | _ \<Rightarrow> None)"

lemma last_of_Nil [simp]: "last_of sel key [] dflt = dflt"
  by (simp add: last_of_def List.map_filter_def)

lemma last_of_snoc:
  "last_of sel key (ds @ [d]) dflt = (case Option.bind (d key) sel of None \<Rightarrow> last_of sel key ds dflt | Some v \<Rightarrow> v)"
  by (simp add: last_of_def List.map_filter_def split: option.split)

text \<open>A configuration that has all its settings from a list of documents.\<close>

definition decided :: "json_doc list \<Rightarrow> lsvd_config \<Rightarrow> bool" where
  "decided ds c \<longleftrightarrow>
     (\<forall>(k, g)\<in>set uint_settings. g c = last_of sel_uint k ds (g get_default))
     \<and> rcache_dir c = last_of sel_str ''rcache_dir'' ds (rcache_dir get_default)
     \<and> wlog_dir c = last_of sel_str ''wlog_dir'' ds (wlog_dir get_default)
     \<and> no_gc c = last_of sel_bool ''no_gc'' ds (no_gc get_default)"

lemma decided_Nil: "decided [] get_default"
  by (simp add: decided_def case_prod_beta)

lemma get_uint_last: "JSON_GET_UINT js k (last_of sel_uint k ds v) = last_of sel_uint k (ds @ [js]) v"
  by (simp add: JSON_GET_UINT_def last_of_snoc sel_uint_def split: option.split json.split)

lemma get_str_last: "JSON_GET_STR js k (last_of sel_str k ds v) = last_of sel_str k (ds @ [js]) v"
  by (simp add: JSON_GET_STR_def last_of_snoc sel_str_def split: option.split json.split)

lemma get_bool_last: "JSON_GET_BOOL js k (last_of sel_bool k ds v) = last_of sel_bool k (ds @ [js]) v"
  by (simp add: JSON_GET_BOOL_def last_of_snoc sel_bool_def split: option.split json.split)

lemma parse_json_decided:
  assumes "decided ds c"
  shows "case parse text of None \<Rightarrow> parse_json parse text c = None
     | Some js \<Rightarrow> (\<exists>c'. parse_json parse text c = Some c' \<and> decided (ds @ [js]) c')"
proof (cases "parse text")
  case None
  then show ?thesis by (simp add: parse_json_def)
next
  case (Some js)
  then show ?thesis using assms
    by (simp add: parse_json_def Let_def decided_def uint_settings_def get_uint_last get_str_last get_bool_last)
qed

lemma parse_file_decided:
  assumes "decided ds c" "path \<noteq> []"
  shows "case file_docs parse fs path of None \<Rightarrow> parse_file parse fs path m c = None
     | Some d \<Rightarrow> (\<exists>c'. parse_file parse fs path m c = Some c' \<and> decided (ds @ d) c')"
proof (cases "fs path")
  case (Content s)
  then show ?thesis using parse_json_decided [OF assms(1), of parse s] assms(2)
    by (cases "parse s") (auto simp: file_docs_def parse_file_def)
qed (use assms in \<open>auto simp: file_docs_def parse_file_def\<close>)

lemma from_user_cfg_decided:
  "case cfg_docs parse fs cfg of None \<Rightarrow> from_user_cfg parse fs cfg = None
     | Some ds \<Rightarrow> (\<exists>c. from_user_cfg parse fs cfg = Some c \<and> decided ds c)"
proof (cases "cfg = []")
  case True
  then show ?thesis by (simp add: cfg_docs_def from_user_cfg_def decided_Nil)
next
  case False
  let ?p1 = "''/usr/local/etc/lsvd.json''" and ?p2 = "''./lsvd.json''"
  show ?thesis
  proof (cases "file_docs parse fs ?p1")
    case None
    then show ?thesis using False parse_file_decided [OF decided_Nil, of ?p1 parse fs True]
      by (simp add: cfg_docs_def from_user_cfg_def)
  next
    case (Some a)
    then obtain c1 where c1: "parse_file parse fs ?p1 True get_default = Some c1" "decided a c1"
      using parse_file_decided [OF decided_Nil, of ?p1 parse fs True] by auto
    show ?thesis
    proof (cases "file_docs parse fs ?p2")
      case None
      then show ?thesis using False c1 Some parse_file_decided [OF c1(2), of ?p2 parse fs True]
        by (simp add: cfg_docs_def from_user_cfg_def)
    next
      case b: (Some b)
      then obtain c2 where c2: "parse_file parse fs ?p2 True c1 = Some c2" "decided (a @ b) c2"
        using parse_file_decided [OF c1(2), of ?p2 parse fs True] by auto
      show ?thesis
        using False c1 c2 Some b parse_json_decided [OF c2(2), of parse cfg] parse_file_decided [OF c2(2) False, of parse fs False]
        by (cases "parse cfg"; cases "file_docs parse fs cfg") (auto simp: cfg_docs_def from_user_cfg_def)
    qed
  qed
qed

lemma last_of_cases: "last_of sel k ds v = v \<or> (\<exists>d\<in>set ds. \<exists>x. d k = Some x \<and> sel x = Some (last_of sel k ds v))"
proof (induction ds rule: rev_induct)
  case (snoc d ds)
  then show ?case by (auto simp: last_of_snoc bind_eq_Some_conv split: option.split)
qed simp

text \<open>The JSON library parses an unsigned number into 64 bits.\<close>

definition u64_docs :: "(string \<Rightarrow> json_doc option) \<Rightarrow> bool" where
  "u64_docs parse \<longleftrightarrow> (\<forall>s js k n. parse s = Some js \<longrightarrow> js k = Some (JUint n) \<longrightarrow> 0 \<le> n \<and> n < 2 ^ 64)"

lemma sel_uint_Some: "sel_uint x = Some n \<longleftrightarrow> x = JUint n"
  by (simp add: sel_uint_def split: json.split)

lemma file_docs_parsed: "file_docs parse fs p = Some ds \<Longrightarrow> d \<in> set ds \<Longrightarrow> \<exists>s. parse s = Some d"
  by (auto simp: file_docs_def split: cfg_file.splits)

lemma cfg_docs_parsed:
  assumes "cfg_docs parse fs cfg = Some ds" "d \<in> set ds"
  shows "\<exists>s. parse s = Some d"
  using assms file_docs_parsed [of parse fs _ _ d]
  by (fastforce simp: cfg_docs_def split: if_splits option.splits)

section \<open>The property\<close>


definition demo_parse :: "string \<Rightarrow> json_doc option" where
  "demo_parse s =
     (if s = ''{sys}'' then Some [''wlog_bytes'' \<mapsto> JUint 1048576, ''gc_threshold_pc'' \<mapsto> JUint 40]
      else if s = ''{usr}'' then Some [''wlog_bytes'' \<mapsto> JUint 2097152, ''gc_threshold_pc'' \<mapsto> JStr ''70'', ''no_gc'' \<mapsto> JBool True]
      else None)"

definition demo_fs :: "string \<Rightarrow> cfg_file" where
  "demo_fs p = (if p = ''./lsvd.json'' then Content ''{sys}'' else Missing)"

lemma demo_parse_uint: "u64_docs demo_parse"
  by (auto simp: u64_docs_def demo_parse_def split: if_splits)


end
