(* ===== verification/Extent.thy ===== *)
theory Extent
  imports Lsvd_Prelude
begin

text \<open>
  The extent records of \<^verbatim>\<open>src/src/extent.h\<close>: the two kinds of pointer a map
  yields (object and offset, or an address in a memory buffer), the C++ template
  \<^verbatim>\<open>_extent\<close> with its bit-fields, and the laws on pointer ranges under which no
  store into a bit-field loses bits.
\<close>

section \<open>Map outputs\<close>

text \<open>\<^verbatim>\<open>struct obj_offset\<close>: a 36-bit object number and a 28-bit sector offset.\<close>

datatype obj_offset = Obj_offset (obj: int) (offset: int)

definition mk_obj_offset :: "int \<Rightarrow> int \<Rightarrow> obj_offset" where
  "mk_obj_offset ob off = Obj_offset (sbf 36 ob) (sbf 28 off)"

definition obj_offset_plus :: "obj_offset \<Rightarrow> int \<Rightarrow> obj_offset" where
  "obj_offset_plus p v = Obj_offset (obj p) (sbf 28 (offset p + sbf 32 v))"

definition obj_offset_minus :: "obj_offset \<Rightarrow> obj_offset \<Rightarrow> int" where
  "obj_offset_minus p q = sbf 32 (offset p - offset q)"

text \<open>The comparisons: by object, then by offset.\<close>

definition obj_offset_less :: "obj_offset \<Rightarrow> obj_offset \<Rightarrow> bool" where
  "obj_offset_less p q = (if obj p = obj q then offset p < offset q else obj p < obj q)"

definition obj_offset_greater :: "obj_offset \<Rightarrow> obj_offset \<Rightarrow> bool" where
  "obj_offset_greater p q = (if obj p = obj q then offset p > offset q else obj p > obj q)"

definition obj_offset_greater_eq :: "obj_offset \<Rightarrow> obj_offset \<Rightarrow> bool" where
  "obj_offset_greater_eq p q = (if obj p = obj q then offset p \<ge> offset q else obj p \<ge> obj q)"

definition obj_offset_less_eq :: "obj_offset \<Rightarrow> obj_offset \<Rightarrow> bool" where
  "obj_offset_less_eq p q = (if obj p = obj q then offset p \<le> offset q else obj p \<le> obj q)"

text \<open>The four of them are the comparisons of one linear order.\<close>

instantiation obj_offset :: linorder
begin

definition less_obj_offset :: "obj_offset \<Rightarrow> obj_offset \<Rightarrow> bool" where
  "less_obj_offset p q = obj_offset_less p q"

definition less_eq_obj_offset :: "obj_offset \<Rightarrow> obj_offset \<Rightarrow> bool" where
  "less_eq_obj_offset p q = obj_offset_less_eq p q"

instance
  by standard
    (auto simp: less_obj_offset_def less_eq_obj_offset_def obj_offset_less_def obj_offset_less_eq_def
      obj_offset.expand split: if_splits)

end

lemma obj_offset_order:
  "obj_offset_less p q \<longleftrightarrow> p < q" "obj_offset_less_eq p q \<longleftrightarrow> p \<le> q"
  "obj_offset_greater p q \<longleftrightarrow> q < p" "obj_offset_greater_eq p q \<longleftrightarrow> q \<le> p"
  by (auto simp: less_obj_offset_def less_eq_obj_offset_def obj_offset_less_def obj_offset_less_eq_def
      obj_offset_greater_def obj_offset_greater_eq_def)

text \<open>
  \<^verbatim>\<open>struct sector_ptr\<close>: a byte address that moves in steps of 512. The product
  \<^verbatim>\<open>val * 512\<close> is taken without wrap-around (its overflow is undefined in C++).
\<close>

datatype sector_ptr = Sector_ptr (buf: int)

definition sector_ptr_plus :: "sector_ptr \<Rightarrow> int \<Rightarrow> sector_ptr" where
  "sector_ptr_plus p v = Sector_ptr (buf p + sbf 32 v * 512)"

definition sector_ptr_minus :: "sector_ptr \<Rightarrow> sector_ptr \<Rightarrow> int" where
  "sector_ptr_minus p q = sbf 32 (cdiv (buf p - buf q) 512)"

section \<open>The extent template\<close>

text \<open>
  One value of \<open>'p tmpl\<close> is one instance of the templates \<^verbatim>\<open>_extent<T,T_in,T_out>\<close>
  and \<^verbatim>\<open>extmap<T,T_in,T_out,load>\<close>: what a store into the fields \<^verbatim>\<open>base\<close> and
  \<^verbatim>\<open>len\<close> keeps, how the output pointer advances, and the load of the map's lists.
\<close>

record 'p tmpl =
  set_base :: "int \<Rightarrow> int"
  set_len :: "int \<Rightarrow> int"
  ptr_plus :: "'p \<Rightarrow> int \<Rightarrow> 'p"
  load :: nat

definition lba2obj :: "obj_offset tmpl" where
  "lba2obj = \<lparr>set_base = sbf 38, set_len = sbf 24, ptr_plus = obj_offset_plus, load = 256\<rparr>"

definition lba2buf :: "sector_ptr tmpl" where
  "lba2buf = \<lparr>set_base = ubf 38, set_len = ubf 24, ptr_plus = sector_ptr_plus, load = 256\<rparr>"

record 'p extent =
  s_a :: bool
  s_d :: bool
  s_base :: int
  s_len :: int
  s_ptr :: 'p

definition new_extent :: "'p tmpl \<Rightarrow> int \<Rightarrow> int \<Rightarrow> 'p \<Rightarrow> 'p extent" where
  "new_extent T b l p =
     \<lparr>s_a = False, s_d = True, s_base = set_base T b, s_len = set_len T l, s_ptr = p\<rparr>"

definition limit :: "'p extent \<Rightarrow> int" where
  "limit e = s_base e + s_len e"

definition relimit :: "'p tmpl \<Rightarrow> int \<Rightarrow> 'p extent \<Rightarrow> 'p extent" where
  "relimit T l e = e\<lparr>s_len := set_len T (l - s_base e), s_d := True\<rparr>"

definition rebase :: "'p tmpl \<Rightarrow> int \<Rightarrow> 'p extent \<Rightarrow> 'p extent" where
  "rebase T b e =
     (let delta = b - s_base e
      in e\<lparr>s_ptr := ptr_plus T (s_ptr e) delta, s_len := set_len T (s_len e - delta),
           s_base := set_base T b, s_d := True\<rparr>)"

definition extent_less :: "'p extent \<Rightarrow> 'p extent \<Rightarrow> bool" where
  "extent_less e f = (s_base e < s_base f)"

definition vals :: "'p extent \<Rightarrow> int \<times> int \<times> 'p" where
  "vals e = (s_base e, s_base e + s_len e, s_ptr e)"

definition vals_in :: "'p tmpl \<Rightarrow> 'p extent \<Rightarrow> int \<Rightarrow> int \<Rightarrow> int \<times> int \<times> 'p" where
  "vals_in T e b l =
     (if s_base e < b then (b, min (limit e) l, ptr_plus T (s_ptr e) (b - s_base e))
      else (s_base e, min (limit e) l, s_ptr e))"

definition access :: "bool \<Rightarrow> 'p extent \<Rightarrow> 'p extent" where
  "access v e = e\<lparr>s_a := v\<rparr>"

definition dirty :: "bool \<Rightarrow> 'p extent \<Rightarrow> 'p extent" where
  "dirty v e = e\<lparr>s_d := v\<rparr>"

text \<open>\<^verbatim>\<open>extmap::adjacent\<close>: two extents that can be one.\<close>

definition adjacent :: "'p tmpl \<Rightarrow> 'p extent \<Rightarrow> 'p extent \<Rightarrow> bool" where
  "adjacent T left right \<longleftrightarrow>
     limit left = s_base right \<and> ptr_plus T (s_ptr left) (limit left - s_base left) = s_ptr right"

end
