(* ===== verification/Extmap.thy ===== *)
theory Extmap
  imports Extent
begin

text \<open>
  The extent map of \<^verbatim>\<open>src/src/extent.h\<close> (\<^verbatim>\<open>struct extmap\<close>): a sorted sequence of
  extents cut into lists of bounded length, with the vector \<^verbatim>\<open>maxes\<close> of the last limit
  of each list to search by, its iterators, and all of its operations as the code has them.
  An iterator is the pair of its list index and its index in that list. Vector accesses are
  \<open>!\<close>, unspecified out of range, so what is proved of their result rests on the index being
  in range.
\<close>

section \<open>State and iterators\<close>

record 'p extmap =
  lists :: "'p extent list list"
  maxes :: "int list"
  count :: int

type_synonym iter = "nat \<times> nat"

definition extmap_empty :: "'p extmap" where
  "extmap_empty = \<lparr>lists = [], maxes = [], count = 0\<rparr>"

definition first :: "'p extmap \<Rightarrow> 'p extent \<Rightarrow> 'p extmap" where
  "first m e = m\<lparr>lists := lists m @ [[e]], maxes := maxes m @ [limit e], count := 1\<rparr>"

definition begin_it :: "'p extmap \<Rightarrow> iter" where
  "begin_it m = (0, 0)"

definition end_it :: "'p extmap \<Rightarrow> iter" where
  "end_it m =
     (if lists m = [] then (0, 0)
      else let n = length (lists m) - 1 in (n, length (lists m ! n)))"

definition deref :: "'p extmap \<Rightarrow> iter \<Rightarrow> 'p extent" where
  "deref m it = lists m ! fst it ! snd it"

definition set_at :: "'p extmap \<Rightarrow> iter \<Rightarrow> 'p extent \<Rightarrow> 'p extmap" where
  "set_at m it e = m\<lparr>lists := (lists m)[fst it := (lists m ! fst it)[snd it := e]]\<rparr>"

text \<open>\<^verbatim>\<open>maxes[i] = lists[i]->back().limit()\<close>, as the code writes after most changes.\<close>

definition fix_max :: "nat \<Rightarrow> 'p extmap \<Rightarrow> 'p extmap" where
  "fix_max i m = m\<lparr>maxes := (maxes m)[i := limit (last (lists m ! i))]\<rparr>"

definition it_next :: "'p extmap \<Rightarrow> iter \<Rightarrow> iter" where
  "it_next m it =
     (let (i, j) = it; j' = Suc j
      in if j' = length (lists m ! i) \<and> i + 1 < length (lists m) then (i + 1, 0) else (i, j'))"

definition it_prev :: "'p extmap \<Rightarrow> iter \<Rightarrow> iter" where
  "it_prev m it =
     (let (i, j) = it
      in if j = 0 then (if 0 < i then (i - 1, length (lists m ! (i - 1)) - 1) else (i, j))
         else (i, j - 1))"

text \<open>
  \<^verbatim>\<open>operator+(n)\<close> and \<^verbatim>\<open>operator-(n)\<close>. For \<open>n > 1\<close> the code of \<^verbatim>\<open>operator-\<close>
  steps forward; the map itself only uses \<open>n = 1\<close>.
\<close>

definition it_plus1 :: "'p extmap \<Rightarrow> iter \<Rightarrow> iter" where
  "it_plus1 m it =
     (let (i, j) = it
      in if j + 1 = length (lists m ! i)
         then (if i + 1 = length (lists m) then end_it m else (i + 1, 0))
         else (i, j + 1))"

fun it_plus :: "'p extmap \<Rightarrow> iter \<Rightarrow> nat \<Rightarrow> iter" where
  "it_plus m it (Suc (Suc n)) = it_plus m (it_plus1 m it) (Suc n)"
| "it_plus m it n = it_plus1 m it"

definition it_minus :: "'p extmap \<Rightarrow> iter \<Rightarrow> nat \<Rightarrow> iter" where
  "it_minus m it n =
     (let (i, j) = it
      in if 1 < n then it_plus m (it_plus1 m it) (n - 1)
         else if j = 0 \<and> i = 0 then begin_it m
         else if j = 0 then (i - 1, length (lists m ! (i - 1)) - 1)
         else (i, j - 1))"

section \<open>Search\<close>

definition lower_bound :: "'p tmpl \<Rightarrow> 'p extmap \<Rightarrow> int \<Rightarrow> iter" where
  "lower_bound T m b =
     (if lists m = [] then end_it m
      else
        let i0 = lower_bound_idx (\<lambda>x. x < b) (maxes m);
            i = (if i0 < length (maxes m) \<and> b = maxes m ! i0 then i0 + 1 else i0)
        in if i = length (maxes m) then end_it m
           else
             let l = lists m ! i;
                 j = lower_bound_idx (\<lambda>e. s_base e < set_base T b) l
             in if j \<noteq> 0 \<and> s_base (l ! (j - 1)) \<le> b \<and> b < limit (l ! (j - 1)) then (i, j - 1)
                else if i < length (lists m) - 1 \<and> j = length l then (i + 1, 0)
                else (i, j))"

definition lookup :: "'p tmpl \<Rightarrow> 'p extmap \<Rightarrow> int \<Rightarrow> iter" where
  "lookup T m b = lower_bound T m b"

section \<open>Insertion and removal at an iterator\<close>

definition slice :: "'a list \<Rightarrow> nat \<Rightarrow> 'a list \<times> 'a list" where
  "slice A len = (take len A, drop len A)"

definition expand :: "'p tmpl \<Rightarrow> 'p extmap \<Rightarrow> iter \<Rightarrow> 'p extmap \<times> iter" where
  "expand T m it =
     (let (i, j) = it
      in if load T * 2 \<le> length (lists m ! i)
         then
           let (A, half) = slice (lists m ! i) (load T);
               m' = m\<lparr>lists := vec_insert (i + 1) half ((lists m)[i := A]),
                      maxes := vec_insert (i + 1) (limit (last half))
                                 ((maxes m)[i := limit (last A)])\<rparr>
           in (m', if load T \<le> j then (i + 1, j - load T) else (i, j))
         else (m, it))"

definition insert_at :: "'p tmpl \<Rightarrow> 'p extmap \<Rightarrow> iter \<Rightarrow> 'p extent \<Rightarrow> 'p extmap \<times> iter" where
  "insert_at T m it e =
     (if count m = 0 then (first m e, begin_it (first m e))
      else
        let (i, j) = it;
            m1 = m\<lparr>lists := (lists m)[i := vec_insert j e (lists m ! i)]\<rparr>;
            m2 = (fix_max i m1)\<lparr>count := count m + 1\<rparr>
        in expand T m2 (i, j))"

text \<open>The tail of \<^verbatim>\<open>_erase\<close>: an iterator at the end of an inner list moves to the next.\<close>

definition settle :: "'p extmap \<Rightarrow> iter \<Rightarrow> iter" where
  "settle m it =
     (let (i, j) = it
      in if j = length (lists m ! i) \<and> i \<noteq> length (lists m) - 1 then (i + 1, 0) else (i, j))"

text \<open>The branch of \<^verbatim>\<open>_erase\<close> that joins a short list with a neighbour.\<close>

definition join_lists :: "'p tmpl \<Rightarrow> 'p extmap \<Rightarrow> iter \<Rightarrow> 'p extmap \<times> iter" where
  "join_lists T m it =
     (let (i, j) = it;
          pos = (if 0 < i then i else i + 1);
          prev = pos - 1;
          j' = (if pos = i then j + length (lists m ! prev) else j);
          m1 = m\<lparr>lists := (lists m)[prev := lists m ! prev @ lists m ! pos]\<rparr>;
          m2 = fix_max prev m1;
          m3 = m2\<lparr>lists := vec_erase pos (lists m2), maxes := vec_erase pos (maxes m2)\<rparr>
      in expand T m3 (prev, j'))"

definition erase_at :: "'p tmpl \<Rightarrow> 'p extmap \<Rightarrow> iter \<Rightarrow> 'p extmap \<times> iter" where
  "erase_at T m it =
     (let (i, j) = it;
          m1 = m\<lparr>lists := (lists m)[i := vec_erase j (lists m ! i)]\<rparr>;
          m2 = (if lists m1 ! i \<noteq> [] then fix_max i m1
                else m1\<lparr>lists := vec_erase i (lists m1), maxes := vec_erase i (maxes m1)\<rparr>);
          m3 = m2\<lparr>count := count m - 1\<rparr>
      in if lists m3 = [] then (m3, end_it m3)
         else
           let (m4, it4) =
             (if load T div 2 < length (lists m3 ! i) then (m3, (i, j))
              else if 1 < length (lists m3) then join_lists T m3 (i, j)
              else if lists m3 ! i \<noteq> [] then (fix_max i m3, (i, j))
              else (m3, (i, j)))
           in (m4, settle m4 it4))"

section \<open>Update and trim\<close>

text \<open>
  \<^verbatim>\<open>_update\<close> receives a pointer to the vector of discarded extents, or a null pointer:
  an optional list that grows at its end.
\<close>

type_synonym 'p dels = "'p extent list option"

definition push_del :: "'p extent \<Rightarrow> 'p dels \<Rightarrow> 'p dels" where
  "push_del e d = map_option (\<lambda>es. es @ [e]) d"

text \<open>The first two cases: the range bisects an extent, or overlaps the end of one.\<close>

definition cut_left ::
  "'p tmpl \<Rightarrow> int \<Rightarrow> int \<Rightarrow> 'p extmap \<Rightarrow> iter \<Rightarrow> 'p dels \<Rightarrow> 'p extmap \<times> iter \<times> 'p dels" where
  "cut_left T b l m it d =
     (let e = deref m it
      in if s_base e < b \<and> l < limit e
         then
           let d' = push_del (new_extent T b (l - b) (ptr_plus T (s_ptr e) (b - s_base e))) d;
               new = new_extent T l (limit e - l) (ptr_plus T (s_ptr e) (l - s_base e));
               m1 = fix_max (fst it) (set_at m it (relimit T b e));
               (m2, it2) = insert_at T m1 (it_plus m1 it 1) new
           in (m2, it2, d')
         else if s_base e < b \<and> b < limit e
         then
           let d' = push_del (new_extent T b (limit e - b) (ptr_plus T (s_ptr e) (b - s_base e))) d;
               m1 = fix_max (fst it) (set_at m it (relimit T b e))
           in (m1, it_next m1 it, d')
         else (m, it, d))"

text \<open>
  The loop that erases the extents that lie in the range. Every round removes an extent, so the
  number of extents bounds the rounds; \<open>clear_range\<close> starts it with that number.
\<close>

fun erase_covered ::
  "nat \<Rightarrow> 'p tmpl \<Rightarrow> int \<Rightarrow> int \<Rightarrow> 'p extmap \<Rightarrow> iter \<Rightarrow> 'p dels \<Rightarrow> 'p extmap \<times> iter \<times> 'p dels" where
  "erase_covered 0 T b l m it d = (m, it, d)"
| "erase_covered (Suc n) T b l m it d =
     (if it \<noteq> end_it m \<and> b \<le> s_base (deref m it) \<and> limit (deref m it) \<le> l
      then
        let d' = push_del (deref m it) d;
            (m', it') = erase_at T m it
        in erase_covered n T b l m' it' d'
      else (m, it, d))"

definition cut_right ::
  "'p tmpl \<Rightarrow> int \<Rightarrow> 'p extmap \<Rightarrow> iter \<Rightarrow> 'p dels \<Rightarrow> 'p extmap \<times> 'p dels" where
  "cut_right T l m it d =
     (if it \<noteq> end_it m \<and> s_base (deref m it) < l
      then
        let e = deref m it
        in (set_at m it (rebase T l e),
            push_del (new_extent T (s_base e) (l - s_base e) (s_ptr e)) d)
      else (m, d))"

text \<open>The last part: merge the new extent with a neighbour, or insert it before \<^verbatim>\<open>it\<close>.\<close>

definition place ::
  "'p tmpl \<Rightarrow> int \<Rightarrow> int \<Rightarrow> 'p extent \<Rightarrow> 'p extmap \<Rightarrow> iter \<Rightarrow> 'p extmap" where
  "place T b l e m it =
     (if count m = 0 then fst (insert_at T m it e)
      else
        let prev = it_minus m it 1
        in if it \<noteq> begin_it m \<and> adjacent T (deref m prev) e
           then
             let m1 = fix_max (fst prev) (set_at m prev (relimit T l (deref m prev)))
             in if it \<noteq> end_it m1 \<and> adjacent T (deref m1 prev) (deref m1 it)
                then
                  let m2 = fix_max (fst prev)
                             (set_at m1 prev (relimit T (limit (deref m1 it)) (deref m1 prev)))
                  in fst (erase_at T m2 it)
                else m1
           else if it \<noteq> end_it m \<and> adjacent T e (deref m it)
           then set_at m it (rebase T b (deref m it))
           else fst (insert_at T m it e))"

text \<open>Everything \<^verbatim>\<open>_update\<close> does before it stores the new extent.\<close>

definition clear_range ::
  "'p tmpl \<Rightarrow> int \<Rightarrow> int \<Rightarrow> 'p extmap \<Rightarrow> 'p dels \<Rightarrow> 'p extmap \<times> iter \<times> 'p dels" where
  "clear_range T b l m d =
     (let it = lower_bound T m b
      in if it \<noteq> end_it m
         then
           let (m1, it1, d1) = cut_left T b l m it d;
               (m2, it2, d2) = erase_covered (length (concat (lists m1))) T b l m1 it1 d1;
               (m3, d3) = cut_right T l m2 it2 d2
           in (m3, it2, d3)
         else (m, it, d))"

definition update_map ::
  "'p tmpl \<Rightarrow> 'p extmap \<Rightarrow> int \<Rightarrow> int \<Rightarrow> 'p \<Rightarrow> bool \<Rightarrow> 'p dels \<Rightarrow> 'p extmap \<times> 'p dels" where
  "update_map T m b l p trim d =
     (let e = new_extent T b (l - b) p
      in if maxes m = [] then (first m e, d)
         else
           let (m', it, d') = clear_range T b l m d
           in (if trim then m' else place T b l e m' it, d'))"

definition update ::
  "'p tmpl \<Rightarrow> 'p extmap \<Rightarrow> int \<Rightarrow> int \<Rightarrow> 'p \<Rightarrow> 'p extmap" where
  "update T m b l p = fst (update_map T m b l p False None)"

definition update_del ::
  "'p tmpl \<Rightarrow> 'p extmap \<Rightarrow> int \<Rightarrow> int \<Rightarrow> 'p \<Rightarrow> 'p extent list \<Rightarrow> 'p extmap \<times> 'p extent list" where
  "update_del T m b l p del =
     (let (m', d) = update_map T m b l p False (Some del) in (m', the d))"

text \<open>
  \<^verbatim>\<open>trim\<close> hands \<^verbatim>\<open>_update\<close> a static, uninitialised pointer that is never stored when the
  map is not empty; the model takes it as the argument \<open>unused\<close>.
\<close>

definition trim_map :: "'p tmpl \<Rightarrow> 'p \<Rightarrow> 'p extmap \<Rightarrow> int \<Rightarrow> int \<Rightarrow> 'p extmap" where
  "trim_map T unused m b l =
     (if 0 < count m then fst (update_map T m b l unused True None) else m)"

definition trim_del ::
  "'p tmpl \<Rightarrow> 'p \<Rightarrow> 'p extmap \<Rightarrow> int \<Rightarrow> int \<Rightarrow> 'p extent list \<Rightarrow> 'p extmap \<times> 'p extent list" where
  "trim_del T unused m b l del =
     (if 0 < count m
      then let (m', d) = update_map T m b l unused True (Some del) in (m', the d)
      else (m, del))"

definition size_map :: "'p extmap \<Rightarrow> int" where
  "size_map m = count m"

definition reset :: "'p extmap \<Rightarrow> 'p extmap" where
  "reset m = m\<lparr>lists := [], maxes := [], count := 0\<rparr>"

section \<open>The loops of the clients\<close>

text \<open>
  \<^verbatim>\<open>for (; it != end() && P(*it); it++)\<close>: the extents such a loop visits, in its order. The
  number of extents bounds its rounds. The first use below is the one the comment on
  \<^verbatim>\<open>lookup\<close> gives, the second is a walk over the whole map.
\<close>

fun it_while :: "nat \<Rightarrow> ('p extent \<Rightarrow> bool) \<Rightarrow> 'p extmap \<Rightarrow> iter \<Rightarrow> 'p extent list" where
  "it_while 0 P m it = []"
| "it_while (Suc n) P m it =
     (if it \<noteq> end_it m \<and> P (deref m it) then deref m it # it_while n P m (it_next m it) else [])"

definition range_vals :: "'p tmpl \<Rightarrow> 'p extmap \<Rightarrow> int \<Rightarrow> int \<Rightarrow> (int \<times> int \<times> 'p) list" where
  "range_vals T m b l =
     map (\<lambda>e. vals_in T e b l)
       (it_while (length (concat (lists m))) (\<lambda>e. s_base e < l) m (lookup T m b))"

definition all_extents :: "'p extmap \<Rightarrow> 'p extent list" where
  "all_extents m = it_while (length (concat (lists m))) (\<lambda>e. True) m (begin_it m)"

end
