(* ===== verification/Extmap_Cursor.thy ===== *)
theory Extmap_Cursor
  imports Extmap
begin

text \<open>
  The structural invariant of the extent map and the meaning of its iterators. An iterator of a
  well-formed map is a cut of the flat sequence of extents into what lies before it and what it
  points at and beyond (\<open>cursor\<close>); every iterator operation of the code is a move of that
  cut, and insertion and removal change the sequence at the cut only, whatever the
  re-balancing of the lists does.
\<close>

section \<open>The structural invariant and cursors\<close>

definition flat :: "'p extmap \<Rightarrow> 'p extent list" where
  "flat m = concat (lists m)"

definition last_limits :: "'p extent list list \<Rightarrow> int list" where
  "last_limits ls = map (\<lambda>l. limit (last l)) ls"

definition balanced :: "nat \<Rightarrow> 'a list list \<Rightarrow> bool" where
  "balanced n ls \<longleftrightarrow>
     [] \<notin> set ls \<and> (\<forall>l\<in>set ls. length l < 2 * n)
     \<and> (1 < length ls \<longrightarrow> (\<forall>l\<in>set ls. n div 2 < length l))"

definition struct_inv :: "'p tmpl \<Rightarrow> 'p extmap \<Rightarrow> bool" where
  "struct_inv T m \<longleftrightarrow>
     maxes m = last_limits (lists m) \<and> balanced (load T) (lists m)
     \<and> count m = int (length (flat m))"

definition cursor :: "'p extmap \<Rightarrow> iter \<Rightarrow> 'p extent list \<Rightarrow> 'p extent list \<Rightarrow> bool" where
  "cursor m it L R \<longleftrightarrow>
     (lists m = [] \<and> it = (0, 0) \<and> L = [] \<and> R = [])
     \<or> (\<exists>A u v B. lists m = A @ (u @ v) # B \<and> it = (length A, length u)
          \<and> L = concat A @ u \<and> R = v @ concat B \<and> (v = [] \<longrightarrow> B = []))"

lemma struct_inv_empty: "struct_inv T extmap_empty"
  by (simp add: struct_inv_def extmap_empty_def last_limits_def balanced_def flat_def)

lemma last_limits_simps [simp]:
  "last_limits [] = []"
  "last_limits (l # ls) = limit (last l) # last_limits ls"
  "last_limits (ls @ ls') = last_limits ls @ last_limits ls'"
  "length (last_limits ls) = length ls"
  by (simp_all add: last_limits_def)

lemma balanced_nonempty: "balanced n ls \<Longrightarrow> [] \<notin> set ls"
  by (simp add: balanced_def)

lemma struct_inv_lists:
  "struct_inv T m \<Longrightarrow> lists m = A @ l # B \<Longrightarrow> l \<noteq> [] \<and> [] \<notin> set A \<and> [] \<notin> set B"
  by (auto simp: struct_inv_def balanced_def)

lemma struct_inv_maxes_Nil: "struct_inv T m \<Longrightarrow> maxes m = [] \<longleftrightarrow> flat m = []"
  by (cases "lists m") (auto simp: struct_inv_def flat_def balanced_def)

lemma struct_inv_count0: "struct_inv T m \<Longrightarrow> count m = 0 \<longleftrightarrow> flat m = []"
  by (simp add: struct_inv_def)

lemma struct_inv_lists_Nil: "struct_inv T m \<Longrightarrow> lists m = [] \<longleftrightarrow> flat m = []"
  by (cases "lists m") (auto simp: struct_inv_def flat_def balanced_def)

lemma cursor_flat: "cursor m it L R \<Longrightarrow> flat m = L @ R"
  by (auto simp: cursor_def flat_def)

lemma cursorI:
  "lists m = A @ (u @ v) # B \<Longrightarrow> v \<noteq> [] \<or> B = [] \<Longrightarrow> it = (length A, length u) \<Longrightarrow>
   L = concat A @ u \<Longrightarrow> R = v @ concat B \<Longrightarrow> cursor m it L R"
  unfolding cursor_def by blast

lemma cursorE:
  assumes "cursor m it L R" "L @ R \<noteq> []"
  obtains A u v B where "lists m = A @ (u @ v) # B" "it = (length A, length u)"
    "L = concat A @ u" "R = v @ concat B" "v = [] \<longrightarrow> B = []"
  using assms unfolding cursor_def by blast

text \<open>A cursor at an extent: the extent is in the list the iterator points into.\<close>

lemma cursor_ConsE:
  assumes "cursor m it L (e # R)"
  obtains A u v B where "lists m = A @ (u @ e # v) # B" "it = (length A, length u)"
    "L = concat A @ u" "R = v @ concat B"
proof (rule cursorE [OF assms])
  fix A u v B
  assume *: "lists m = A @ (u @ v) # B" "it = (length A, length u)"
    "L = concat A @ u" "e # R = v @ concat B" "v = [] \<longrightarrow> B = []"
  then obtain v' where "v = e # v'" by (cases v) auto
  with * show thesis using that [of A u v' B] by simp
qed simp

lemma cursor_ConsI:
  "lists m = A @ (u @ e # v) # B \<Longrightarrow> cursor m (length A, length u) (concat A @ u) (e # v @ concat B)"
  by (rule cursorI [where v = "e # v"]) simp_all

lemma cursor_Nil:
  assumes "struct_inv T m" "cursor m it L R" "L @ R = []"
  shows "lists m = []" "it = (0, 0)"
proof -
  show "lists m = []"
    using cursor_flat [OF assms(2)] assms(1,3) by (simp add: struct_inv_lists_Nil)
  then show "it = (0, 0)" using assms(2) by (simp add: cursor_def)
qed

lemma cursor_unique:
  assumes "struct_inv T m" "cursor m it L R" "cursor m it' L' R'" "length L = length L'"
  shows "it = it'"
proof (cases "L @ R = []")
  case True
  from cursor_Nil [OF assms(1,2) True] show ?thesis
    using assms(3) by (simp add: cursor_def)
next
  case False
  have eqL: "L = L'"
    using assms(4) cursor_flat [OF assms(2)] cursor_flat [OF assms(3)] by simp
  have ne: "L' @ R' \<noteq> []"
    using False cursor_flat [OF assms(2)] cursor_flat [OF assms(3)] by simp
  from cursorE [OF assms(2) False] obtain A u v B where
    a: "lists m = A @ (u @ v) # B" "it = (length A, length u)"
      "L = concat A @ u" "R = v @ concat B" "v = [] \<longrightarrow> B = []" .
  from cursorE [OF assms(3) ne] obtain A' u' v' B' where
    b: "lists m = A' @ (u' @ v') # B'" "it' = (length A', length u')"
      "L' = concat A' @ u'" "R' = v' @ concat B'" "v' = [] \<longrightarrow> B' = []" .
  from a(1) b(1) have "A @ (u @ v) # B = A' @ (u' @ v') # B'" by simp
  then show ?thesis
    by (rule append_Cons_cases) (use eqL a(2,3,5) b(2,3,5) in auto)
qed

section \<open>Moving a cursor\<close>

lemma cursor_end:
  assumes "struct_inv T m" "cursor m it L R"
  shows "it = end_it m \<longleftrightarrow> R = []"
proof (cases "L @ R = []")
  case True
  with cursor_Nil [OF assms True] show ?thesis by (simp add: end_it_def)
next
  case False
  from cursorE [OF assms(2) False] obtain A u v B where
    a: "lists m = A @ (u @ v) # B" "it = (length A, length u)"
      "L = concat A @ u" "R = v @ concat B" "v = [] \<longrightarrow> B = []" .
  have "[] \<notin> set B" using struct_inv_lists [OF assms(1) a(1)] by simp
  then show ?thesis
    using a by (cases "B = []") (auto simp: end_it_def Let_def)
qed

lemma cursor_begin:
  assumes "struct_inv T m" "cursor m it L R"
  shows "it = begin_it m \<longleftrightarrow> L = []"
proof (cases "L @ R = []")
  case True
  with cursor_Nil [OF assms True] show ?thesis by (simp add: begin_it_def)
next
  case False
  from cursorE [OF assms(2) False] obtain A u v B where
    a: "lists m = A @ (u @ v) # B" "it = (length A, length u)"
      "L = concat A @ u" "R = v @ concat B" "v = [] \<longrightarrow> B = []" .
  have "[] \<notin> set A" using struct_inv_lists [OF assms(1) a(1)] by simp
  then show ?thesis
    using a by (cases A) (auto simp: begin_it_def)
qed

lemma cursor_end_it: "struct_inv T m \<Longrightarrow> cursor m (end_it m) (flat m) []"
  by (cases "lists m" rule: rev_cases)
    (auto simp: cursor_def end_it_def flat_def Let_def nth_append)

lemma cursor_begin_it:
  assumes "struct_inv T m"
  shows "cursor m (begin_it m) [] (flat m)"
proof (cases "lists m")
  case (Cons l ls)
  then have "l \<noteq> []" using assms by (auto simp: struct_inv_def balanced_def)
  then show ?thesis
    using Cons by (auto simp: begin_it_def flat_def intro!: cursorI [of _ "[]" "[]" l ls])
qed (simp add: cursor_def begin_it_def flat_def)

lemma cursor_deref: "cursor m it L (e # R) \<Longrightarrow> deref m it = e"
  by (erule cursor_ConsE) (simp add: deref_def)

lemma cursor_step:
  assumes "struct_inv T m" "lists m = A @ (u @ e # v) # B"
  shows "cursor m (if v = [] \<and> B \<noteq> [] then (Suc (length A), 0) else (length A, Suc (length u)))
    (concat A @ u @ [e]) (v @ concat B)"
proof (cases "v = [] \<and> B \<noteq> []")
  case True
  then obtain l B' where B: "B = l # B'" by (cases B) auto
  then have "l \<noteq> []" using struct_inv_lists [OF assms] by auto
  then show ?thesis
    using True B assms(2) by (auto intro!: cursorI [of _ "A @ [u @ [e]]" "[]" l B'])
next
  case False
  then show ?thesis
    using assms(2) by (auto intro!: cursorI [of _ A "u @ [e]" v B])
qed

lemma cursor_next:
  assumes "struct_inv T m" "cursor m it L (e # R)"
  shows "cursor m (it_next m it) (L @ [e]) R"
  using assms(2)
proof (rule cursor_ConsE)
  fix A u v B
  assume a: "lists m = A @ (u @ e # v) # B" "it = (length A, length u)" "L = concat A @ u"
    "R = v @ concat B"
  have "it_next m it = (if v = [] \<and> B \<noteq> [] then (Suc (length A), 0) else (length A, Suc (length u)))"
    by (auto simp: it_next_def a)
  then show ?thesis using cursor_step [OF assms(1) a(1)] a(3,4) by simp
qed

lemma cursor_plus:
  assumes "struct_inv T m" "cursor m it L (e # R)"
  shows "cursor m (it_plus m it 1) (L @ [e]) R"
  using assms(2)
proof (rule cursor_ConsE)
  fix A u v B
  assume a: "lists m = A @ (u @ e # v) # B" "it = (length A, length u)" "L = concat A @ u"
    "R = v @ concat B"
  have "it_plus m it 1 = (if v = [] \<and> B \<noteq> [] then (Suc (length A), 0) else (length A, Suc (length u)))"
    by (auto simp: it_plus1_def end_it_def Let_def a)
  then show ?thesis using cursor_step [OF assms(1) a(1)] a(3,4) by simp
qed

lemma cursor_minus:
  assumes "struct_inv T m" "cursor m it (L @ [e]) R"
  shows "cursor m (it_minus m it 1) L (e # R)"
proof -
  have "(L @ [e]) @ R \<noteq> []" by simp
  from cursorE [OF assms(2) this] obtain A u v B where
    a: "lists m = A @ (u @ v) # B" "it = (length A, length u)"
      "L @ [e] = concat A @ u" "R = v @ concat B" "v = [] \<longrightarrow> B = []" .
  show ?thesis
  proof (cases u rule: rev_cases)
    case Nil
    then obtain A' l where A: "A = A' @ [l]" using a(3) by (cases A rule: rev_cases) auto
    then have "l \<noteq> []" using struct_inv_lists [OF assms(1) a(1)] by auto
    then obtain l' x where l: "l = l' @ [x]" by (cases l rule: rev_cases) auto
    with a(3) A Nil have "x = e" "L = concat A' @ l'" by auto
    then show ?thesis
      using a A Nil l by (auto simp: it_minus_def nth_append intro!: cursorI [of _ A' l' "[e]" "v # B"])
  next
    case (snoc u' x)
    with a(3) have "x = e" "L = concat A @ u'" by auto
    then show ?thesis
      using a snoc by (auto simp: it_minus_def intro!: cursorI [of _ A u' "e # v" B])
  qed
qed

section \<open>Changing an extent in place\<close>

lemma balanced_lengths:
  "balanced n ls \<longleftrightarrow>
     (\<forall>k\<in>set (map length ls). 0 < k \<and> k < 2 * n)
     \<and> (1 < length (map length ls) \<longrightarrow> (\<forall>k\<in>set (map length ls). n div 2 < k))"
  by (auto simp: balanced_def)

lemma balanced_cong: "map length ls = map length ls' \<Longrightarrow> balanced n ls = balanced n ls'"
  by (simp only: balanced_lengths)

lemma length_concat_cong: "map length ls = map length ls' \<Longrightarrow> length (concat ls) = length (concat ls')"
  by (simp add: length_concat)

lemma cursor_shape:
  assumes "map length (lists m') = map length (lists m)" "cursor m it L R"
  shows "cursor m' it (take (length L) (flat m')) (drop (length L) (flat m'))"
proof (cases "lists m = []")
  case True
  then show ?thesis using assms by (auto simp: cursor_def flat_def)
next
  case False
  with assms(2) obtain A u v B where
    a: "lists m = A @ (u @ v) # B" "it = (length A, length u)"
      "L = concat A @ u" "R = v @ concat B" "v = [] \<longrightarrow> B = []"
    unfolding cursor_def by blast
  from assms(1) a(1) obtain A' w B' where
    b: "lists m' = A' @ w # B'" "map length A' = map length A" "length w = length u + length v"
      "map length B' = map length B"
    by (auto simp: map_eq_append_conv map_eq_Cons_conv append_eq_map_conv Cons_eq_map_conv)
  have len: "length A' = length A" "length (concat A') = length (concat A)"
    using map_eq_imp_length_eq [OF b(2)] length_concat_cong [OF b(2)] by simp_all
  have "drop (length u) w \<noteq> [] \<or> B' = []"
    using a(5) b(3,4) by auto
  then show ?thesis
    using a b(1,3) len
    by (intro cursorI [of m' A' "take (length u) w" "drop (length u) w" B']) (auto simp: flat_def)
qed

lemma set_at_lists:
  "lists m = A @ (u @ e # v) # B \<Longrightarrow> lists (set_at m (length A, length u) e') = A @ (u @ e' # v) # B"
  by (simp add: set_at_def)

lemma fix_max_sel [simp]:
  "lists (fix_max i m) = lists m" "count (fix_max i m) = count m"
  by (simp_all add: fix_max_def)

lemma fix_max_maxes:
  "lists m = A @ l # B \<Longrightarrow> maxes m = last_limits A @ x # last_limits B \<Longrightarrow>
   maxes (fix_max (length A) m) = last_limits (lists m)"
  by (simp add: fix_max_def list_update_append last_limits_def)

lemma set_at_shape: "map length (lists (set_at m it e)) = map length (lists m)"
  by (cases "fst it < length (lists m)")
    (simp_all add: set_at_def map_update list_update_beyond list_update_same_conv)

lemma set_at_sel [simp]: "maxes (set_at m it e) = maxes m" "count (set_at m it e) = count m"
  by (simp_all add: set_at_def)

lemma struct_inv_shape:
  assumes "struct_inv T m" "map length (lists m') = map length (lists m)" "count m' = count m"
    "maxes m' = last_limits (lists m')"
  shows "struct_inv T m'"
  using assms balanced_cong [OF assms(2)] length_concat_cong [OF assms(2)]
  by (simp add: struct_inv_def flat_def)

text \<open>An extent replaced by one with the same limit, and by any one with \<^verbatim>\<open>maxes\<close> repaired.\<close>

lemma cursor_set_same_limit:
  assumes "struct_inv T m" "cursor m it L (e # R)" "limit e' = limit e"
  shows "struct_inv T (set_at m it e')" "cursor (set_at m it e') it L (e' # R)"
proof -
  from cursor_ConsE [OF assms(2)] obtain A u v B where
    a: "lists m = A @ (u @ e # v) # B" "it = (length A, length u)" "L = concat A @ u" "R = v @ concat B" .
  have l: "lists (set_at m it e') = A @ (u @ e' # v) # B"
    using a(1,2) by (simp add: set_at_lists)
  show "struct_inv T (set_at m it e')"
    by (rule struct_inv_shape [OF assms(1) set_at_shape])
      (use assms(1,3) a(1) l in \<open>simp_all add: struct_inv_def last_limits_def\<close>)
  show "cursor (set_at m it e') it L (e' # R)"
    using cursor_ConsI [OF l] a by simp
qed

lemma cursor_set_fix:
  assumes "struct_inv T m" "cursor m it L (e # R)"
  shows "struct_inv T (fix_max (fst it) (set_at m it e'))"
    "cursor (fix_max (fst it) (set_at m it e')) it L (e' # R)"
proof -
  from cursor_ConsE [OF assms(2)] obtain A u v B where
    a: "lists m = A @ (u @ e # v) # B" "it = (length A, length u)" "L = concat A @ u" "R = v @ concat B" .
  have l: "lists (set_at m it e') = A @ (u @ e' # v) # B"
    using a(1,2) by (simp add: set_at_lists)
  have m: "maxes (fix_max (length A) (set_at m it e')) = last_limits (lists (set_at m it e'))"
    by (rule fix_max_maxes [OF l, where x = "limit (last (u @ e # v))"])
      (use assms(1) a(1) in \<open>simp add: struct_inv_def\<close>)
  show "struct_inv T (fix_max (fst it) (set_at m it e'))"
    by (rule struct_inv_shape [OF assms(1)]) (simp_all add: set_at_shape a(2) m [unfolded a(2)])
  show "cursor (fix_max (fst it) (set_at m it e')) it L (e' # R)"
    using cursor_ConsI [of "fix_max (fst it) (set_at m it e')" A u e' v B] a l by simp
qed

lemma cursor_set_other:
  assumes "cursor m' it' L (e' # R)" "cursor m it (L @ [e]) R"
    "map length (lists m') = map length (lists m)"
  shows "cursor m' it (L @ [e']) R"
  using cursor_shape [OF assms(3,2)] cursor_flat [OF assms(1)] by simp

end
