(* ===== verification/Extmap_Edit.thy ===== *)
theory Extmap_Edit
  imports Extmap_Cursor
begin

text \<open>
  Insertion and removal of an extent at an iterator: on the flat sequence they insert or remove at
  the cursor, and the splitting and joining of the lists keeps the structural invariant.
\<close>

section \<open>Insertion and removal\<close>

text \<open>
  A map whose list \<open>l\<close> may have grown past the limit of the invariant: what \<^verbatim>\<open>_expand\<close> finds
  after an insertion or after two lists were joined.
\<close>

definition swollen :: "'p tmpl \<Rightarrow> 'p extmap \<Rightarrow> 'p extent list list \<Rightarrow> 'p extent list \<Rightarrow> 'p extent list list \<Rightarrow> bool" where
  "swollen T m A l B \<longleftrightarrow>
     lists m = A @ l # B \<and> maxes m = last_limits (lists m) \<and> count m = int (length (flat m))
     \<and> (\<forall>x\<in>set A \<union> set B. x \<noteq> [] \<and> load T div 2 < length x \<and> length x < 2 * load T)
     \<and> l \<noteq> [] \<and> length l < 3 * load T \<and> (A @ B \<noteq> [] \<longrightarrow> load T div 2 < length l)"

lemma expand_eq:
  assumes "lists m = A @ l # B" "maxes m = last_limits (lists m)"
  shows "expand T m (length A, j) =
    (if load T * 2 \<le> length l
     then (m\<lparr>lists := A @ take (load T) l # drop (load T) l # B,
             maxes := last_limits (A @ take (load T) l # drop (load T) l # B)\<rparr>,
           if load T \<le> j then (Suc (length A), j - load T) else (length A, j))
     else (m, (length A, j)))"
  using assms by (simp add: expand_def slice_def vec_insert_def list_update_append)

lemma swollen_small:
  "swollen T m A l B \<Longrightarrow> \<not> load T * 2 \<le> length l \<Longrightarrow> struct_inv T m"
  by (auto simp: swollen_def struct_inv_def balanced_def split: if_splits)

lemma swollen_split:
  assumes "swollen T m A l B" "2 \<le> load T" "load T * 2 \<le> length l"
    "lists m' = A @ take (load T) l # drop (load T) l # B" "maxes m' = last_limits (lists m')"
    "count m' = count m"
  shows "struct_inv T m'"
proof -
  have "length (flat m') = length (flat m)"
    using assms(1,4) by (simp add: flat_def swollen_def)
  moreover have "balanced (load T) (lists m')"
    unfolding assms(4) using assms(1,2,3) by (auto simp: balanced_def swollen_def)
  ultimately show ?thesis
    using assms(1,5,6) by (simp add: struct_inv_def swollen_def)
qed

lemma expand_spec:
  assumes "swollen T m A l B" "2 \<le> load T" "j \<le> length l" "expand T m (length A, j) = (m', it')"
  obtains A' u v B' where "struct_inv T m'" "lists m' = A' @ (u @ v) # B'" "it' = (length A', length u)"
    "concat A' @ u = concat A @ take j l" "v @ concat B' = drop j l @ concat B"
    "v = [] \<Longrightarrow> j = length l"
proof -
  have a: "lists m = A @ l # B" "maxes m = last_limits (lists m)"
    using assms(1) by (simp_all add: swollen_def)
  let ?n = "load T"
  show thesis
  proof (cases "?n * 2 \<le> length l")
    case False
    then have "m' = m" "it' = (length A, j)"
      using assms(4) expand_eq [OF a, of T j] by auto
    then show thesis
      by (intro that [of A "take j l" "drop j l" B])
        (use swollen_small [OF assms(1) False] a(1) assms(3) in simp_all)
  next
    case True
    note e = expand_eq [OF a, of T j, unfolded assms(4)]
    then have m': "m' = m\<lparr>lists := A @ take ?n l # drop ?n l # B,
        maxes := last_limits (A @ take ?n l # drop ?n l # B)\<rparr>" using True by simp
    have l: "lists m' = A @ take ?n l # drop ?n l # B" "maxes m' = last_limits (lists m')"
      "count m' = count m"
      by (simp_all add: m')
    note si = swollen_split [OF assms(1,2) True l]
    show thesis
    proof (cases "?n \<le> j")
      case le: True
      show thesis
      proof (rule that [of "A @ [take ?n l]" "drop ?n (take j l)" "drop j l" B])
        show "struct_inv T m'" by (rule si)
        show "lists m' = (A @ [take ?n l]) @ (drop ?n (take j l) @ drop j l) # B"
          using le by (simp add: l drop_take_drop)
        show "it' = (length (A @ [take ?n l]), length (drop ?n (take j l)))"
          using e True le assms(3) by simp
        show "concat (A @ [take ?n l]) @ drop ?n (take j l) = concat A @ take j l"
          using le by (simp add: take_drop_take)
        show "drop j l = [] \<Longrightarrow> j = length l" using assms(3) by simp
      qed simp
    next
      case lt: False
      show thesis
      proof (rule that [of A "take j l" "drop j (take ?n l)" "drop ?n l # B"])
        show "struct_inv T m'" by (rule si)
        show "lists m' = A @ (take j l @ drop j (take ?n l)) # drop ?n l # B"
          using lt by (simp add: l take_drop_take)
        show "it' = (length A, length (take j l))" using e True lt assms(3) by simp
        show "drop j (take ?n l) @ concat (drop ?n l # B) = drop j l @ concat B"
          using drop_take_drop [of j ?n l] lt by simp
        show "drop j (take ?n l) = [] \<Longrightarrow> j = length l" using lt True assms(2) by simp
      qed simp
    qed
  qed
qed

lemma struct_inv_others:
  assumes "struct_inv T m" "lists m = A @ l # B"
  shows "\<forall>x\<in>set A \<union> set B. x \<noteq> [] \<and> load T div 2 < length x \<and> length x < 2 * load T"
    "length l < 2 * load T" "A @ B \<noteq> [] \<longrightarrow> load T div 2 < length l"
proof -
  have b: "balanced (load T) (A @ l # B)" using assms by (simp add: struct_inv_def)
  show "length l < 2 * load T" using b by (simp add: balanced_def)
  show "A @ B \<noteq> [] \<longrightarrow> load T div 2 < length l" using b by (cases A) (auto simp: balanced_def)
  show "\<forall>x\<in>set A \<union> set B. x \<noteq> [] \<and> load T div 2 < length x \<and> length x < 2 * load T"
  proof
    fix x assume "x \<in> set A \<union> set B"
    moreover from this have "1 < length (A @ l # B)" by (cases A; cases B) auto
    ultimately show "x \<noteq> [] \<and> load T div 2 < length x \<and> length x < 2 * load T"
      using b by (auto simp: balanced_def)
  qed
qed

lemma cursor_insert:
  assumes "struct_inv T m" "2 \<le> load T" "cursor m it L R" "insert_at T m it e = (m', it')"
  shows "struct_inv T m' \<and> cursor m' it' L (e # R)"
proof (cases "L @ R = []")
  case True
  with cursor_Nil [OF assms(1,3)] have "lists m = []" "flat m = []" "maxes m = []"
    using assms(1) by (auto simp: flat_def struct_inv_def)
  moreover from this have "count m = 0" using assms(1) by (simp add: struct_inv_def)
  ultimately have "m' = first m e" "it' = (0, 0)" "lists m' = [[e]]" "maxes m' = [limit e]" "count m' = 1"
    using assms(4) by (auto simp: insert_at_def begin_it_def first_def)
  moreover from this have "cursor m' (0, 0) [] [e]"
    by (intro cursorI [of m' "[]" "[]" "[e]" "[]"]) simp_all
  ultimately show ?thesis
    using True assms(2) by (simp add: struct_inv_def balanced_def flat_def)
next
  case False
  from cursorE [OF assms(3) False] obtain A u v B where
    a: "lists m = A @ (u @ v) # B" "it = (length A, length u)"
      "L = concat A @ u" "R = v @ concat B" "v = [] \<longrightarrow> B = []" .
  let ?l = "u @ e # v"
  let ?m1 = "m\<lparr>lists := A @ ?l # B\<rparr>"
  let ?m2 = "(fix_max (length A) ?m1)\<lparr>count := count m + 1\<rparr>"
  have "count m \<noteq> 0" using False cursor_flat [OF assms(3)] assms(1) by (simp add: struct_inv_count0)
  then have ex: "expand T ?m2 (length A, length u) = (m', it')"
    using assms(4) a by (simp add: insert_at_def Let_def)
  have "maxes (fix_max (length A) ?m1) = last_limits (lists ?m1)"
    by (rule fix_max_maxes [where x = "limit (last (u @ v))"])
      (use assms(1) a(1) in \<open>simp_all add: struct_inv_def\<close>)
  then have sw: "swollen T ?m2 A ?l B"
    using struct_inv_others [OF assms(1) a(1)] assms(1,2) a(1)
    by (auto simp: swollen_def struct_inv_def flat_def less_SucI)
  obtain A' u' v' B' where b: "struct_inv T m'" "lists m' = A' @ (u' @ v') # B'"
    "it' = (length A', length u')" "concat A' @ u' = concat A @ take (length u) ?l"
    "v' @ concat B' = drop (length u) ?l @ concat B" "v' = [] \<Longrightarrow> length u = length ?l"
    by (rule expand_spec [OF sw assms(2) _ ex]) auto
  then have "v' \<noteq> []" by auto
  then have "cursor m' it' (concat A' @ u') (v' @ concat B')"
    using b(2,3) by (intro cursorI) auto
  then show ?thesis using b a(3,4) by simp
qed

lemma settle_cursor:
  assumes "struct_inv T m" "lists m = A @ (u @ v) # B"
  shows "cursor m (settle m (length A, length u)) (concat A @ u) (v @ concat B)"
proof (cases "v = [] \<and> B \<noteq> []")
  case True
  then obtain l B' where B: "B = l # B'" by (cases B) auto
  then have "l \<noteq> []" using struct_inv_lists [OF assms] by auto
  then show ?thesis
    using True B assms(2)
    by (auto simp: settle_def intro!: cursorI [of _ "A @ [u]" "[]" l B'])
next
  case False
  then show ?thesis
    using assms(2) by (auto simp: settle_def intro!: cursorI [of _ A u v B])
qed

lemma join_lists_spec:
  assumes "lists m = A @ (u @ v) # B" "A @ B \<noteq> []" "u @ v \<noteq> []" "length (u @ v) \<le> load T div 2"
    "maxes m = last_limits (lists m)" "count m = int (length (flat m))" "2 \<le> load T"
    "\<forall>x\<in>set A \<union> set B. x \<noteq> [] \<and> load T div 2 < length x \<and> length x < 2 * load T"
    "join_lists T m (length A, length u) = (m', it')"
  shows "struct_inv T m' \<and> cursor m' (settle m' it') (concat A @ u) (v @ concat B)"
proof -
  obtain A0 l B0 m3 k where j: "swollen T m3 A0 l B0"
    "expand T m3 (length A0, k) = (m', it')"
    "concat A @ u = concat A0 @ take (k) l"
    "v @ concat B = drop (k) l @ concat B0"
    "k \<le> length l"
  proof (cases A rule: rev_cases)
    case Nil
    then obtain p B' where B: "B = p # B'" using assms(2) by (cases B) auto
    let ?m1 = "m\<lparr>lists := (u @ v @ p) # B\<rparr>"
    let ?m3 = "(fix_max 0 ?m1)\<lparr>lists := (u @ v @ p) # B', maxes := vec_erase 1 (maxes (fix_max 0 ?m1))\<rparr>"
    have e: "expand T ?m3 (0, length u) = (m', it')"
      using assms(1,9) Nil B by (simp add: join_lists_def Let_def vec_erase_def)
    have mx: "maxes (fix_max 0 ?m1) = last_limits (lists ?m1)"
      using assms(1,5) Nil B fix_max_maxes [of ?m1 "[]" "u @ v @ p" B] by simp
    have "swollen T ?m3 [] (u @ v @ p) B'"
      unfolding swollen_def
      using assms(1,3,4,5,6,8) Nil B mx by (auto simp: flat_def vec_erase_def)
    then show thesis using that [of ?m3 "[]" "u @ v @ p" B' "length u"] e Nil B by simp
  next
    case (snoc A' p)
    let ?m1 = "m\<lparr>lists := A' @ (p @ u @ v) # (u @ v) # B\<rparr>"
    let ?m2 = "fix_max (length A') ?m1"
    let ?m3 = "?m2\<lparr>lists := A' @ (p @ u @ v) # B, maxes := vec_erase (Suc (length A')) (maxes ?m2)\<rparr>"
    have e: "expand T ?m3 (length A', length u + length p) = (m', it')"
      using assms(1,9) snoc
      by (simp add: join_lists_def Let_def vec_erase_def nth_append list_update_append)
    have mx: "maxes ?m2 = last_limits (lists ?m1)"
      using fix_max_maxes [of ?m1 A' "p @ u @ v" "(u @ v) # B" "limit (last p)"] assms(1,5) snoc by simp
    have "swollen T ?m3 A' (p @ u @ v) B"
      unfolding swollen_def
      using assms(1,3,4,5,6,8) snoc mx by (auto simp: flat_def vec_erase_def)
    then show thesis using that [of ?m3 A' "p @ u @ v" B "length u + length p"] e snoc by (simp add: add.commute)
  qed
  obtain A' u' v' B' where b: "struct_inv T m'" "lists m' = A' @ (u' @ v') # B'"
    "it' = (length A', length u')"
    "concat A' @ u' = concat A0 @ take (k) l"
    "v' @ concat B' = drop (k) l @ concat B0"
    by (rule expand_spec [OF j(1) assms(7) j(5) j(2)])
  then show ?thesis
    using settle_cursor [OF b(1,2)] unfolding j(3,4) b(3,4,5) by simp
qed

lemma cursor_erase:
  assumes "struct_inv T m" "2 \<le> load T" "cursor m it L (e # R)" "erase_at T m it = (m', it')"
  shows "struct_inv T m' \<and> cursor m' it' L R"
proof -
  from cursor_ConsE [OF assms(3)] obtain A u v B where
    a: "lists m = A @ (u @ e # v) # B" "it = (length A, length u)" "L = concat A @ u" "R = v @ concat B" .
  note o = struct_inv_others [OF assms(1) a(1)]
  let ?m1 = "m\<lparr>lists := A @ (u @ v) # B\<rparr>"
  let ?m3 = "(fix_max (length A) ?m1)\<lparr>count := count m - 1\<rparr>"
  have cnt: "count m - 1 = int (length (concat (A @ (u @ v) # B)))"
    using assms(1) a(1) by (simp add: struct_inv_def flat_def)
  show ?thesis
  proof (cases "u @ v = []")
    case True
    then have AB: "A = []" "B = []" using o(3) assms(2) by auto
    then have "m' = m\<lparr>lists := [], maxes := [], count := 0\<rparr>" "it' = (0, 0)"
      using assms(1,4) a True
      by (auto simp: erase_at_def Let_def vec_erase_def end_it_def struct_inv_def flat_def)
    then show ?thesis using a AB True
      by (simp add: struct_inv_def balanced_def flat_def cursor_def)
  next
    case False
    have mx: "maxes ?m3 = last_limits (lists ?m3)"
      using fix_max_maxes [of ?m1 A "u @ v" B "limit (last (u @ e # v))"] assms(1) a(1)
      by (simp add: struct_inv_def)
    show ?thesis
    proof (cases "load T div 2 < length (u @ v) \<or> A @ B = []")
      case True
      have bal: "balanced (load T) (A @ (u @ v) # B)"
        using o True False by (auto simp: balanced_def)
      then have si: "struct_inv T ?m3" using mx cnt by (simp add: struct_inv_def flat_def)
      moreover have "fix_max (length A) ?m3 = ?m3" by (simp add: fix_max_def)
      ultimately have "m' = ?m3" "it' = settle ?m3 (length A, length u)"
        using assms(4) a True False by (auto simp: erase_at_def Let_def split: if_splits)
      then show ?thesis using settle_cursor [OF si, of A u v B] si a(3,4) by simp
    next
      case short: False
      then have len: "length A + length B > 0" by auto
      obtain m4 it4 where jl: "join_lists T ?m3 (length A, length u) = (m4, it4)" by (metis surj_pair)
      then have "m' = m4" "it' = settle m4 it4"
        using assms(4) a short False len by (auto simp: erase_at_def Let_def)
      moreover have "struct_inv T m4 \<and> cursor m4 (settle m4 it4) (concat A @ u) (v @ concat B)"
        by (rule join_lists_spec [OF _ _ False _ mx _ assms(2) o(1) jl])
          (use short cnt in \<open>simp_all add: flat_def\<close>)
      ultimately show ?thesis using a(3,4) by simp
    qed
  qed
qed

end
