(* ===== verification/Extent_Space.thy ===== *)
theory Extent_Space
  imports Extent
begin

text \<open>
  What a sequence of extents means: the partial function from addresses to pointers that it
  represents (\<open>seq_get\<close>). The locale \<open>extent_space\<close> is the contract between the map and
  the pointers stored in it: which ranges of pointers occur, that they can be cut and joined, and
  that on them no bit-field store loses bits. It is interpreted for the object map and for the
  buffer map at the end of the theory.
\<close>

section \<open>The meaning of a sequence of extents\<close>

definition ext_get :: "'p tmpl \<Rightarrow> 'p extent \<Rightarrow> int \<Rightarrow> 'p option" where
  "ext_get T e x =
     (if s_base e \<le> x \<and> x < limit e then Some (ptr_plus T (s_ptr e) (x - s_base e)) else None)"

fun seq_get :: "'p tmpl \<Rightarrow> 'p extent list \<Rightarrow> int \<Rightarrow> 'p option" where
  "seq_get T [] x = None"
| "seq_get T (e # es) x = (case ext_get T e x of Some p \<Rightarrow> Some p | None \<Rightarrow> seq_get T es x)"

definition ext_ok :: "int \<Rightarrow> ('p \<Rightarrow> int \<Rightarrow> bool) \<Rightarrow> 'p extent \<Rightarrow> bool" where
  "ext_ok amax pok e \<longleftrightarrow> 0 \<le> s_base e \<and> limit e \<le> amax \<and> 0 < s_len e \<and> pok (s_ptr e) (s_len e)"

definition ordered :: "'p extent list \<Rightarrow> bool" where
  "ordered es \<longleftrightarrow> sorted_wrt (\<lambda>e f. limit e \<le> s_base f) es"

definition extents_ok :: "int \<Rightarrow> ('p \<Rightarrow> int \<Rightarrow> bool) \<Rightarrow> 'p extent list \<Rightarrow> bool" where
  "extents_ok amax pok es \<longleftrightarrow> ordered es \<and> (\<forall>e\<in>set es. ext_ok amax pok e)"

definition map_upd :: "'p tmpl \<Rightarrow> (int \<Rightarrow> 'p option) \<Rightarrow> int \<Rightarrow> int \<Rightarrow> 'p \<Rightarrow> int \<Rightarrow> 'p option" where
  "map_upd T f b l p x = (if b \<le> x \<and> x < l then Some (ptr_plus T p (x - b)) else f x)"

definition map_cut :: "(int \<Rightarrow> 'p option) \<Rightarrow> int \<Rightarrow> int \<Rightarrow> int \<Rightarrow> 'p option" where
  "map_cut f b l x = (if b \<le> x \<and> x < l then None else f x)"

definition map_slice :: "(int \<Rightarrow> 'p option) \<Rightarrow> int \<Rightarrow> int \<Rightarrow> int \<Rightarrow> 'p option" where
  "map_slice f b l x = (if b \<le> x \<and> x < l then f x else None)"

lemma seq_get_append:
  "seq_get T (xs @ ys) x = (case seq_get T xs x of Some p \<Rightarrow> Some p | None \<Rightarrow> seq_get T ys x)"
  by (induction xs) (auto split: option.splits)

lemma seq_get_replace:
  "seq_get T xs = seq_get T xs' \<Longrightarrow> seq_get T (L @ xs @ R) = seq_get T (L @ xs' @ R)"
  by (simp add: fun_eq_iff seq_get_append split: option.split)

lemma seq_get_None: "(\<And>e. e \<in> set es \<Longrightarrow> x < s_base e \<or> limit e \<le> x) \<Longrightarrow> seq_get T es x = None"
  by (induction es) (fastforce simp: ext_get_def split: option.splits)+

lemma seq_get_SomeD:
  "seq_get T es x = Some p \<Longrightarrow> \<exists>e\<in>set es. s_base e \<le> x \<and> x < limit e \<and> p = ptr_plus T (s_ptr e) (x - s_base e)"
  by (induction es) (auto simp: ext_get_def split: option.splits if_splits)

lemma ordered_simps [simp]:
  "ordered []"
  "ordered (e # es) \<longleftrightarrow> (\<forall>f\<in>set es. limit e \<le> s_base f) \<and> ordered es"
  "ordered (xs @ ys) \<longleftrightarrow> ordered xs \<and> ordered ys \<and> (\<forall>e\<in>set xs. \<forall>f\<in>set ys. limit e \<le> s_base f)"
  by (auto simp: ordered_def sorted_wrt_append)

lemma extents_ok_simps [simp]:
  "extents_ok amax pok []"
  "extents_ok amax pok (e # es) \<longleftrightarrow>
     ext_ok amax pok e \<and> (\<forall>f\<in>set es. limit e \<le> s_base f) \<and> extents_ok amax pok es"
  "extents_ok amax pok (xs @ ys) \<longleftrightarrow>
     extents_ok amax pok xs \<and> extents_ok amax pok ys \<and> (\<forall>e\<in>set xs. \<forall>f\<in>set ys. limit e \<le> s_base f)"
  by (auto simp: extents_ok_def)

lemma extents_ok_mem: "extents_ok amax pok es \<Longrightarrow> e \<in> set es \<Longrightarrow> ext_ok amax pok e"
  by (simp add: extents_ok_def)

lemma ext_ok_limit: "ext_ok amax pok e \<Longrightarrow> s_base e < limit e"
  by (simp add: ext_ok_def limit_def)

lemma seq_get_first:
  "s_base e \<le> x \<Longrightarrow> x < limit e \<Longrightarrow> seq_get T (e # es) x = Some (ptr_plus T (s_ptr e) (x - s_base e))"
  by (simp add: ext_get_def)

text \<open>In an ordered sequence the extent that covers an address decides.\<close>

lemma seq_get_mem:
  assumes "extents_ok amax pok es" "e \<in> set es" "s_base e \<le> x" "x < limit e"
  shows "seq_get T es x = Some (ptr_plus T (s_ptr e) (x - s_base e))"
proof -
  from split_list [OF assms(2)] obtain L R where es: "es = L @ e # R" by blast
  have "seq_get T L x = None"
    by (rule seq_get_None) (use assms es in auto)
  then show ?thesis using assms(3,4) es by (simp add: seq_get_append ext_get_def)
qed

section \<open>The contract of a pointer space\<close>

locale extent_space =
  fixes T :: "'p tmpl" and amax :: int and pok :: "'p \<Rightarrow> int \<Rightarrow> bool"
  assumes load2: "2 \<le> load T"
    and set_base_id: "0 \<le> b \<Longrightarrow> b < amax \<Longrightarrow> set_base T b = b"
    and set_len_id: "pok p n \<Longrightarrow> set_len T n = n"
    and pok_split: "pok p n \<Longrightarrow> 0 < k \<Longrightarrow> k < n \<Longrightarrow> pok p k \<and> pok (ptr_plus T p k) (n - k)"
    and pok_join: "pok p n \<Longrightarrow> pok (ptr_plus T p n) k \<Longrightarrow> 0 < n \<Longrightarrow> 0 < k \<Longrightarrow> pok p (n + k)"
    and plus_plus: "pok p n \<Longrightarrow> 0 \<le> i \<Longrightarrow> 0 \<le> j \<Longrightarrow> i + j \<le> n \<Longrightarrow>
          ptr_plus T (ptr_plus T p i) j = ptr_plus T p (i + j)"
    and plus_back: "pok p n \<Longrightarrow> ptr_plus T (ptr_plus T p n) (- n) = p"
begin

text \<open>Two neighbouring extents and the one that covers both have the same meaning.\<close>

lemma seq_get_glue:
  assumes "s_base e = s_base a" "s_ptr e = s_ptr a" "s_len e = s_len a + s_len c"
    "s_base c = limit a" "s_ptr c = ptr_plus T (s_ptr a) (s_len a)"
    "pok (s_ptr e) (s_len e)" "0 < s_len a" "0 < s_len c"
  shows "seq_get T [a, c] = seq_get T [e]"
proof
  fix x
  have "ptr_plus T (ptr_plus T (s_ptr a) (s_len a)) (x - s_base c) = ptr_plus T (s_ptr a) (x - s_base a)"
    if "limit a \<le> x" "x < limit e"
    using plus_plus [OF assms(6), of "s_len a" "x - s_base c"] that assms by (simp add: limit_def)
  then show "seq_get T [a, c] x = seq_get T [e] x"
    using assms by (auto simp: ext_get_def limit_def)
qed

lemma new_extent_ok:
  assumes "0 \<le> b" "0 < n" "b + n \<le> amax" "pok p n"
  shows "s_base (new_extent T b n p) = b" "s_len (new_extent T b n p) = n"
    "s_ptr (new_extent T b n p) = p" "limit (new_extent T b n p) = b + n"
    "ext_ok amax pok (new_extent T b n p)"
  using assms by (simp_all add: new_extent_def limit_def ext_ok_def set_base_id set_len_id [OF assms(4)])

lemma relimit_ok:
  assumes "ext_ok amax pok e" "s_base e < l" "l \<le> amax" "pok (s_ptr e) (l - s_base e)"
  shows "s_base (relimit T l e) = s_base e" "s_len (relimit T l e) = l - s_base e"
    "s_ptr (relimit T l e) = s_ptr e" "limit (relimit T l e) = l" "ext_ok amax pok (relimit T l e)"
  using assms by (simp_all add: relimit_def limit_def ext_ok_def set_len_id [OF assms(4)])

lemma rebase_up_ok:
  assumes "ext_ok amax pok e" "s_base e < b" "b < limit e"
  shows "s_base (rebase T b e) = b" "s_len (rebase T b e) = limit e - b"
    "s_ptr (rebase T b e) = ptr_plus T (s_ptr e) (b - s_base e)" "limit (rebase T b e) = limit e"
    "ext_ok amax pok (rebase T b e)"
proof -
  have d: "s_len e - (b - s_base e) = limit e - b" by (simp add: limit_def)
  have p: "pok (ptr_plus T (s_ptr e) (b - s_base e)) (limit e - b)"
    using pok_split [of "s_ptr e" "s_len e" "b - s_base e"] assms
    by (simp add: ext_ok_def limit_def algebra_simps)
  have "set_len T (limit e - b) = limit e - b" by (rule set_len_id [OF p])
  moreover have "set_base T b = b" using assms by (simp add: set_base_id ext_ok_def limit_def)
  ultimately show "s_base (rebase T b e) = b" "s_len (rebase T b e) = limit e - b"
    "s_ptr (rebase T b e) = ptr_plus T (s_ptr e) (b - s_base e)" "limit (rebase T b e) = limit e"
    "ext_ok amax pok (rebase T b e)"
    using assms p by (simp_all add: rebase_def Let_def d ext_ok_def)
      (simp_all add: limit_def)
qed

text \<open>Cutting an extent in two at an address inside it.\<close>

lemma cut_ext:
  assumes "ext_ok amax pok e" "s_base e < c" "c < limit e"
  shows "pok (s_ptr e) (c - s_base e)" "pok (ptr_plus T (s_ptr e) (c - s_base e)) (limit e - c)"
  using pok_split [of "s_ptr e" "s_len e" "c - s_base e"] assms
  by (simp_all add: ext_ok_def limit_def algebra_simps)

lemma seq_get_cut:
  assumes "ext_ok amax pok e" "s_base e < c" "c < limit e"
    "s_base a = s_base e" "limit a = c" "s_ptr a = s_ptr e"
    "s_base d = c" "limit d = limit e" "s_ptr d = ptr_plus T (s_ptr e) (c - s_base e)"
  shows "seq_get T [a, d] = seq_get T [e]"
  by (rule seq_get_glue) (use assms in \<open>auto simp: limit_def ext_ok_def\<close>)

text \<open>Joining two adjacent extents.\<close>

lemma adjacent_join:
  assumes "adjacent T a c" "ext_ok amax pok a" "ext_ok amax pok c"
  shows "limit a = s_base c" "s_ptr c = ptr_plus T (s_ptr a) (s_len a)"
    "pok (s_ptr a) (limit c - s_base a)" "pok (s_ptr a) (s_len a + s_len c)"
proof -
  show 1: "limit a = s_base c" and 2: "s_ptr c = ptr_plus T (s_ptr a) (s_len a)"
    using assms(1) by (simp_all add: adjacent_def limit_def)
  show 3: "pok (s_ptr a) (s_len a + s_len c)"
    by (rule pok_join) (use assms 2 in \<open>simp_all add: ext_ok_def\<close>)
  moreover have "limit c - s_base a = s_len a + s_len c" using 1 by (simp add: limit_def)
  ultimately show "pok (s_ptr a) (limit c - s_base a)" by simp
qed

lemma relimit_join:
  assumes "adjacent T a c" "ext_ok amax pok a" "ext_ok amax pok c"
  shows "seq_get T [relimit T (limit c) a] = seq_get T [a, c]"
    "ext_ok amax pok (relimit T (limit c) a)" "limit (relimit T (limit c) a) = limit c"
    "s_base (relimit T (limit c) a) = s_base a"
proof -
  note j = adjacent_join [OF assms]
  have "s_base a < limit c" "limit c \<le> amax"
    using assms(2,3) j(1) by (simp_all add: ext_ok_def limit_def)
  note r = relimit_ok [OF assms(2) this j(3)]
  show "seq_get T [relimit T (limit c) a] = seq_get T [a, c]"
    by (rule seq_get_glue [symmetric]) (use r j assms in \<open>auto simp: ext_ok_def limit_def\<close>)
  show "ext_ok amax pok (relimit T (limit c) a)" "limit (relimit T (limit c) a) = limit c"
    "s_base (relimit T (limit c) a) = s_base a"
    using r by simp_all
qed

lemma rebase_join:
  assumes "adjacent T a c" "ext_ok amax pok a" "ext_ok amax pok c"
  shows "seq_get T [rebase T (s_base a) c] = seq_get T [a, c]"
    "ext_ok amax pok (rebase T (s_base a) c)" "limit (rebase T (s_base a) c) = limit c"
    "s_base (rebase T (s_base a) c) = s_base a"
proof -
  note j = adjacent_join [OF assms]
  have d: "s_base a - s_base c = - s_len a" using j(1) by (simp add: limit_def)
  have p: "ptr_plus T (s_ptr c) (- s_len a) = s_ptr a"
    using j(2) plus_back [of "s_ptr a" "s_len a"] assms(2) by (simp add: ext_ok_def)
  have "limit c - s_base a = s_len c + s_len a" using j(1) by (simp add: limit_def)
  then have l: "set_len T (s_len c + s_len a) = s_len c + s_len a"
    using set_len_id [OF j(3)] by simp
  have b: "set_base T (s_base a) = s_base a"
    using assms(2) by (simp add: set_base_id ext_ok_def limit_def)
  have r: "s_base (rebase T (s_base a) c) = s_base a" "s_ptr (rebase T (s_base a) c) = s_ptr a"
    "s_len (rebase T (s_base a) c) = s_len a + s_len c"
    using p l b by (simp_all add: rebase_def Let_def d)
  show "seq_get T [rebase T (s_base a) c] = seq_get T [a, c]"
    by (rule seq_get_glue [symmetric])
      (use r j(1,2,4) assms in \<open>auto simp: ext_ok_def limit_def\<close>)
  show "s_base (rebase T (s_base a) c) = s_base a" by (rule r)
  show "limit (rebase T (s_base a) c) = limit c" using r j(1) by (simp add: limit_def)
  then show "ext_ok amax pok (rebase T (s_base a) c)"
    using r j(1,4) assms(2,3) by (auto simp: ext_ok_def limit_def)
qed

end

section \<open>The object map and the buffer map\<close>

text \<open>
  Object ranges: an offset range that lies in an object of at most \<open>2 ^ 23 - 1\<close> sectors
  (4 GiB, the range of the signed 24-bit length field).
\<close>

definition obj_amax :: int where
  "obj_amax = 2 ^ 37"

definition buf_amax :: int where
  "buf_amax = 2 ^ 38"

definition obj_pok :: "obj_offset \<Rightarrow> int \<Rightarrow> bool" where
  "obj_pok p n \<longleftrightarrow> 0 \<le> offset p \<and> 0 < n \<and> offset p + n < 2 ^ 23"

lemma obj_offset_plus_in:
  "0 \<le> offset p + v \<Longrightarrow> offset p + v < 2 ^ 27 \<Longrightarrow> \<bar>v\<bar> < 2 ^ 31 \<Longrightarrow>
   obj_offset_plus p v = Obj_offset (obj p) (offset p + v)"
  by (simp add: obj_offset_plus_def sbf_id)

interpretation om: extent_space lba2obj obj_amax obj_pok
proof unfold_locales
  fix p :: obj_offset and n i j :: int
  assume "obj_pok p n" "0 \<le> i" "0 \<le> j" "i + j \<le> n"
  then show "ptr_plus lba2obj (ptr_plus lba2obj p i) j = ptr_plus lba2obj p (i + j)"
    by (simp add: lba2obj_def obj_pok_def obj_offset_plus_in add.assoc)
qed (auto simp: obj_amax_def lba2obj_def obj_pok_def obj_offset_plus_in sbf_id)

text \<open>
  Buffer ranges: all data buffers that are alive at once, each a start address and a length in
  sectors; two of them never touch, since each is preceded by the room for its header.
\<close>

definition separate :: "(int \<times> int) set \<Rightarrow> bool" where
  "separate bufs \<longleftrightarrow>
     (\<forall>(s, n)\<in>bufs. 0 \<le> n \<and> n < 2 ^ 24)
     \<and> (\<forall>(s, n)\<in>bufs. \<forall>(s', n')\<in>bufs. (s, n) = (s', n') \<or> s + 512 * n < s' \<or> s' + 512 * n' < s)"

definition buf_pok :: "(int \<times> int) set \<Rightarrow> sector_ptr \<Rightarrow> int \<Rightarrow> bool" where
  "buf_pok bufs p n \<longleftrightarrow> separate bufs \<and> 0 < n \<and> (\<exists>(s, k)\<in>bufs. s \<le> buf p \<and> buf p + 512 * n \<le> s + 512 * k)"

lemma sector_ptr_plus_in: "\<bar>v\<bar> < 2 ^ 31 \<Longrightarrow> sector_ptr_plus p v = Sector_ptr (buf p + v * 512)"
  by (simp add: sector_ptr_plus_def sbf_id)

lemma buf_pok_len: "buf_pok bufs p n \<Longrightarrow> 0 < n \<and> n < 2 ^ 24"
  by (fastforce simp: separate_def buf_pok_def)

interpretation bm: extent_space lba2buf buf_amax "buf_pok bufs" for bufs
proof unfold_locales
  note len = buf_pok_len
  fix p :: sector_ptr and n k i j :: int
  show "set_len lba2buf n = n" if "buf_pok bufs p n"
    using len [OF that] by (simp add: lba2buf_def ubf_id)
  show "buf_pok bufs p k \<and> buf_pok bufs (ptr_plus lba2buf p k) (n - k)"
    if pn: "buf_pok bufs p n" and "0 < k" "k < n"
  proof -
    have "separate bufs" using pn by (simp add: buf_pok_def)
    moreover obtain s m where "(s, m) \<in> bufs" "s \<le> buf p" "buf p + 512 * n \<le> s + 512 * m"
      using pn by (auto simp: buf_pok_def)
    ultimately show ?thesis
      using that len [OF pn]
      by (auto simp: buf_pok_def lba2buf_def sector_ptr_plus_in intro!: bexI [of _ "(s, m)"])
  qed
  show "ptr_plus lba2buf (ptr_plus lba2buf p i) j = ptr_plus lba2buf p (i + j)"
    if "buf_pok bufs p n" "0 \<le> i" "0 \<le> j" "i + j \<le> n"
    using that len [OF that(1)] by (simp add: lba2buf_def sector_ptr_plus_in algebra_simps)
  show "ptr_plus lba2buf (ptr_plus lba2buf p n) (- n) = p" if "buf_pok bufs p n"
    using len [OF that] by (simp add: lba2buf_def sector_ptr_plus_in)
  show "buf_pok bufs p (n + k)"
    if pn: "buf_pok bufs p n" and pk: "buf_pok bufs (ptr_plus lba2buf p n) k"
  proof -
    obtain s m where 1: "(s, m) \<in> bufs" "s \<le> buf p" "buf p + 512 * n \<le> s + 512 * m"
      using pn by (auto simp: buf_pok_def)
    obtain s' m' where 2: "(s', m') \<in> bufs" "s' \<le> buf p + 512 * n"
        "buf p + 512 * n + 512 * k \<le> s' + 512 * m'"
      using pk len [OF pn] by (auto simp: buf_pok_def lba2buf_def sector_ptr_plus_in)
    have "0 < n" "0 < k" "separate bufs" using pn len [OF pn] len [OF pk] by (simp_all add: buf_pok_def)
    then have "(s, m) = (s', m')"
      using 1 2 unfolding separate_def by fastforce
    then show ?thesis using 1 2 \<open>0 < n\<close> \<open>0 < k\<close> \<open>separate bufs\<close> by (force simp: buf_pok_def)
  qed
qed (simp_all add: buf_amax_def lba2buf_def ubf_id)

end
