(* ===== verification/Extmap_Update.thy ===== *)
theory Extmap_Update
  imports Extmap_Edit Extent_Space
begin

text \<open>
  Correctness of search, update and trim of the extent map against the partial function it
  represents. The proof follows the code: the iterator cuts the flat sequence in what is kept
  before the range, what the loop has discarded so far and what is still ahead; every phase moves
  an extent, or a piece of one, between these parts without changing their joint meaning.
\<close>

section \<open>The map's invariant and its meaning\<close>

definition map_ok :: "'p tmpl \<Rightarrow> int \<Rightarrow> ('p \<Rightarrow> int \<Rightarrow> bool) \<Rightarrow> 'p extmap \<Rightarrow> bool" where
  "map_ok T amax pok m \<longleftrightarrow> struct_inv T m \<and> extents_ok amax pok (flat m)"

definition lookup_fun :: "'p tmpl \<Rightarrow> 'p extmap \<Rightarrow> int \<Rightarrow> 'p option" where
  "lookup_fun T m = seq_get T (flat m)"

lemma map_ok_empty: "map_ok T amax pok extmap_empty"
  by (simp add: map_ok_def struct_inv_empty) (simp add: flat_def extmap_empty_def)

lemma lookup_fun_empty: "lookup_fun T extmap_empty x = None"
  by (simp add: lookup_fun_def flat_def extmap_empty_def)

section \<open>Search\<close>

lemma takeWhile_append_stop:
  "(\<And>x. x \<in> set xs \<Longrightarrow> P x) \<Longrightarrow> (ys = [] \<or> \<not> P (hd ys)) \<Longrightarrow>
   takeWhile P (xs @ ys) = xs \<and> dropWhile P (xs @ ys) = ys"
  by (cases ys) (auto simp: takeWhile_append2 dropWhile_append2)

text \<open>The two binary searches of \<^verbatim>\<open>lower_bound\<close> on \<^verbatim>\<open>maxes\<close> and the correction by one.\<close>

lemma maxes_search:
  assumes "sorted_wrt (<) (xs :: int list)"
  shows "(let i0 = lower_bound_idx (\<lambda>x. x < b) xs
      in if i0 < length xs \<and> b = xs ! i0 then i0 + 1 else i0) = length (takeWhile (\<lambda>x. x \<le> b) xs)"
  using assms unfolding Let_def lower_bound_idx_def
proof (induction xs)
  case (Cons x xs)
  show ?case
  proof (cases "x < b")
    case True
    then show ?thesis using Cons by (auto simp: nth_Cons' split: if_splits)
  next
    case False
    moreover have "takeWhile (\<lambda>x. x \<le> b) xs = []" if "x = b"
      using Cons.prems that by (cases xs) auto
    ultimately show ?thesis by auto
  qed
qed simp

lemma last_limits_sorted:
  assumes "extents_ok amax pok (concat ls)" "[] \<notin> set ls"
  shows "sorted_wrt (<) (last_limits ls)"
  using assms
proof (induction ls)
  case (Cons l ls)
  have "limit (last l) < limit (last k)" if "k \<in> set ls" for k
  proof -
    have "k \<noteq> []" "l \<noteq> []" using that Cons.prems(2) by auto
    then have "last l \<in> set l" "last k \<in> set (concat ls)" using that by (auto intro!: bexI [of _ k])
    then have "limit (last l) \<le> s_base (last k)" "ext_ok amax pok (last k)"
      using Cons.prems(1) by (simp_all add: extents_ok_def del: set_concat)
    then show ?thesis using ext_ok_limit by fastforce
  qed
  then show ?case using Cons by (auto simp: last_limits_def)
qed simp

lemma ordered_last_max:
  "extents_ok amax pok l \<Longrightarrow> e \<in> set l \<Longrightarrow> limit e \<le> limit (last l)"
proof (induction l rule: rev_induct)
  case (snoc x xs)
  then show ?case using ext_ok_limit [of amax pok x] by fastforce
qed simp

lemma cursor_lower_bound:
  assumes "map_ok T amax pok m" "set_base T b = b"
  shows "cursor m (lower_bound T m b) (takeWhile (\<lambda>e. limit e \<le> b) (flat m))
    (dropWhile (\<lambda>e. limit e \<le> b) (flat m))"
proof (cases "lists m = []")
  case True
  then show ?thesis by (simp add: lower_bound_def end_it_def flat_def cursor_def)
next
  case False
  let ?P = "\<lambda>e. limit e \<le> b"
  let ?Q = "\<lambda>l. limit (last l) \<le> b"
  have si: "struct_inv T m" and ok: "extents_ok amax pok (flat m)" using assms(1) by (simp_all add: map_ok_def)
  have ne: "[] \<notin> set (lists m)" and mx: "maxes m = last_limits (lists m)"
    using si by (auto simp: struct_inv_def balanced_def)
  define A where "A = takeWhile ?Q (lists m)"
  define C where "C = dropWhile ?Q (lists m)"
  have AC: "lists m = A @ C" by (simp add: A_def C_def)
  have "length (takeWhile (\<lambda>x. x \<le> b) (maxes m)) = length A"
    by (simp add: A_def mx last_limits_def takeWhile_map o_def)
  then have i: "(let i0 = lower_bound_idx (\<lambda>x. x < b) (maxes m)
      in if i0 < length (maxes m) \<and> b = maxes m ! i0 then i0 + 1 else i0) = length A"
    using maxes_search [of "maxes m" b] last_limits_sorted [of amax pok "lists m"] ok ne mx
    by (simp add: flat_def)
  have lbi: "lower_bound T m b = (if lists m = [] then end_it m
      else if length A = length (maxes m) then end_it m
      else let l = lists m ! length A; j = lower_bound_idx (\<lambda>e. s_base e < set_base T b) l
           in if j \<noteq> 0 \<and> s_base (l ! (j - 1)) \<le> b \<and> b < limit (l ! (j - 1)) then (length A, j - 1)
              else if length A < length (lists m) - 1 \<and> j = length l then (length A + 1, 0)
              else (length A, j))"
    unfolding lower_bound_def i [unfolded Let_def, symmetric] Let_def ..
  have A_le: "?P e" if "e \<in> set (concat A)" for e
  proof -
    from that obtain l where l: "l \<in> set A" "e \<in> set l" by auto
    then have "?Q l" using set_takeWhileD A_def by metis
    moreover have "extents_ok amax pok l"
      using ok l(1) split_list [OF l(1)] AC by (auto simp: flat_def)
    ultimately show ?thesis using ordered_last_max [OF _ l(2)] by fastforce
  qed
  show ?thesis
  proof (cases C)
    case Nil
    then have "lower_bound T m b = end_it m" "takeWhile ?P (flat m) = flat m" "dropWhile ?P (flat m) = []"
      using lbi mx AC A_le False by (auto simp: flat_def last_limits_def dropWhile_eq_Nil_conv takeWhile_eq_all_conv)
    then show ?thesis by (simp only: cursor_end_it [OF si])
  next
    case (Cons l B)
    then have l: "lists m = A @ l # B" using AC by simp
    have nQ: "b < limit (last l)" using Cons hd_dropWhile [of ?Q "lists m"] C_def by (metis leI list.discI list.sel(1))
    have okl: "extents_ok amax pok l" using ok l by (simp add: flat_def)
    have "l \<noteq> []" using ne l by auto
    define u where "u = takeWhile (\<lambda>e. s_base e < b) l"
    define v where "v = dropWhile (\<lambda>e. s_base e < b) l"
    have uv: "l = u @ v" by (simp add: u_def v_def)
    have lb: "lower_bound T m b =
       (if u \<noteq> [] \<and> s_base (l ! (length u - 1)) \<le> b \<and> b < limit (l ! (length u - 1))
        then (length A, length u - 1)
        else if length A < length (lists m) - 1 \<and> length u = length l then (length A + 1, 0)
        else (length A, length u))"
      using lbi l mx False assms(2)
      by (simp add: Let_def lower_bound_idx_def u_def [symmetric] nth_append last_limits_def)
    show ?thesis
    proof (cases "u \<noteq> [] \<and> b < limit (last u)")
      case True
      then obtain u' e where u: "u = u' @ [e]" by (cases u rule: rev_cases) auto
      have "s_base e < b" using set_takeWhileD [of e "\<lambda>e. s_base e < b" l] u u_def by auto
      have "lower_bound T m b = (length A, length u')"
        using lb True u uv \<open>s_base e < b\<close> by (simp add: nth_append)
      moreover have "takeWhile ?P (flat m) = concat A @ u' \<and> dropWhile ?P (flat m) = e # v @ concat B"
        using takeWhile_append_stop [of "concat A @ u'" ?P "e # v @ concat B"] A_le okl u uv l True
          \<open>s_base e < b\<close> by (fastforce simp: flat_def)
      ultimately show ?thesis using cursor_ConsI [of m A u' e v B] l u uv by simp
    next
      case False
      have u_le: "?P e" if "e \<in> set u" for e
        using ordered_last_max [of amax pok u e] that okl uv False by fastforce
      have "v \<noteq> []" using nQ uv \<open>l \<noteq> []\<close> False by auto
      then obtain e v' where v: "v = e # v'" by (cases v) auto
      have "\<not> s_base e < b" using hd_dropWhile [of "\<lambda>e. s_base e < b" l] v v_def
        by (metis list.discI list.sel(1))
      then have e: "\<not> ?P e" using okl uv v ext_ok_limit [of amax pok e] by simp
      have "lower_bound T m b = (length A, length u)"
        using lb False uv v by (auto simp: nth_append last_conv_nth)
      moreover have "takeWhile ?P (flat m) = concat A @ u \<and> dropWhile ?P (flat m) = e # v' @ concat B"
        using takeWhile_append_stop [of "concat A @ u" ?P "e # v' @ concat B"] A_le u_le e uv v l
        by (fastforce simp: flat_def)
      ultimately show ?thesis using cursor_ConsI [of m A u e v' B] l v uv by simp
    qed
  qed
qed

section \<open>The phases of an update\<close>

text \<open>
  \<open>L\<close> is what lies before the iterator, \<open>D\<close> what has been discarded, \<open>R\<close> what the
  iterator has not passed yet; together they still mean \<open>f\<close>.
\<close>

definition parts_ok ::
  "'p tmpl \<Rightarrow> int \<Rightarrow> ('p \<Rightarrow> int \<Rightarrow> bool) \<Rightarrow> (int \<Rightarrow> 'p option) \<Rightarrow> int \<Rightarrow> int \<Rightarrow>
   'p extent list \<Rightarrow> 'p extent list \<Rightarrow> 'p extent list \<Rightarrow> bool" where
  "parts_ok T amax pok f b l L D R \<longleftrightarrow>
     extents_ok amax pok (L @ D @ R) \<and> seq_get T (L @ D @ R) = f
     \<and> (\<forall>e\<in>set L. limit e \<le> b) \<and> (\<forall>e\<in>set D. b \<le> s_base e \<and> limit e \<le> l)
     \<and> (\<forall>e\<in>set R. b \<le> s_base e)"

definition push_dels :: "'p extent list \<Rightarrow> 'p dels \<Rightarrow> 'p dels" where
  "push_dels D d = map_option (\<lambda>es. es @ D) d"

lemma push_del_dels: "push_del e d = push_dels [e] d"
  by (simp add: push_del_def push_dels_def)

lemma push_dels_push: "push_dels D' (push_dels D d) = push_dels (D @ D') d"
  by (cases d) (simp_all add: push_dels_def)

lemma push_dels_Nil [simp]: "push_dels [] d = d"
  by (cases d) (simp_all add: push_dels_def)

context extent_space
begin

lemma cut_left_spec:
  assumes si: "struct_inv T m" and cu: "cursor m it L (e # R)"
    and ok: "extents_ok amax pok (L @ e # R)" and L: "\<forall>f\<in>set L. limit f \<le> b" and e: "b < limit e"
    and bl: "0 \<le> b" "b < l" "l \<le> amax"
    and step: "cut_left T b l m it d = (m', it', d')"
  shows "\<exists>L' D R'. struct_inv T m' \<and> cursor m' it' L' R' \<and> d' = push_dels D d
    \<and> parts_ok T amax pok (seq_get T (L @ e # R)) b l L' D R'"
proof -
  have de: "deref m it = e" by (rule cursor_deref [OF cu])
  have eok: "ext_ok amax pok e" using ok by simp
  let ?p = "ptr_plus T (s_ptr e) (b - s_base e)"
  let ?a = "relimit T b e"
  let ?m1 = "fix_max (fst it) (set_at m it ?a)"
  note m1 = cursor_set_fix [OF si cu, of ?a]
  consider (bisect) "s_base e < b" "l < limit e" | (left) "s_base e < b" "limit e \<le> l" | (none) "b \<le> s_base e"
    by linarith
  then show ?thesis
  proof cases
    case bisect
    let ?o = "new_extent T b (l - b) ?p"
    let ?n = "new_extent T l (limit e - l) (ptr_plus T (s_ptr e) (l - s_base e))"
    note c1 = cut_ext [OF eok bisect(1) e]
    have a: "s_base ?a = s_base e" "limit ?a = b" "s_ptr ?a = s_ptr e" "ext_ok amax pok ?a"
      using relimit_ok [OF eok bisect(1) _ c1(1)] bl by simp_all
    have po: "pok ?p (l - b)" using pok_split [OF c1(2), of "l - b"] bl bisect by simp
    have o: "s_base ?o = b" "limit ?o = l" "s_ptr ?o = ?p" "ext_ok amax pok ?o"
      using new_extent_ok [OF bl(1) _ _ po] bl by simp_all
    have n: "s_base ?n = l" "limit ?n = limit e" "s_ptr ?n = ptr_plus T (s_ptr e) (l - s_base e)"
      "ext_ok amax pok ?n"
      using new_extent_ok [of l, OF _ _ _ cut_ext(2) [OF eok _ bisect(2)]] bl bisect eok
      unfolding ext_ok_def [of amax pok e] by simp_all
    let ?r = "rebase T b e"
    note r = rebase_up_ok [OF eok bisect(1) e]
    have "ptr_plus T ?p (l - b) = ptr_plus T (s_ptr e) (l - s_base e)"
      using plus_plus [of "s_ptr e" "s_len e" "b - s_base e" "l - b"] eok bl bisect
      by (simp add: ext_ok_def limit_def)
    then have np: "s_ptr ?n = ptr_plus T (s_ptr ?r) (l - s_base ?r)" unfolding n r by (rule sym)
    have "seq_get T [?o, ?n] = seq_get T [?r]"
      by (rule seq_get_cut [OF r(5) _ _ _ _ _ _ _ np]) (use r o n bl bisect in simp_all)
    moreover have "seq_get T [?a, ?r] = seq_get T [e]"
      by (rule seq_get_cut [OF eok bisect(1) e]) (use a r in simp_all)
    ultimately have "seq_get T [?a, ?o, ?n] = seq_get T [e]"
      using seq_get_replace [of T "[?o, ?n]" "[?r]" "[?a]" "[]"] by simp
    then have get: "seq_get T (L @ [?a, ?o, ?n] @ R) = seq_get T (L @ [e] @ R)"
      by (rule seq_get_replace)
    obtain m2 it2 where ins: "insert_at T ?m1 (it_plus ?m1 it 1) ?n = (m2, it2)" by (metis surj_pair)
    have "m' = m2" "it' = it2" "d' = push_dels [?o] d"
      using step ins bisect by (simp_all add: cut_left_def de Let_def push_del_dels)
    moreover have "struct_inv T m2 \<and> cursor m2 it2 (L @ [?a]) (?n # R)"
      by (rule cursor_insert [OF m1(1) load2 cursor_plus [OF m1] ins])
    moreover have "parts_ok T amax pok (seq_get T (L @ e # R)) b l (L @ [?a]) [?o] (?n # R)"
      using get ok L a o n bl bisect by (fastforce simp: parts_ok_def ext_ok_def limit_def)
    ultimately show ?thesis by blast
  next
    case left
    let ?o = "new_extent T b (limit e - b) ?p"
    note c1 = cut_ext [OF eok left(1) e]
    have a: "s_base ?a = s_base e" "limit ?a = b" "s_ptr ?a = s_ptr e" "ext_ok amax pok ?a"
      using relimit_ok [OF eok left(1) _ c1(1)] bl by simp_all
    have o: "s_base ?o = b" "limit ?o = limit e" "s_ptr ?o = ?p" "ext_ok amax pok ?o"
      using new_extent_ok [OF bl(1) _ _ c1(2)] e eok by (simp_all add: ext_ok_def)
    have "seq_get T [?a, ?o] = seq_get T [e]"
      by (rule seq_get_cut [OF eok left(1) e]) (use a o in simp_all)
    then have get: "seq_get T (L @ [?a, ?o] @ R) = seq_get T (L @ [e] @ R)"
      by (rule seq_get_replace)
    have "m' = ?m1" "it' = it_next ?m1 it" "d' = push_dels [?o] d"
      using step left e by (auto simp: cut_left_def de Let_def push_del_dels)
    moreover have "parts_ok T amax pok (seq_get T (L @ e # R)) b l (L @ [?a]) [?o] R"
      using get ok L a o left e by (fastforce simp: parts_ok_def)
    ultimately show ?thesis using m1(1) cursor_next [OF m1] by blast
  next
    case none
    then have "m' = m" "it' = it" "d' = push_dels [] d"
      using step by (simp_all add: cut_left_def de Let_def)
    moreover have "parts_ok T amax pok (seq_get T (L @ e # R)) b l L [] (e # R)"
      using ok L none ext_ok_limit [OF eok] by (fastforce simp: parts_ok_def)
    ultimately show ?thesis using si cu by blast
  qed
qed

lemma erase_covered_spec:
  assumes "struct_inv T m" "cursor m it L R" "parts_ok T amax pok f b l L D R" "length R \<le> n"
    "erase_covered n T b l m it d = (m', it', d')"
  shows "\<exists>D' R'. struct_inv T m' \<and> cursor m' it' L R' \<and> d' = push_dels D' d
    \<and> parts_ok T amax pok f b l L (D @ D') R' \<and> (R' = [] \<or> l < limit (hd R'))"
  using assms
proof (induction n arbitrary: m it R D d)
  case 0
  then show ?case by (intro exI [of _ "[]"]) simp
next
  case (Suc n)
  note endI = cursor_end [OF Suc.prems(1,2)]
  show ?case
  proof (cases "R \<noteq> [] \<and> limit (hd R) \<le> l")
    case False
    then have "m' = m \<and> it' = it \<and> d' = d"
      using Suc.prems(2,5) endI by (cases R) (auto dest: cursor_deref)
    then show ?thesis using Suc.prems False by (intro exI [of _ "[]"] exI [of _ R]) auto
  next
    case True
    then obtain e R' where R: "R = e # R'" "limit e \<le> l" by (cases R) auto
    have de: "deref m it = e" using Suc.prems(2) R(1) cursor_deref by blast
    have eb: "b \<le> s_base e" using Suc.prems(3) R by (simp add: parts_ok_def)
    obtain m1 it1 where e1: "erase_at T m it = (m1, it1)" by (metis surj_pair)
    have c1: "struct_inv T m1 \<and> cursor m1 it1 L R'"
      using cursor_erase [OF Suc.prems(1) load2 _ e1] Suc.prems(2) R(1) by blast
    have p1: "parts_ok T amax pok f b l L (D @ [e]) R'"
      using Suc.prems(3) R eb by (auto simp: parts_ok_def)
    have "erase_covered n T b l m1 it1 (push_dels [e] d) = (m', it', d')"
      using Suc.prems(5) R endI de eb e1 by (simp add: Let_def push_del_dels)
    from Suc.IH [OF _ _ p1 _ this] c1 Suc.prems(4) R obtain D' R'' where
      "struct_inv T m' \<and> cursor m' it' L R'' \<and> d' = push_dels D' (push_dels [e] d)
        \<and> parts_ok T amax pok f b l L ((D @ [e]) @ D') R'' \<and> (R'' = [] \<or> l < limit (hd R''))"
      by auto
    then show ?thesis by (intro exI [of _ "e # D'"] exI [of _ R'']) (simp add: push_dels_push)
  qed
qed

lemma cut_right_spec:
  assumes si: "struct_inv T m" and cu: "cursor m it L R" and p: "parts_ok T amax pok f b l L D R"
    and R: "R = [] \<or> l < limit (hd R)" and bl: "0 \<le> b" "b < l" "l \<le> amax"
    and step: "cut_right T l m it d = (m', d')"
  shows "\<exists>D' R'. struct_inv T m' \<and> cursor m' it L R' \<and> d' = push_dels D' d
    \<and> parts_ok T amax pok f b l L (D @ D') R' \<and> (\<forall>e\<in>set R'. l \<le> s_base e)"
proof (cases "R \<noteq> [] \<and> s_base (hd R) < l")
  case False
  then have "m' = m \<and> d' = d"
    using step cu cursor_end [OF si cu] by (cases R) (auto simp: cut_right_def dest: cursor_deref)
  moreover have "\<forall>e\<in>set R. l \<le> s_base e"
  proof (cases R)
    case (Cons r R')
    then have "ext_ok amax pok r" "\<forall>e\<in>set R'. limit r \<le> s_base e" using p by (simp_all add: parts_ok_def)
    then show ?thesis using False Cons ext_ok_limit [of amax pok r] by fastforce
  qed simp
  ultimately show ?thesis using si cu p by (intro exI [of _ "[]"] exI [of _ R]) simp
next
  case True
  then obtain e R' where Re: "R = e # R'" and e: "s_base e < l" by (cases R) auto
  have el: "l < limit e" using R Re by simp
  have eok: "ext_ok amax pok e" and eb: "b \<le> s_base e" using p Re by (simp_all add: parts_ok_def)
  let ?o = "new_extent T (s_base e) (l - s_base e) (s_ptr e)"
  let ?r = "rebase T l e"
  have cue: "cursor m it L (e # R')" using cu Re by simp
  note r = rebase_up_ok [OF eok e el]
  have o: "s_base ?o = s_base e" "limit ?o = l" "s_ptr ?o = s_ptr e" "ext_ok amax pok ?o"
    using new_extent_ok [OF _ _ _ cut_ext(1) [OF eok e el]] bl e eb by simp_all
  have "seq_get T [?o, ?r] = seq_get T [e]"
    by (rule seq_get_cut [OF eok e el]) (use o r in simp_all)
  then have get: "seq_get T ((L @ D) @ [?o, ?r] @ R') = seq_get T ((L @ D) @ [e] @ R')"
    by (rule seq_get_replace)
  have st: "m' = set_at m it ?r" "d' = push_dels [?o] d"
    using step cursor_end [OF si cu] Re cursor_deref [OF cue] e by (simp_all add: cut_right_def push_del_dels Let_def)
  have ord: "\<forall>f\<in>set R'. limit e \<le> s_base f" using p Re by (simp add: parts_ok_def)
  have "parts_ok T amax pok f b l L (D @ [?o]) (?r # R')"
    using p Re get o r eb el e bl by (fastforce simp: parts_ok_def)
  moreover have "\<forall>f\<in>set (?r # R'). l \<le> s_base f" using ord el r by auto
  ultimately show ?thesis
    using cursor_set_same_limit [OF si cue r(4)] st by (intro exI [of _ "[?o]"] exI [of _ "?r # R'"]) simp
qed

lemma cursor_prev:
  assumes "struct_inv T m" "cursor m it L R" "L \<noteq> []"
  shows "deref m (it_minus m it 1) = last L"
  using assms cursor_minus [of T m it "butlast L" "last L" R]
  by (auto intro!: cursor_deref [of m _ "butlast L" _ R])

lemma place_left:
  assumes si: "struct_inv T m" and cu: "cursor m it (L @ [a]) R" and ok: "extents_ok amax pok (L @ a # e # R)"
    and adj: "adjacent T a e"
    and step: "place T (s_base e) (limit e) e m it = m'"
  shows "struct_inv T m' \<and> extents_ok amax pok (flat m') \<and> seq_get T (flat m') = seq_get T (L @ a # e # R)"
proof -
  let ?pv = "it_minus m it 1"
  let ?a1 = "relimit T (limit e) a"
  let ?m1 = "fix_max (fst ?pv) (set_at m ?pv ?a1)"
  have aok: "ext_ok amax pok a" and eok: "ext_ok amax pok e" using ok by simp_all
  note cp = cursor_minus [OF si cu]
  note m1 = cursor_set_fix [OF si cp, of ?a1]
  note j = relimit_join [OF adj aok eok]
  have len: "map length (lists ?m1) = map length (lists m)" by (simp add: set_at_shape)
  have it1: "cursor ?m1 it (L @ [?a1]) R" by (rule cursor_set_other [OF m1(2) cu len])
  have nb: "it \<noteq> begin_it m" and n0: "count m \<noteq> 0"
    using cursor_begin [OF si cu] struct_inv_count0 [OF si] cursor_flat [OF cu] by simp_all
  have ok1: "extents_ok amax pok (L @ ?a1 # R)" using ok j by auto
  have get1: "seq_get T (L @ [?a1] @ R) = seq_get T (L @ [a, e] @ R)" by (rule seq_get_replace) (rule j(1))
  note d = cursor_deref [OF cp] cursor_deref [OF m1(2)]
  show ?thesis
  proof (cases "R \<noteq> [] \<and> adjacent T ?a1 (hd R)")
    case False
    then have "m' = ?m1"
      using step nb n0 adj d cursor_end [OF m1(1) it1] cursor_deref [of ?m1 it "L @ [?a1]" "hd R" "tl R"] it1
      by (cases "R = []") (simp_all add: place_def Let_def)
    then show ?thesis using m1(1) cursor_flat [OF it1] ok1 get1 by simp
  next
    case True
    then obtain r R' where R: "R = r # R'" and adj': "adjacent T ?a1 r" by (cases R) auto
    have rok: "ext_ok amax pok r" using ok R by simp
    let ?a2 = "relimit T (limit r) ?a1"
    let ?m2 = "fix_max (fst ?pv) (set_at ?m1 ?pv ?a2)"
    note m2 = cursor_set_fix [OF m1, of ?a2]
    note j2 = relimit_join [OF adj' j(2) rok]
    have dr: "deref ?m1 it = r" using it1 R cursor_deref by blast
    have "map length (lists ?m2) = map length (lists ?m1)" by (simp add: set_at_shape)
    from cursor_set_other [OF m2(2) it1 this] have it2: "cursor ?m2 it (L @ [?a2]) (r # R')" using R by simp
    obtain m3 it3 where e3: "erase_at T ?m2 it = (m3, it3)" by (metis surj_pair)
    note c3 = cursor_erase [OF m2(1) load2 it2 e3]
    have "m' = m3"
      using step nb n0 adj d dr adj' e3 cursor_end [OF m1(1) it1] R by (simp add: place_def Let_def)
    moreover have "seq_get T (L @ [?a2] @ R') = seq_get T (L @ [?a1, r] @ R')"
      by (rule seq_get_replace) (rule j2(1))
    moreover have "extents_ok amax pok (L @ ?a2 # R')" using ok1 R j2 by auto
    ultimately show ?thesis using c3 cursor_flat [of m3 it3] get1 R by auto
  qed
qed

lemma place_spec:
  assumes si: "struct_inv T m" and cu: "cursor m it L R" and ok: "extents_ok amax pok (L @ e # R)"
    and step: "place T (s_base e) (limit e) e m it = m'"
  shows "struct_inv T m' \<and> extents_ok amax pok (flat m') \<and> seq_get T (flat m') = seq_get T (L @ e # R)"
proof -
  obtain m1 it1 where ins: "insert_at T m it e = (m1, it1)" by (metis surj_pair)
  have new: ?thesis if "m' = m1"
    using cursor_insert [OF si load2 cu ins] cursor_flat [of m1 it1 L "e # R"] ok that by simp
  note end0 = cursor_end [OF si cu] and begin0 = cursor_begin [OF si cu] and count0 = struct_inv_count0 [OF si]
  consider (left) L' a where "L = L' @ [a]" "adjacent T a e"
    | (right) r R' where "R = r # R'" "adjacent T e r" "L = [] \<or> \<not> adjacent T (last L) e"
    | (none) "L = [] \<or> \<not> adjacent T (last L) e" "R = [] \<or> \<not> adjacent T e (hd R)"
    by (cases L rule: rev_cases; cases R) auto
  then show ?thesis
  proof cases
    case left
    then show ?thesis using place_left [OF si, of it L' a R e m'] cu ok step by simp
  next
    case right
    have cur: "cursor m it L (r # R')" using cu right by simp
    have rok: "ext_ok amax pok r" and eok: "ext_ok amax pok e" using ok right by simp_all
    note j = rebase_join [OF right(2) eok rok]
    have "L = [] \<or> deref m (it_minus m it 1) = last L" using cursor_prev [OF si cu] by blast
    then have "m' = set_at m it (rebase T (s_base e) r)"
      using step right end0 begin0 count0 cursor_flat [OF cu] cursor_deref [OF cur]
      by (auto simp: place_def Let_def)
    moreover have "seq_get T (L @ [rebase T (s_base e) r] @ R') = seq_get T (L @ [e, r] @ R')"
      by (rule seq_get_replace) (rule j(1))
    moreover have "extents_ok amax pok (L @ rebase T (s_base e) r # R')" using ok right(1) j by auto
    moreover note cursor_flat [OF cursor_set_same_limit(2) [OF si cur j(3)]]
    ultimately show ?thesis using cursor_set_same_limit(1) [OF si cur j(3)] right(1) by simp
  next
    case none
    have "L = [] \<or> deref m (it_minus m it 1) = last L" using cursor_prev [OF si cu] by blast
    moreover have "R = [] \<or> deref m it = hd R" using cu by (cases R) (auto dest: cursor_deref)
    ultimately have "m' = m1"
      using step none end0 begin0 ins by (auto simp: place_def Let_def)
    then show ?thesis by (rule new)
  qed
qed

text \<open>What the three parts mean once nothing in \<open>R\<close> reaches into the range.\<close>

lemma parts_ok_final:
  assumes p: "parts_ok T amax pok f b l L D R" and R: "\<forall>e\<in>set R. l \<le> s_base e" and bl: "b < l"
  shows "seq_get T D = map_slice f b l" "seq_get T (L @ R) = map_cut f b l"
    "ext_ok amax pok e \<Longrightarrow> s_base e = b \<Longrightarrow> limit e = l \<Longrightarrow> seq_get T (L @ e # R) = map_upd T f b l (s_ptr e)"
    "extents_ok amax pok D" "extents_ok amax pok (L @ R)"
    "ext_ok amax pok e \<Longrightarrow> s_base e = b \<Longrightarrow> limit e = l \<Longrightarrow> extents_ok amax pok (L @ e # R)"
proof -
  have f: "f = seq_get T (L @ D @ R)" and L: "\<forall>e\<in>set L. limit e \<le> b"
    and D: "\<forall>e\<in>set D. b \<le> s_base e \<and> limit e \<le> l" and ok: "extents_ok amax pok (L @ D @ R)"
    using p by (simp_all add: parts_ok_def)
  have nL: "seq_get T L x = None" if "b \<le> x" for x using L that by (intro seq_get_None) force
  have nR: "seq_get T R x = None" if "x < l" for x using R that by (intro seq_get_None) force
  have nD: "seq_get T D x = None" if "x < b \<or> l \<le> x" for x using D that by (intro seq_get_None) force
  have "seq_get T D x = map_slice f b l x \<and> seq_get T (L @ R) x = map_cut f b l x" for x
    by (cases "b \<le> x \<and> x < l")
      (auto simp: f map_slice_def map_cut_def seq_get_append nL nR nD not_le not_less split: option.split)
  then show "seq_get T D = map_slice f b l" "seq_get T (L @ R) = map_cut f b l" by auto
  show "seq_get T (L @ e # R) = map_upd T f b l (s_ptr e)"
    if "ext_ok amax pok e" "s_base e = b" "limit e = l"
  proof
    fix x
    show "seq_get T (L @ e # R) x = map_upd T f b l (s_ptr e) x"
      using that by (cases "b \<le> x \<and> x < l")
        (auto simp: f map_upd_def seq_get_append nL nR nD ext_get_def not_le not_less split: option.split)
  qed
  show "extents_ok amax pok D" "extents_ok amax pok (L @ R)" using ok by auto
  show "extents_ok amax pok (L @ e # R)" if "ext_ok amax pok e" "s_base e = b" "limit e = l"
    using ok that L R by auto
qed

lemma clear_range_spec:
  assumes ok: "map_ok T amax pok m" and bl: "0 \<le> b" "b < l" "l \<le> amax"
    and step: "clear_range T b l m d = (m3, it3, d3)"
  shows "\<exists>L D R. struct_inv T m3 \<and> cursor m3 it3 L R \<and> d3 = push_dels D d
    \<and> parts_ok T amax pok (lookup_fun T m) b l L D R \<and> (\<forall>e\<in>set R. l \<le> s_base e)"
proof -
  let ?it0 = "lower_bound T m b"
  let ?L = "takeWhile (\<lambda>e. limit e \<le> b) (flat m)"
  let ?R = "dropWhile (\<lambda>e. limit e \<le> b) (flat m)"
  have si: "struct_inv T m" and eok: "extents_ok amax pok (flat m)" using ok by (simp_all add: map_ok_def)
  have "set_base T b = b" using set_base_id bl by simp
  note cu = cursor_lower_bound [OF ok this]
  have L: "\<forall>f\<in>set ?L. limit f \<le> b" by (auto dest: set_takeWhileD)
  show ?thesis
  proof (cases ?R)
    case Nil
    then have "m3 = m" "it3 = ?it0" "d3 = push_dels [] d"
      using step cursor_end [OF si cu] by (auto simp: clear_range_def)
    moreover have "parts_ok T amax pok (lookup_fun T m) b l ?L [] ?R"
      using eok L cursor_flat [OF cu] unfolding Nil by (simp add: parts_ok_def lookup_fun_def)
    ultimately show ?thesis using si cu unfolding Nil by fastforce
  next
    case (Cons e R)
    have e: "b < limit e" using hd_dropWhile [of "\<lambda>e. limit e \<le> b" "flat m"] Cons by simp
    have fl: "flat m = ?L @ e # R" using cursor_flat [OF cu] Cons by simp
    have cu': "cursor m ?it0 ?L (e # R)" using cu Cons by simp
    obtain m1 it1 d1 where s1: "cut_left T b l m ?it0 d = (m1, it1, d1)" by (metis surj_pair)
    have "extents_ok amax pok (?L @ e # R)" using eok fl by argo
    from cut_left_spec [OF si cu' this L e bl s1] obtain L1 D1 R1 where
      p1: "struct_inv T m1" "cursor m1 it1 L1 R1" "d1 = push_dels D1 d"
        "parts_ok T amax pok (lookup_fun T m) b l L1 D1 R1"
      using fl by (auto simp: lookup_fun_def)
    obtain m2 it2 d2 where s2: "erase_covered (length (concat (lists m1))) T b l m1 it1 d1 = (m2, it2, d2)"
      by (metis surj_pair)
    have "length R1 \<le> length (concat (lists m1))" using cursor_flat [OF p1(2)] by (simp add: flat_def)
    from erase_covered_spec [OF p1(1,2,4) this s2] obtain D2 R2 where
      p2: "struct_inv T m2" "cursor m2 it2 L1 R2" "d2 = push_dels D2 d1"
        "parts_ok T amax pok (lookup_fun T m) b l L1 (D1 @ D2) R2" "R2 = [] \<or> l < limit (hd R2)" by blast
    obtain m2' d2' where s3: "cut_right T l m2 it2 d2 = (m2', d2')" by (metis surj_pair)
    from cut_right_spec [OF p2(1,2,4,5) bl s3] obtain D3 R3 where
      p3: "struct_inv T m2'" "cursor m2' it2 L1 R3" "d2' = push_dels D3 d2"
        "parts_ok T amax pok (lookup_fun T m) b l L1 ((D1 @ D2) @ D3) R3" "\<forall>e\<in>set R3. l \<le> s_base e" by blast
    have "m3 = m2'" "it3 = it2" "d3 = push_dels ((D1 @ D2) @ D3) d"
      using step cursor_end [OF si cu'] s1 s2 s3 p1(3) p2(3) p3(3)
      by (simp_all add: clear_range_def push_dels_push)
    then show ?thesis using p3 by blast
  qed
qed

theorem update_map_spec:
  assumes ok: "map_ok T amax pok m" and bl: "0 \<le> b" "b < l" "l \<le> amax"
    and p: "\<not> trim \<Longrightarrow> pok p (l - b)" and ne: "trim \<Longrightarrow> maxes m \<noteq> []"
    and step: "update_map T m b l p trim d = (m', d')"
  shows "map_ok T amax pok m'
    \<and> lookup_fun T m' = (if trim then map_cut (lookup_fun T m) b l else map_upd T (lookup_fun T m) b l p)
    \<and> (\<exists>D. d' = push_dels D d \<and> extents_ok amax pok D \<and> seq_get T D = map_slice (lookup_fun T m) b l)"
proof (cases "maxes m = []")
  case True
  let ?e = "new_extent T b (l - b) p"
  have si: "struct_inv T m" using ok by (simp add: map_ok_def)
  have fl: "flat m = []" using True struct_inv_maxes_Nil [OF si] by simp
  have nt: "\<not> trim" using ne True by blast
  have e: "s_base ?e = b" "limit ?e = l" "s_ptr ?e = p" "ext_ok amax pok ?e"
    using new_extent_ok [OF bl(1) _ _ p [OF nt]] bl by simp_all
  have m': "m' = first m ?e" "d' = push_dels [] d" using step True by (simp_all add: update_map_def Let_def)
  have "lists m = []" "count m = 0" using si fl by (simp_all add: struct_inv_lists_Nil struct_inv_count0)
  then have "lists m' = [[?e]]" "maxes m' = [limit ?e]" "count m' = 1"
    using m' True by (simp_all add: first_def)
  then have "struct_inv T m'" "flat m' = [?e]"
    using load2 by (simp_all add: struct_inv_def flat_def balanced_def)
  then show ?thesis
    using e nt fl m'(2)
    by (auto simp: map_ok_def lookup_fun_def fun_eq_iff map_upd_def map_slice_def ext_get_def
        intro!: exI [of _ "[]"])
next
  case False
  obtain m3 it3 d3 where s: "clear_range T b l m d = (m3, it3, d3)" by (metis surj_pair)
  from clear_range_spec [OF ok bl s] obtain L D R where
    q: "struct_inv T m3" "cursor m3 it3 L R" "d3 = push_dels D d"
      "parts_ok T amax pok (lookup_fun T m) b l L D R" "\<forall>e\<in>set R. l \<le> s_base e" by blast
  note fin = parts_ok_final [OF q(4,5) bl(2)]
  have m': "m' = (if trim then m3 else place T b l (new_extent T b (l - b) p) m3 it3)" "d' = d3"
    using step False s by (simp_all add: update_map_def)
  have "map_ok T amax pok m' \<and>
    lookup_fun T m' = (if trim then map_cut (lookup_fun T m) b l else map_upd T (lookup_fun T m) b l p)"
  proof (cases trim)
    case True
    then show ?thesis using m' q(1) cursor_flat [OF q(2)] fin by (simp add: map_ok_def lookup_fun_def)
  next
    case False
    let ?e = "new_extent T b (l - b) p"
    have e: "s_base ?e = b" "limit ?e = l" "s_ptr ?e = p" "ext_ok amax pok ?e"
      using new_extent_ok [OF bl(1) _ _ p [OF False]] bl by simp_all
    have "place T (s_base ?e) (limit ?e) ?e m3 it3 = m'" using m' e False by simp
    from place_spec [OF q(1,2) fin(6) [OF e(4,1,2)] this] show ?thesis
      using fin(3) [OF e(4,1,2)] e False by (simp add: map_ok_def lookup_fun_def)
  qed
  then show ?thesis using m' q(3) fin(1,4) by blast
qed

lemma update_ok:
  assumes "map_ok T amax pok m" "0 \<le> b" "b < l" "l \<le> amax" "pok p (l - b)"
  shows "map_ok T amax pok (update T m b l p)"
    "lookup_fun T (update T m b l p) = map_upd T (lookup_fun T m) b l p"
proof -
  obtain m' d where s: "update_map T m b l p False None = (m', d)" by (metis surj_pair)
  with update_map_spec [OF assms(1-4) _ _ s] assms(5)
  show "map_ok T amax pok (update T m b l p)"
    "lookup_fun T (update T m b l p) = map_upd T (lookup_fun T m) b l p" by (simp_all add: update_def)
qed

lemma update_del_ok:
  assumes "map_ok T amax pok m" "0 \<le> b" "b < l" "l \<le> amax" "pok p (l - b)"
    "update_del T m b l p del = (m', del')"
  shows "map_ok T amax pok m'" "lookup_fun T m' = map_upd T (lookup_fun T m) b l p"
    "\<exists>D. del' = del @ D \<and> extents_ok amax pok D \<and> seq_get T D = map_slice (lookup_fun T m) b l"
proof -
  obtain m1 d where s: "update_map T m b l p False (Some del) = (m1, d)" by (metis surj_pair)
  then have "m' = m1" "del' = the d" using assms(6) by (simp_all add: update_del_def)
  with update_map_spec [OF assms(1-4) _ _ s] assms(5)
  show "map_ok T amax pok m'" "lookup_fun T m' = map_upd T (lookup_fun T m) b l p"
    "\<exists>D. del' = del @ D \<and> extents_ok amax pok D \<and> seq_get T D = map_slice (lookup_fun T m) b l"
    by (auto simp: push_dels_def)
qed

lemma map_ok_count: "map_ok T amax pok m \<Longrightarrow> 0 < count m \<longleftrightarrow> flat m \<noteq> []"
  by (auto simp: map_ok_def struct_inv_def)

lemma map_ok_maxes: "map_ok T amax pok m \<Longrightarrow> maxes m = [] \<longleftrightarrow> flat m = []"
  using struct_inv_maxes_Nil by (auto simp: map_ok_def)

lemma trim_map_ok:
  assumes "map_ok T amax pok m" "0 \<le> b" "b < l" "l \<le> amax"
  shows "map_ok T amax pok (trim_map T u m b l)"
    "lookup_fun T (trim_map T u m b l) = map_cut (lookup_fun T m) b l"
proof -
  obtain m' d where s: "update_map T m b l u True None = (m', d)" by (metis surj_pair)
  have "map_ok T amax pok (trim_map T u m b l) \<and>
    lookup_fun T (trim_map T u m b l) = map_cut (lookup_fun T m) b l"
  proof (cases "flat m = []")
    case True
    then have "trim_map T u m b l = m" using map_ok_count [OF assms(1)] by (simp add: trim_map_def)
    then show ?thesis using assms(1) True by (simp add: lookup_fun_def fun_eq_iff map_cut_def)
  next
    case False
    then have "maxes m \<noteq> []" "trim_map T u m b l = m'"
      using map_ok_maxes [OF assms(1)] map_ok_count [OF assms(1)] s by (simp_all add: trim_map_def)
    with update_map_spec [OF assms(1-4) _ _ s] show ?thesis by simp
  qed
  then show "map_ok T amax pok (trim_map T u m b l)"
    "lookup_fun T (trim_map T u m b l) = map_cut (lookup_fun T m) b l" by simp_all
qed

lemma trim_del_ok:
  assumes "map_ok T amax pok m" "0 \<le> b" "b < l" "l \<le> amax" "trim_del T u m b l del = (m', del')"
  shows "map_ok T amax pok m'" "lookup_fun T m' = map_cut (lookup_fun T m) b l"
    "\<exists>D. del' = del @ D \<and> extents_ok amax pok D \<and> seq_get T D = map_slice (lookup_fun T m) b l"
proof -
  obtain m1 d where s: "update_map T m b l u True (Some del) = (m1, d)" by (metis surj_pair)
  have "map_ok T amax pok m' \<and> lookup_fun T m' = map_cut (lookup_fun T m) b l \<and>
    (\<exists>D. del' = del @ D \<and> extents_ok amax pok D \<and> seq_get T D = map_slice (lookup_fun T m) b l)"
  proof (cases "flat m = []")
    case True
    then have "m' = m" "del' = del @ []" using map_ok_count [OF assms(1)] assms(5) by (simp_all add: trim_del_def)
    moreover have "lookup_fun T m = (\<lambda>_. None)" using True by (simp add: lookup_fun_def fun_eq_iff)
    moreover have "seq_get T [] = map_slice (lookup_fun T m) b l" "map_cut (lookup_fun T m) b l = lookup_fun T m"
      using calculation(3) by (simp_all add: fun_eq_iff map_slice_def map_cut_def)
    ultimately show ?thesis using assms(1) extents_ok_simps(1) by metis
  next
    case False
    then have "maxes m \<noteq> []" "m' = m1" "del' = the d"
      using map_ok_maxes [OF assms(1)] map_ok_count [OF assms(1)] s assms(5) by (simp_all add: trim_del_def)
    with update_map_spec [OF assms(1-4) _ _ s] show ?thesis by (auto simp: push_dels_def)
  qed
  then show "map_ok T amax pok m'" "lookup_fun T m' = map_cut (lookup_fun T m) b l"
    "\<exists>D. del' = del @ D \<and> extents_ok amax pok D \<and> seq_get T D = map_slice (lookup_fun T m) b l" by simp_all
qed

text \<open>What a reader sees who looks up \<open>b\<close> and then walks the iterator.\<close>

lemma lookup_cursor:
  assumes "map_ok T amax pok m" "0 \<le> b" "b < amax"
  shows "cursor m (lookup T m b) (takeWhile (\<lambda>e. limit e \<le> b) (flat m)) (dropWhile (\<lambda>e. limit e \<le> b) (flat m))"
  unfolding lookup_def using cursor_lower_bound [OF assms(1)] set_base_id assms(2,3) by simp

end

end
