(* ===== verification/Sector_Map.thy ===== *)
theory Sector_Map
  imports Extmap_Update
begin

text \<open>
  The interface through which the other components use the two maps: what a client may rely on
  after an update or a trim, what the loops over a range see, and what follows for a whole
  sequence of updates. The object map and the buffer map are instances.
\<close>

section \<open>What the loops over a map visit\<close>

lemma it_while_cursor:
  assumes "struct_inv T m" "cursor m it L R" "length R \<le> n"
  shows "it_while n P m it = takeWhile P R"
  using assms
proof (induction n arbitrary: it L R)
  case 0
  then show ?case by simp
next
  case (Suc n)
  show ?case
  proof (cases R)
    case Nil
    then show ?thesis using cursor_end [OF Suc.prems(1,2)] by simp
  next
    case (Cons e R')
    then have cu: "cursor m it L (e # R')" using Suc.prems(2) by simp
    show ?thesis
      using Suc.IH [OF Suc.prems(1) cursor_next [OF Suc.prems(1) cu]] Suc.prems(3) Cons
        cursor_end [OF Suc.prems(1,2)] cursor_deref [OF cu] by simp
  qed
qed

lemma all_extents_flat: "map_ok T amax pok m \<Longrightarrow> all_extents m = flat m"
  unfolding all_extents_def map_ok_def
  using it_while_cursor [of T m "begin_it m" "[]" "flat m" "length (concat (lists m))" "\<lambda>e. True"]
    cursor_begin_it [of T m] by (simp add: flat_def takeWhile_eq_all_conv [THEN iffD2])

lemma extents_ok_next:
  "extents_ok amax pok (f # es) \<Longrightarrow> e \<in> set es \<Longrightarrow> limit f \<le> s_base e \<and> s_base e < limit e"
  using ext_ok_limit [of amax pok e] extents_ok_mem [of amax pok "f # es" e] by simp

lemma extents_ok_from_limit:
  "extents_ok amax pok es \<Longrightarrow> e \<in> set (dropWhile (\<lambda>e. limit e \<le> b) es) \<Longrightarrow> b < limit e"
proof (induction es)
  case (Cons f es)
  then show ?case using extents_ok_next [OF Cons.prems(1), of e] by (auto split: if_splits)
qed simp

lemma extents_ok_from_base:
  "extents_ok amax pok es \<Longrightarrow> e \<in> set (dropWhile (\<lambda>e. s_base e < l) es) \<Longrightarrow> l \<le> s_base e"
proof (induction es)
  case (Cons f es)
  then show ?case using extents_ok_next [OF Cons.prems(1), of e] ext_ok_limit [of amax pok f]
    by (auto split: if_splits)
qed simp

text \<open>A piece \<^verbatim>\<open>[base, limit) -> ptr\<close>, as \<^verbatim>\<open>vals\<close> returns it, seen as an extent.\<close>

definition piece_ext :: "int \<times> int \<times> 'p \<Rightarrow> 'p extent" where
  "piece_ext v = (let (b, l, p) = v in \<lparr>s_a = False, s_d = False, s_base = b, s_len = l - b, s_ptr = p\<rparr>)"

lemma piece_ext_sel [simp]:
  "s_base (piece_ext (b, l, p)) = b" "limit (piece_ext (b, l, p)) = l"
  "s_len (piece_ext (b, l, p)) = l - b" "s_ptr (piece_ext (b, l, p)) = p"
  by (simp_all add: piece_ext_def limit_def)

context extent_space
begin

lemma vals_in_piece:
  assumes e: "ext_ok amax pok e" and "b < limit e" "s_base e < l" "b < l"
  shows "ext_ok amax pok (piece_ext (vals_in T e b l))"
    "s_base (piece_ext (vals_in T e b l)) = max b (s_base e)"
    "limit (piece_ext (vals_in T e b l)) = min (limit e) l"
    "\<And>x. ext_get T (piece_ext (vals_in T e b l)) x = map_slice (ext_get T e) b l x"
proof -
  let ?c = "max b (s_base e)"
  let ?p = "if s_base e < b then ptr_plus T (s_ptr e) (b - s_base e) else s_ptr e"
  have v: "vals_in T e b l = (?c, min (limit e) l, ?p)" using assms by (simp add: vals_in_def)
  have full: "pok ?p (limit e - ?c)"
    using cut_ext(2) [OF e, of b] e assms by (auto simp: ext_ok_def limit_def)
  have p: "pok ?p (min (limit e) l - ?c)"
  proof (cases "limit e \<le> l")
    case False
    then show ?thesis using pok_split [OF full, of "l - ?c"] assms by (auto simp: min_def)
  qed (use full in \<open>simp add: min_def\<close>)
  show "s_base (piece_ext (vals_in T e b l)) = ?c" "limit (piece_ext (vals_in T e b l)) = min (limit e) l"
    by (simp_all add: v)
  show "ext_ok amax pok (piece_ext (vals_in T e b l))"
    using p e assms ext_ok_limit [OF e] by (auto simp: v ext_ok_def)
  fix x
  have "ptr_plus T (ptr_plus T (s_ptr e) (b - s_base e)) (x - b) = ptr_plus T (s_ptr e) (x - s_base e)"
    if "s_base e < b" "b \<le> x" "x < limit e"
    using plus_plus [of "s_ptr e" "s_len e" "b - s_base e" "x - b"] e that by (simp add: ext_ok_def limit_def)
  then show "ext_get T (piece_ext (vals_in T e b l)) x = map_slice (ext_get T e) b l x"
    by (auto simp: v ext_get_def map_slice_def max_def)
qed

lemma pieces_spec:
  assumes "extents_ok amax pok es" "\<forall>e\<in>set es. b < limit e" "\<forall>e\<in>set es. s_base e < l" "b < l"
  shows "extents_ok amax pok (map (\<lambda>e. piece_ext (vals_in T e b l)) es)"
    "seq_get T (map (\<lambda>e. piece_ext (vals_in T e b l)) es) = map_slice (seq_get T es) b l"
  using assms
proof (induction es)
  case (Cons e es)
  note v = vals_in_piece [of e b l]
  {
    case 1
    then have "\<forall>f\<in>set es. limit (piece_ext (vals_in T e b l)) \<le> s_base (piece_ext (vals_in T f b l))"
      using v(3) vals_in_piece(2) by (fastforce simp: extents_ok_mem)
    then show ?case using Cons.IH(1) 1 v(1) by simp
  next
    case 2
    then show ?case using Cons.IH(2) v(4) by (auto simp: fun_eq_iff map_slice_def split: option.splits)
  }
qed (simp_all add: map_slice_def fun_eq_iff)

lemma range_vals_spec:
  assumes ok: "map_ok T amax pok m" and bl: "0 \<le> b" "b < l" "b < amax"
  shows "extents_ok amax pok (map piece_ext (range_vals T m b l))"
    "seq_get T (map piece_ext (range_vals T m b l)) = map_slice (lookup_fun T m) b l"
    "\<forall>(c, k, p)\<in>set (range_vals T m b l). b \<le> c \<and> c < k \<and> k \<le> l"
proof -
  let ?P = "\<lambda>e. limit e \<le> b" and ?Q = "\<lambda>e. s_base e < l"
  let ?R = "dropWhile ?P (flat m)"
  have si: "struct_inv T m" and fl: "extents_ok amax pok (flat m)" using ok by (simp_all add: map_ok_def)
  have "length ?R \<le> length (concat (lists m))" by (simp add: flat_def length_dropWhile_le)
  from it_while_cursor [OF si lookup_cursor [OF ok bl(1,3)] this]
  have rv: "range_vals T m b l = map (\<lambda>e. vals_in T e b l) (takeWhile ?Q ?R)" by (simp add: range_vals_def)
  have split: "flat m = takeWhile ?P (flat m) @ takeWhile ?Q ?R @ dropWhile ?Q ?R" by simp
  have ok3: "extents_ok amax pok (takeWhile ?P (flat m) @ takeWhile ?Q ?R @ dropWhile ?Q ?R)"
    using fl split by argo
  have Q: "\<forall>e\<in>set (takeWhile ?Q ?R). s_base e < l" by (auto dest: set_takeWhileD)
  have P: "\<forall>e\<in>set (takeWhile ?P (flat m)). limit e \<le> b" by (auto dest: set_takeWhileD)
  have B: "\<forall>e\<in>set ?R. b < limit e" using extents_ok_from_limit [OF fl] by blast
  have "extents_ok amax pok (takeWhile ?P (flat m) @ ?R)" using fl by simp
  then have okR: "extents_ok amax pok ?R" unfolding extents_ok_simps by blast
  have A: "\<forall>e\<in>set (dropWhile ?Q ?R). l \<le> s_base e"
    using extents_ok_from_base [OF okR] by blast
  have B': "\<forall>e\<in>set (takeWhile ?Q ?R). b < limit e" using B by (auto dest: set_takeWhileD)
  have okM: "extents_ok amax pok (takeWhile ?Q ?R)" using ok3 unfolding extents_ok_simps by blast
  note ps = pieces_spec [OF okM B' Q bl(2)]
  show "extents_ok amax pok (map piece_ext (range_vals T m b l))" using ps(1) by (simp add: rv o_def)
  have "map_slice (lookup_fun T m) b l x = map_slice (seq_get T (takeWhile ?Q ?R)) b l x" for x
  proof (cases "b \<le> x \<and> x < l")
    case True
    have "seq_get T (takeWhile ?P (flat m)) x = None" by (rule seq_get_None) (use P True in force)
    moreover have "seq_get T (dropWhile ?Q ?R) x = None" by (rule seq_get_None) (use A True in force)
    ultimately have "seq_get T (takeWhile ?P (flat m) @ takeWhile ?Q ?R @ dropWhile ?Q ?R) x
        = seq_get T (takeWhile ?Q ?R) x"
      by (simp add: seq_get_append del: takeWhile_dropWhile_id split: option.split)
    then show ?thesis using split by (simp add: map_slice_def lookup_fun_def)
  next
    case False
    then show ?thesis unfolding map_slice_def by argo
  qed
  then show "seq_get T (map piece_ext (range_vals T m b l)) = map_slice (lookup_fun T m) b l"
    using ps(2) by (simp add: rv o_def fun_eq_iff)
  have "case vals_in T e b l of (c, k, p) \<Rightarrow> b \<le> c \<and> c < k \<and> k \<le> l" if "e \<in> set (takeWhile ?Q ?R)" for e
    using vals_in_piece(1-3) [of e b l] extents_ok_mem [OF okM that] that Q B' bl
    by (cases "vals_in T e b l") (auto simp: ext_ok_def)
  then show "\<forall>(c, k, p)\<in>set (range_vals T m b l). b \<le> c \<and> c < k \<and> k \<le> l" by (auto simp: rv)
qed

end

section \<open>The interface\<close>

text \<open>
  \<open>upd\<close> and \<open>cut\<close> are the two ways a client changes a map, \<open>look\<close> is what it means, \<open>pok\<close> says
  which pointer ranges may be stored and \<open>plus\<close> moves a pointer by sectors.
\<close>

locale sector_map =
  fixes ok :: "'m \<Rightarrow> bool" and look :: "'m \<Rightarrow> int \<Rightarrow> 'p option" and amax :: int
    and pok :: "'p \<Rightarrow> int \<Rightarrow> bool" and plus :: "'p \<Rightarrow> int \<Rightarrow> 'p"
    and upd :: "'m \<Rightarrow> int \<Rightarrow> int \<Rightarrow> 'p \<Rightarrow> 'm" and cut :: "'m \<Rightarrow> int \<Rightarrow> int \<Rightarrow> 'm"
  assumes upd_ok: "ok m \<Longrightarrow> 0 \<le> b \<Longrightarrow> b < l \<Longrightarrow> l \<le> amax \<Longrightarrow> pok p (l - b) \<Longrightarrow> ok (upd m b l p)"
    and upd_look: "ok m \<Longrightarrow> 0 \<le> b \<Longrightarrow> b < l \<Longrightarrow> l \<le> amax \<Longrightarrow> pok p (l - b) \<Longrightarrow>
      look (upd m b l p) x = (if b \<le> x \<and> x < l then Some (plus p (x - b)) else look m x)"
    and cut_ok: "ok m \<Longrightarrow> 0 \<le> b \<Longrightarrow> b < l \<Longrightarrow> l \<le> amax \<Longrightarrow> ok (cut m b l)"
    and cut_look: "ok m \<Longrightarrow> 0 \<le> b \<Longrightarrow> b < l \<Longrightarrow> l \<le> amax \<Longrightarrow>
      look (cut m b l) x = (if b \<le> x \<and> x < l then None else look m x)"
begin

text \<open>A sequence of trims, as the completion of a batch does them.\<close>

lemma cuts_look:
  assumes "ok m" "\<forall>(b, l)\<in>set rs. 0 \<le> b \<and> b < l \<and> l \<le> amax"
  shows "ok (foldl (\<lambda>m (b, l). cut m b l) m rs)"
    "look (foldl (\<lambda>m (b, l). cut m b l) m rs) x =
       (if \<exists>(b, l)\<in>set rs. b \<le> x \<and> x < l then None else look m x)"
proof -
  have "ok (foldl (\<lambda>m (b, l). cut m b l) m rs) \<and>
    look (foldl (\<lambda>m (b, l). cut m b l) m rs) x =
       (if \<exists>(b, l)\<in>set rs. b \<le> x \<and> x < l then None else look m x)"
    using assms by (induction rs arbitrary: m) (auto simp: cut_ok cut_look)
  then show "ok (foldl (\<lambda>m (b, l). cut m b l) m rs)"
    "look (foldl (\<lambda>m (b, l). cut m b l) m rs) x =
       (if \<exists>(b, l)\<in>set rs. b \<le> x \<and> x < l then None else look m x)" by simp_all
qed

text \<open>A sequence of updates: the last one that covers an address decides.\<close>

lemma upds_look:
  assumes "ok m" "\<forall>(b, l, p)\<in>set us. 0 \<le> b \<and> b < l \<and> l \<le> amax \<and> pok p (l - b)"
  shows "ok (foldl (\<lambda>m (b, l, p). upd m b l p) m us)"
    "look (foldl (\<lambda>m (b, l, p). upd m b l p) m us) x =
       foldl (\<lambda>r (b, l, p). if b \<le> x \<and> x < l then Some (plus p (x - b)) else r) (look m x) us"
proof -
  have "ok (foldl (\<lambda>m (b, l, p). upd m b l p) m us) \<and>
    look (foldl (\<lambda>m (b, l, p). upd m b l p) m us) x =
       foldl (\<lambda>r (b, l, p). if b \<le> x \<and> x < l then Some (plus p (x - b)) else r) (look m x) us"
    using assms by (induction us arbitrary: m) (auto simp: upd_ok upd_look)
  then show "ok (foldl (\<lambda>m (b, l, p). upd m b l p) m us)"
    "look (foldl (\<lambda>m (b, l, p). upd m b l p) m us) x =
       foldl (\<lambda>r (b, l, p). if b \<le> x \<and> x < l then Some (plus p (x - b)) else r) (look m x) us"
    by simp_all
qed

end

section \<open>The two maps of the program\<close>

lemma ptr_plus_sel [simp]: "ptr_plus lba2obj = obj_offset_plus" "ptr_plus lba2buf = sector_ptr_plus"
  by (simp_all add: lba2obj_def lba2buf_def)

type_synonym objmap = "obj_offset extmap"
type_synonym bufmap = "sector_ptr extmap"

abbreviation "objmap_ok \<equiv> map_ok lba2obj obj_amax obj_pok"
abbreviation "bufmap_ok bufs \<equiv> map_ok lba2buf buf_amax (buf_pok bufs)"
abbreviation "obj_look \<equiv> lookup_fun lba2obj"
abbreviation "buf_look \<equiv> lookup_fun lba2buf"

interpretation os: sector_map objmap_ok obj_look obj_amax obj_pok obj_offset_plus
  "update lba2obj" "trim_map lba2obj u" for u
  by unfold_locales
    (simp_all add: om.update_ok om.trim_map_ok map_upd_def map_cut_def)

interpretation bs: sector_map "bufmap_ok bufs" buf_look buf_amax "buf_pok bufs" sector_ptr_plus
  "update lba2buf" "trim_map lba2buf u" for bufs u
  by unfold_locales
    (simp_all add: bm.update_ok bm.trim_map_ok map_upd_def map_cut_def)

section \<open>The properties of the two maps\<close>

text \<open>
  C14. Updating the object map. Storing \<^verbatim>\<open>[b, l) -> p\<close> keeps the invariant of the map (sorted,
  disjoint extents spread over balanced lists whose \<^verbatim>\<open>maxes\<close> and \<^verbatim>\<open>count\<close> agree with them), maps
  every sector of the range to \<open>p\<close> plus its distance from \<open>b\<close> and no other sector anywhere new, and
  appends to the vector of discarded extents sorted, disjoint extents that say precisely where the
  sectors of the range were mapped before.
\<close>

theorem objmap_update_del:
  assumes "objmap_ok m" "0 \<le> b" "b < l" "l \<le> obj_amax" "obj_pok p (l - b)"
  shows "case update_del lba2obj m b l p del of (m', del') \<Rightarrow>
    objmap_ok m'
    \<and> (\<forall>x. obj_look m' x = (if b \<le> x \<and> x < l then Some (obj_offset_plus p (x - b)) else obj_look m x))
    \<and> (\<exists>D. del' = del @ D \<and> extents_ok obj_amax obj_pok D
          \<and> (\<forall>x. seq_get lba2obj D x = (if b \<le> x \<and> x < l then obj_look m x else None)))"
proof -
  obtain m' del' where s: "update_del lba2obj m b l p del = (m', del')" by (metis surj_pair)
  from om.update_del_ok [OF assms s] show ?thesis
    by (auto simp: s map_upd_def map_slice_def)
qed

lemma objmap_one_ok: "objmap_ok (update lba2obj extmap_empty 10 20 (Obj_offset 5 8))"
  by (rule om.update_ok [OF map_ok_empty]) (simp_all add: obj_amax_def obj_pok_def)

theorem objmap_update_del_witness:
  "let m = update lba2obj extmap_empty 10 20 (Obj_offset 5 8);
       (m', del') = update_del lba2obj m 12 15 (Obj_offset 6 8) []
   in objmap_ok m' \<and> obj_look m' 13 = Some (Obj_offset 6 9) \<and> obj_look m' 16 = obj_look m 16
      \<and> seq_get lba2obj del' 13 = obj_look m 13"
  using objmap_update_del [OF objmap_one_ok, of 12 15 "Obj_offset 6 8" "[]"]
  by (auto simp: obj_amax_def obj_pok_def Let_def obj_offset_plus_in)

text \<open>
  C15. Trimming the object map. Unmapping \<^verbatim>\<open>[b, l)\<close> keeps the invariant, unmaps exactly the sectors
  of the range, and appends the extents they were mapped to to the vector of discarded extents.
\<close>

theorem objmap_trim_del:
  assumes "objmap_ok m" "0 \<le> b" "b < l" "l \<le> obj_amax"
  shows "case trim_del lba2obj u m b l del of (m', del') \<Rightarrow>
    objmap_ok m'
    \<and> (\<forall>x. obj_look m' x = (if b \<le> x \<and> x < l then None else obj_look m x))
    \<and> (\<exists>D. del' = del @ D \<and> extents_ok obj_amax obj_pok D
          \<and> (\<forall>x. seq_get lba2obj D x = (if b \<le> x \<and> x < l then obj_look m x else None)))"
proof -
  obtain m' del' where s: "trim_del lba2obj u m b l del = (m', del')" by (metis surj_pair)
  from om.trim_del_ok [OF assms s] show ?thesis by (auto simp: s map_cut_def map_slice_def)
qed

theorem objmap_trim_del_witness:
  "let m = update lba2obj extmap_empty 10 20 (Obj_offset 5 8);
       (m', del') = trim_del lba2obj (Obj_offset 0 0) m 12 15 []
   in objmap_ok m' \<and> obj_look m' 13 = None \<and> obj_look m' 16 = obj_look m 16
      \<and> seq_get lba2obj del' 13 = obj_look m 13"
  using objmap_trim_del [OF objmap_one_ok, of 12 15 "[]" "Obj_offset 0 0"]
  by (auto simp: obj_amax_def Let_def)

text \<open>
  Updating and trimming the buffer map, whose pointers are addresses inside the data buffers of
  the batches that are alive. The map stays valid for these buffers, an update maps the range to
  consecutive sectors from its pointer on, a trim unmaps it, and nothing else changes.
\<close>

theorem bufmap_update_trim:
  assumes "bufmap_ok bufs m" "0 \<le> b" "b < l" "l \<le> buf_amax" "buf_pok bufs p (l - b)"
  shows "bufmap_ok bufs (update lba2buf m b l p) \<and> bufmap_ok bufs (trim_map lba2buf u m b l)
    \<and> (\<forall>x. buf_look (update lba2buf m b l p) x =
          (if b \<le> x \<and> x < l then Some (Sector_ptr (buf p + 512 * (x - b))) else buf_look m x))
    \<and> (\<forall>x. buf_look (trim_map lba2buf u m b l) x = (if b \<le> x \<and> x < l then None else buf_look m x))"
proof -
  have "sector_ptr_plus p (x - b) = Sector_ptr (buf p + 512 * (x - b))" if "b \<le> x" "x < l" for x
    using buf_pok_len [OF assms(5)] that by (subst sector_ptr_plus_in) simp_all
  then show ?thesis
    using bs.upd_ok [OF assms] bs.upd_look [OF assms] bs.cut_ok [OF assms(1-4)] bs.cut_look [OF assms(1-4)]
    by simp
qed

theorem bufmap_update_trim_witness:
  "buf_look (update lba2buf extmap_empty 3 5 (Sector_ptr 4096)) 4 = Some (Sector_ptr 4608)"
  using bufmap_update_trim [OF map_ok_empty [of _ _ "buf_pok {(4096, 8)}"], of 3 5 "Sector_ptr 4096"]
  by (simp add: buf_amax_def buf_pok_def separate_def)

text \<open>
  Looking up a range of the object map. The loop over \<^verbatim>\<open>lookup(b)\<close>, \<^verbatim>\<open>it++\<close> while
  \<^verbatim>\<open>it->base() < l\<close>, with \<^verbatim>\<open>vals(b, l)\<close> in its body, visits non-empty pieces inside the range,
  in order and without overlap, that agree with the map on every sector of the range and leave out
  precisely the sectors that are not mapped.
\<close>

theorem objmap_range_vals:
  assumes "objmap_ok m" "0 \<le> b" "b < l" "b < obj_amax"
  shows "extents_ok obj_amax obj_pok (map piece_ext (range_vals lba2obj m b l))
    \<and> (\<forall>x. seq_get lba2obj (map piece_ext (range_vals lba2obj m b l)) x =
          (if b \<le> x \<and> x < l then obj_look m x else None))
    \<and> list_all (\<lambda>(c, k, p). b \<le> c \<and> c < k \<and> k \<le> l) (range_vals lba2obj m b l)"
  using om.range_vals_spec [OF assms] by (auto simp: map_slice_def list_all_iff)

theorem objmap_range_vals_witness:
  "let m = update lba2obj extmap_empty 10 20 (Obj_offset 5 8)
   in seq_get lba2obj (map piece_ext (range_vals lba2obj m 15 30)) 17 = obj_look m 17"
  using objmap_range_vals [OF objmap_one_ok, of 15 30] by (simp add: obj_amax_def)

end
