(* ===== verification/Smartiov.thy ===== *)
theory Smartiov
  imports Lsvd_Prelude "HOL-Library.Word"
begin

text \<open>
  Scatter/gather lists (\<^verbatim>\<open>smartiov.h\<close>) over an explicit byte-addressed memory. The meaning of a
  list is the sequence of addresses it covers; the lemmas say what a slice covers and what the
  copies and the zeroing do to memory in terms of that sequence.
\<close>

unbundle bit_operations_syntax

type_synonym byte = "8 word"
type_synonym memory = "int \<Rightarrow> byte"

record iovec =
  iov_base :: int
  iov_len :: int

type_synonym smartiov = "iovec list"

section \<open>The C library on memory\<close>

definition memset :: "memory \<Rightarrow> int \<Rightarrow> byte \<Rightarrow> int \<Rightarrow> memory" where
  "memset mem dst c n = (\<lambda>a. if dst \<le> a \<and> a < dst + n then c else mem a)"

definition memcpy :: "memory \<Rightarrow> int \<Rightarrow> int \<Rightarrow> int \<Rightarrow> memory" where
  "memcpy mem dst src n = (\<lambda>a. if dst \<le> a \<and> a < dst + n then mem (src + (a - dst)) else mem a)"

definition load_bytes :: "memory \<Rightarrow> int \<Rightarrow> int \<Rightarrow> byte list" where
  "load_bytes mem p n = map mem [p..p + n - 1]"

section \<open>The operations\<close>

definition mk_smartiov :: "iovec list \<Rightarrow> smartiov" where
  "mk_smartiov iov = filter (\<lambda>v. 0 < iov_len v) iov"

definition mk_smartiov1 :: "int \<Rightarrow> int \<Rightarrow> smartiov" where
  "mk_smartiov1 p n = [\<lparr>iov_base = p, iov_len = n\<rparr>]"

definition push_iov :: "smartiov \<Rightarrow> iovec \<Rightarrow> smartiov" where
  "push_iov s v = s @ [v]"

definition ingest :: "smartiov \<Rightarrow> iovec list \<Rightarrow> smartiov" where
  "ingest s iov = s @ filter (\<lambda>v. 0 < iov_len v) iov"

definition bytes :: "smartiov \<Rightarrow> int" where
  "bytes s = foldl (\<lambda>sum v. ubf 64 (sum + iov_len v)) 0 s"

text \<open>
  The loop of \<^verbatim>\<open>slice\<close>, and of \<^verbatim>\<open>zero(off, limit)\<close>, over the elements of the list: the pieces
  of the elements that lie in the range. An element that ends exactly at \<^verbatim>\<open>off\<close> contributes an
  empty piece.
\<close>

fun slice_loop :: "smartiov \<Rightarrow> int \<Rightarrow> int \<Rightarrow> smartiov" where
  "slice_loop [] off len = []"
| "slice_loop (v # vs) off len =
     (if \<not> 0 < len then []
      else if iov_len v < off then slice_loop vs (off - iov_len v) len
      else
        let n = min len (iov_len v - off)
        in \<lparr>iov_base = iov_base v + off, iov_len = n\<rparr> # slice_loop vs 0 (len - n))"

definition iov_slice :: "smartiov \<Rightarrow> int \<Rightarrow> int \<Rightarrow> smartiov option" where
  "iov_slice s off lim = (if lim \<le> bytes s then Some (slice_loop s off (ubf 64 (lim - off))) else None)"

definition zero_all :: "memory \<Rightarrow> smartiov \<Rightarrow> memory" where
  "zero_all mem s = foldl (\<lambda>mem v. memset mem (iov_base v) 0 (iov_len v)) mem s"

definition zero_range :: "memory \<Rightarrow> smartiov \<Rightarrow> int \<Rightarrow> int \<Rightarrow> memory" where
  "zero_range mem s off lim = zero_all mem (slice_loop s off (ubf 64 (lim - off)))"

fun copy_in :: "memory \<Rightarrow> smartiov \<Rightarrow> int \<Rightarrow> memory" where
  "copy_in mem [] p = mem"
| "copy_in mem (v # vs) p = copy_in (memcpy mem (iov_base v) p (iov_len v)) vs (p + iov_len v)"

fun copy_in_loop :: "memory \<Rightarrow> smartiov \<Rightarrow> int \<Rightarrow> int \<Rightarrow> memory" where
  "copy_in_loop mem [] p remaining = mem"
| "copy_in_loop mem (v # vs) p remaining =
     (let to_copy = min remaining (iov_len v);
          mem' = memcpy mem (iov_base v) p to_copy
      in if remaining - to_copy = 0 then mem'
         else copy_in_loop mem' vs (p + iov_len v) (remaining - to_copy))"

definition copy_in_limit :: "memory \<Rightarrow> smartiov \<Rightarrow> int \<Rightarrow> int \<Rightarrow> memory option" where
  "copy_in_limit mem s p lim =
     (if lim = 0 then Some mem
      else if p = 0 then None
      else Some (copy_in_loop mem s p lim))"

fun copy_out :: "memory \<Rightarrow> smartiov \<Rightarrow> int \<Rightarrow> memory" where
  "copy_out mem [] p = mem"
| "copy_out mem (v # vs) p = copy_out (memcpy mem p (iov_base v) (iov_len v)) vs (p + iov_len v)"

definition aligned_iov :: "smartiov \<Rightarrow> int \<Rightarrow> bool" where
  "aligned_iov s n = list_all (\<lambda>v. iov_base v AND (n - 1) = 0) s"

section \<open>The addresses a list covers\<close>

definition addrs :: "smartiov \<Rightarrow> int list" where
  "addrs s = concat (map (\<lambda>v. [iov_base v..iov_base v + iov_len v - 1]) s)"

definition iov_ok :: "smartiov \<Rightarrow> bool" where
  "iov_ok s \<longleftrightarrow> list_all (\<lambda>v. 0 \<le> iov_len v) s \<and> length (addrs s) < 2 ^ 63"

lemma addrs_simps [simp]:
  "addrs [] = []" "addrs (v # vs) = [iov_base v..iov_base v + iov_len v - 1] @ addrs vs"
  "addrs (xs @ ys) = addrs xs @ addrs ys"
  by (simp_all add: addrs_def)

lemma upto_nth: "i < nat n \<Longrightarrow> [a..a + n - 1] ! i = a + int i"
  by (subst nth_upto) auto

lemma take_upto: "0 \<le> n \<Longrightarrow> n \<le> m \<Longrightarrow> take (nat n) [a..a + m - 1] = [a..a + n - 1]"
  by (rule nth_equalityI) (auto simp: upto_nth)

lemma drop_upto: "0 \<le> n \<Longrightarrow> n \<le> m \<Longrightarrow> drop (nat n) [a..a + m - 1] = [a + n..a + m - 1]"
  by (rule nth_equalityI) (auto simp: upto_nth nth_upto)

lemma slice_loop_0 [simp]: "slice_loop s off 0 = []"
  by (cases s) simp_all

lemma bytes_acc:
  assumes "list_all (\<lambda>v. 0 \<le> iov_len v) s" "0 \<le> acc" "acc + int (length (addrs s)) < 2 ^ 64"
  shows "foldl (\<lambda>sum v. ubf 64 (sum + iov_len v)) acc s = acc + int (length (addrs s))"
  using assms
proof (induction s arbitrary: acc)
  case (Cons v s)
  then have "ubf 64 (acc + iov_len v) = acc + iov_len v" by (intro ubf_id) simp_all
  then show ?case using Cons.IH [of "acc + iov_len v"] Cons.prems by simp
qed simp

lemma bytes_addrs: "iov_ok s \<Longrightarrow> bytes s = int (length (addrs s))"
  unfolding bytes_def using bytes_acc [of s 0] by (simp add: iov_ok_def)

lemma slice_loop_addrs:
  assumes "list_all (\<lambda>v. 0 \<le> iov_len v) s" "0 \<le> off" "0 \<le> len"
  shows "addrs (slice_loop s off len) = take (nat len) (drop (nat off) (addrs s))"
  using assms
proof (induction s off len rule: slice_loop.induct)
  case (2 v vs off len)
  let ?a = "iov_base v" and ?n = "iov_len v"
  consider "len = 0" | "0 < len" "?n < off" | "0 < len" "off \<le> ?n" using "2.prems" by linarith
  then show ?case
  proof cases
    case 2
    then have "nat off - nat ?n = nat (off - ?n)" "nat ?n < nat off" using "2.prems" by auto
    then show ?thesis using "2.IH"(1) 2 "2.prems" by simp
  next
    case 3
    let ?X = "[?a + off..?a + ?n - 1]"
    have dr: "drop (nat off) ([?a..?a + ?n - 1] @ addrs vs) = ?X @ addrs vs"
      using 3 "2.prems" drop_upto [of off ?n ?a] by simp
    have lX: "length ?X = nat (?n - off)" by simp
    show ?thesis
    proof (cases "len \<le> ?n - off")
      case True
      then have m: "min len (?n - off) = len" by simp
      have "take (nat len) ?X = [?a + off..?a + off + len - 1]"
        using take_upto [of len "?n - off" "?a + off"] True 3 by (simp add: algebra_simps)
      then show ?thesis using 3 True dr lX by (simp add: Let_def m not_less)
    next
      case False
      then have m: "min len (?n - off) = ?n - off" by simp
      have "addrs (slice_loop vs 0 (len - (?n - off))) = take (nat (len - (?n - off))) (addrs vs)"
        using "2.IH"(2) [OF _ _ m [symmetric]] 3 "2.prems" False by (simp add: not_less)
      moreover have "nat len - nat (?n - off) = nat (len - (?n - off))" using False 3 by simp
      ultimately show ?thesis using 3 False dr lX by (simp add: Let_def m not_less)
    qed
  qed simp
qed simp

lemma slice_loop_ok:
  assumes "list_all (\<lambda>v. 0 \<le> iov_len v) s" "0 \<le> off"
  shows "list_all (\<lambda>v. 0 \<le> iov_len v) (slice_loop s off len)"
  using assms by (induction s off len rule: slice_loop.induct) (auto simp: Let_def)

lemma iov_slice_addrs:
  assumes "iov_ok s" "0 \<le> off" "off \<le> lim" "lim \<le> bytes s"
  shows "iov_slice s off lim = Some (slice_loop s off (lim - off))"
    "addrs (slice_loop s off (lim - off)) = take (nat (lim - off)) (drop (nat off) (addrs s))"
    "iov_ok (slice_loop s off (lim - off))"
    "length (addrs (slice_loop s off (lim - off))) = nat (lim - off)"
proof -
  have b: "bytes s = int (length (addrs s))" "list_all (\<lambda>v. 0 \<le> iov_len v) s" "length (addrs s) < 2 ^ 63"
    using assms(1) bytes_addrs by (auto simp: iov_ok_def)
  have "ubf 64 (lim - off) = lim - off" using assms b by (intro ubf_id) simp_all
  then show "iov_slice s off lim = Some (slice_loop s off (lim - off))" using assms(4) by (simp add: iov_slice_def)
  show a: "addrs (slice_loop s off (lim - off)) = take (nat (lim - off)) (drop (nat off) (addrs s))"
    by (rule slice_loop_addrs) (use assms b in simp_all)
  show l: "length (addrs (slice_loop s off (lim - off))) = nat (lim - off)" using a assms b by simp
  show "iov_ok (slice_loop s off (lim - off))"
    using slice_loop_ok [OF b(2) assms(2)] l assms b by (simp add: iov_ok_def)
qed

section \<open>What the operations do to memory\<close>

lemma zero_all_addrs: "zero_all mem s a = (if a \<in> set (addrs s) then 0 else mem a)"
  unfolding zero_all_def by (induction s arbitrary: mem) (auto simp: memset_def)

lemma zero_range_addrs:
  assumes "iov_ok s" "0 \<le> off" "off \<le> lim" "lim < 2 ^ 64"
  shows "zero_range mem s off lim a =
    (if a \<in> set (take (nat (lim - off)) (drop (nat off) (addrs s))) then 0 else mem a)"
proof -
  have "ubf 64 (lim - off) = lim - off" using assms by (intro ubf_id) simp_all
  then show ?thesis
    using slice_loop_addrs [of s off "lim - off"] assms by (simp add: zero_range_def zero_all_addrs iov_ok_def)
qed

lemma addrs_apart:
  assumes "\<forall>a\<in>set (addrs (v # s)). a < p \<or> p + int (length (addrs (v # s))) \<le> a" "0 \<le> iov_len v"
  shows "\<forall>a\<in>set (addrs s). a < p + iov_len v \<or> p + iov_len v + int (length (addrs s)) \<le> a"
proof
  fix a assume "a \<in> set (addrs s)"
  then have "a < p \<or> p + int (length (addrs (v # s))) \<le> a" using assms(1) by simp
  then show "a < p + iov_len v \<or> p + iov_len v + int (length (addrs s)) \<le> a" using assms(2) by auto
qed

lemma copy_in_step:
  assumes "list_all (\<lambda>v. 0 \<le> iov_len v) s" "distinct (addrs s)"
    "\<forall>a\<in>set (addrs s). a < p \<or> p + int (length (addrs s)) \<le> a"
  shows "(\<forall>i<length (addrs s). copy_in mem s p (addrs s ! i) = mem (p + int i))
    \<and> (\<forall>a. a \<notin> set (addrs s) \<longrightarrow> copy_in mem s p a = mem a)"
  using assms
proof (induction s arbitrary: mem p)
  case (Cons v s)
  let ?m = "memcpy mem (iov_base v) p (iov_len v)"
  have n: "0 \<le> iov_len v" using Cons.prems(1) by simp
  note IH = Cons.IH [OF _ _ addrs_apart [OF Cons.prems(3) n], of ?m]
  have out: "copy_in ?m s (p + iov_len v) a = ?m a" if "a \<notin> set (addrs s)" for a
    using IH Cons.prems(1,2) that by simp
  have "copy_in mem (v # s) p (addrs (v # s) ! i) = mem (p + int i)" if i: "i < length (addrs (v # s))" for i
  proof (cases "i < nat (iov_len v)")
    case True
    then have a: "addrs (v # s) ! i = iov_base v + int i"
      using upto_nth [of i "iov_len v" "iov_base v"] by (simp add: nth_append)
    have "iov_base v + int i \<in> {iov_base v..iov_base v + iov_len v - 1}" using True by auto
    moreover have "{iov_base v..iov_base v + iov_len v - 1} \<inter> set (addrs s) = {}" using Cons.prems(2) by simp
    ultimately have "iov_base v + int i \<notin> set (addrs s)" by blast
    from out [OF this] show ?thesis unfolding a copy_in.simps using True by (auto simp: memcpy_def)
  next
    case False
    let ?j = "i - nat (iov_len v)"
    have j: "?j < length (addrs s)" "p + iov_len v + int ?j = p + int i" using False i n by auto
    have a: "addrs (v # s) ! i = addrs s ! ?j" using False by (simp add: nth_append)
    have "copy_in ?m s (p + iov_len v) (addrs s ! ?j) = ?m (p + int i)"
      using IH Cons.prems(1,2) j by simp
    moreover have "p + int i \<notin> {iov_base v..iov_base v + iov_len v - 1}"
      using Cons.prems(3) i by (auto dest: bspec [where x = "p + int i"])
    ultimately show ?thesis unfolding a copy_in.simps by (auto simp: memcpy_def)
  qed
  moreover have "copy_in mem (v # s) p a = mem a" if "a \<notin> set (addrs (v # s))" for a
    using out [of a] that by (auto simp: memcpy_def)
  ultimately show ?case by blast
qed simp

lemma copy_in_addrs:
  assumes "iov_ok s" "distinct (addrs s)"
    "\<forall>a\<in>set (addrs s). a < p \<or> p + int (length (addrs s)) \<le> a"
  shows "i < length (addrs s) \<Longrightarrow> copy_in mem s p (addrs s ! i) = mem (p + int i)"
    "a \<notin> set (addrs s) \<Longrightarrow> copy_in mem s p a = mem a"
  using copy_in_step [of s p mem] assms by (simp_all add: iov_ok_def)

lemma copy_out_addrs:
  assumes "list_all (\<lambda>v. 0 \<le> iov_len v) s"
    "\<forall>a\<in>set (addrs s). a < p \<or> p + int (length (addrs s)) \<le> a"
  shows "copy_out mem s p a =
    (if p \<le> a \<and> a < p + int (length (addrs s)) then mem (addrs s ! nat (a - p)) else mem a)"
  using assms
proof (induction s arbitrary: mem p)
  case (Cons v s)
  let ?m = "memcpy mem p (iov_base v) (iov_len v)"
  let ?n = "int (length (addrs s))"
  have n: "0 \<le> iov_len v" "list_all (\<lambda>v. 0 \<le> iov_len v) s" using Cons.prems by simp_all
  note d = addrs_apart [OF Cons.prems(2) n(1)]
  have same: "?m a = mem a" if "a \<in> set (addrs s)" for a
  proof -
    have "a < p \<or> p + int (length (addrs (v # s))) \<le> a" using Cons.prems(2) that by simp
    then show ?thesis using n by (auto simp: memcpy_def)
  qed
  have IH: "copy_out mem (v # s) p a =
    (if p + iov_len v \<le> a \<and> a < p + iov_len v + ?n then ?m (addrs s ! nat (a - (p + iov_len v))) else ?m a)"
    using Cons.IH [OF n(2) d] by simp
  consider "a < p \<or> p + iov_len v + ?n \<le> a" | "p \<le> a" "a < p + iov_len v" | "p + iov_len v \<le> a" "a < p + iov_len v + ?n"
    by linarith
  then show ?case
  proof cases
    case 1
    then show ?thesis using IH n by (auto simp: memcpy_def)
  next
    case 2
    then show ?thesis using IH n upto_nth [of "nat (a - p)" "iov_len v" "iov_base v"]
      by (auto simp: memcpy_def nth_append)
  next
    case 3
    let ?j = "nat (a - (p + iov_len v))"
    have "addrs s ! ?j \<in> set (addrs s)" using 3 by (intro nth_mem) simp
    moreover have "nat (a - p) - nat (iov_len v) = ?j" "\<not> nat (a - p) < nat (iov_len v)" using 3 n by auto
    then have "addrs (v # s) ! nat (a - p) = addrs s ! ?j"
      unfolding addrs_simps by (subst nth_append) auto
    ultimately show ?thesis using IH 3 n same by simp
  qed
qed auto

end
