(* ===== verification/Bytes.thy ===== *)
theory Bytes
  imports Smartiov
begin

text \<open>
  Byte buffers and the little-endian encoding of the integers that the packed structs consist of.
  A cast of a buffer position to a struct pointer is a decoding of the bytes from there on; an
  assignment through such a pointer replaces bytes of the buffer.
\<close>

fun le_bytes :: "nat \<Rightarrow> int \<Rightarrow> byte list" where
  "le_bytes 0 v = []"
| "le_bytes (Suc n) v = word_of_int v # le_bytes n (v div 256)"

fun of_le :: "byte list \<Rightarrow> int" where
  "of_le [] = 0"
| "of_le (b # bs) = uint b + 256 * of_le bs"

text \<open>The unsigned integer of \<open>n\<close> bytes at a position.\<close>

definition get_le :: "byte list \<Rightarrow> nat \<Rightarrow> nat \<Rightarrow> int" where
  "get_le buf off n = of_le (take n (drop off buf))"

definition get_bytes :: "byte list \<Rightarrow> nat \<Rightarrow> nat \<Rightarrow> byte list" where
  "get_bytes buf off n = take n (drop off buf)"

definition put_bytes :: "byte list \<Rightarrow> nat \<Rightarrow> byte list \<Rightarrow> byte list" where
  "put_bytes buf off bs = take off buf @ bs @ drop (off + length bs) buf"

text \<open>\<^verbatim>\<open>std::vector<byte>::resize\<close>, which adds zero bytes.\<close>

definition resize :: "byte list \<Rightarrow> nat \<Rightarrow> byte list" where
  "resize buf n = take n buf @ replicate (n - length buf) 0"

lemma length_le_bytes [simp]: "length (le_bytes n v) = n"
  by (induction n arbitrary: v) simp_all

lemma uint_byte_of_int: "uint (word_of_int v :: byte) = v mod 256"
  by (simp add: uint_word_of_int)

lemma of_le_bytes [simp]: "of_le (le_bytes n v) = v mod 256 ^ n"
proof (induction n arbitrary: v)
  case (Suc n)
  have "of_le (le_bytes (Suc n) v) = v mod 256 + 256 * (v div 256 mod 256 ^ n)"
    using Suc.IH [of "v div 256"] by (simp add: uint_byte_of_int)
  also have "\<dots> = v mod (256 * 256 ^ n)"
    by (simp add: zmod_zmult2_eq)
  finally show ?case by simp
qed simp

lemma of_le_range: "0 \<le> of_le bs \<and> of_le bs < 256 ^ length bs"
proof (induction bs)
  case (Cons b bs)
  have "uint b < 256" "0 \<le> uint b" using uint_lt2p [of b] by simp_all
  then show ?case using Cons.IH by auto
qed simp

lemma get_le_at:
  assumes "buf = pre @ le_bytes n v @ post" "off = length pre"
  shows "get_le buf off n = v mod 256 ^ n"
  by (simp add: get_le_def assms)

lemma get_bytes_at:
  assumes "buf = pre @ bs @ post" "off = length pre" "n = length bs"
  shows "get_bytes buf off n = bs"
  by (simp add: get_bytes_def assms)

lemma length_put_bytes [simp]: "off + length bs \<le> length buf \<Longrightarrow> length (put_bytes buf off bs) = length buf"
  by (simp add: put_bytes_def)

lemma length_resize [simp]: "length (resize buf n) = n"
  by (simp add: resize_def)

lemma get_put_same:
  "off + length bs \<le> length buf \<Longrightarrow> n = length bs \<Longrightarrow> get_bytes (put_bytes buf off bs) off n = bs"
  by (simp add: put_bytes_def get_bytes_def)

lemma get_put_other:
  assumes "off + length bs \<le> length buf" "o' + n \<le> off \<or> off + length bs \<le> o'"
  shows "get_bytes (put_bytes buf off bs) o' n = get_bytes buf o' n"
proof -
  have "length (put_bytes buf off bs) = length buf" using assms(1) by simp
  moreover have "put_bytes buf off bs ! (o' + i) = buf ! (o' + i)" if "i < n" for i
    using assms that by (auto simp: put_bytes_def nth_append)
  ultimately show ?thesis
    unfolding get_bytes_def by (intro nth_equalityI) auto
qed

lemma get_le_bytes: "get_le buf off n = of_le (get_bytes buf off n)"
  by (simp add: get_le_def get_bytes_def)

lemma get_le_put_same:
  "off + n \<le> length buf \<Longrightarrow> get_le (put_bytes buf off (le_bytes n v)) off n = v mod 256 ^ n"
  using get_put_same [of off "le_bytes n v" buf n] by (simp add: get_le_bytes)

lemma get_le_put_other:
  "off + length bs \<le> length buf \<Longrightarrow> o' + n \<le> off \<or> off + length bs \<le> o' \<Longrightarrow>
   get_le (put_bytes buf off bs) o' n = get_le buf o' n"
  by (simp add: get_le_bytes get_put_other)

text \<open>Arrays of fixed-size records.\<close>

definition get_array :: "(byte list \<Rightarrow> nat \<Rightarrow> 'a) \<Rightarrow> nat \<Rightarrow> byte list \<Rightarrow> nat \<Rightarrow> nat \<Rightarrow> 'a list" where
  "get_array dec sz buf off len = map (\<lambda>i. dec buf (off + i * sz)) [0..<len div sz]"

lemma concat_map_split:
  assumes "i < length xs" "\<And>x. length (enc x) = sz"
  shows "concat (map enc xs) = concat (map enc (take i xs)) @ enc (xs ! i) @ concat (map enc (drop (Suc i) xs))"
    "length (concat (map enc (take i xs))) = i * sz"
proof -
  have "xs = take i xs @ xs ! i # drop (Suc i) xs" using assms(1) by (rule id_take_nth_drop)
  then show "concat (map enc xs) = concat (map enc (take i xs)) @ enc (xs ! i) @ concat (map enc (drop (Suc i) xs))"
    by (metis concat.simps(2) concat_append list.simps(9) map_append)
  show "length (concat (map enc (take i xs))) = i * sz"
    using assms by (simp add: length_concat comp_def sum_list_triv)
qed

lemma length_concat_map: "(\<And>x. length (enc x) = sz) \<Longrightarrow> length (concat (map enc xs)) = length xs * sz"
  by (simp add: length_concat comp_def sum_list_triv)

lemma get_array_at:
  assumes buf: "buf = pre @ concat (map enc xs) @ post" and "off = length pre" "len = length xs * sz" "0 < sz"
    and sz: "\<And>x. length (enc x) = sz"
    and dec: "\<And>x p q. x \<in> set xs \<Longrightarrow> dec (p @ enc x @ q) (length p) = x"
  shows "get_array dec sz buf off len = xs"
proof (rule nth_equalityI)
  show l: "length (get_array dec sz buf off len) = length xs" using assms by (simp add: get_array_def)
  fix i assume "i < length (get_array dec sz buf off len)"
  then have i: "i < length xs" using l by simp
  note s = concat_map_split [OF i, of enc sz, OF sz]
  have "buf = (pre @ concat (map enc (take i xs))) @ enc (xs ! i) @ (concat (map enc (drop (Suc i) xs)) @ post)"
    using buf s(1) by simp
  moreover have "off + i * sz = length (pre @ concat (map enc (take i xs)))" using s(2) assms(2) by simp
  ultimately have "dec buf (off + i * sz) = xs ! i" using dec [of "xs ! i"] i by (metis nth_mem)
  then show "get_array dec sz buf off len ! i = xs ! i" using i assms(3,4) by (simp add: get_array_def)
qed

end
