(* ===== verification/Objects.thy ===== *)
theory Objects
  imports Bytes
begin

text \<open>
  The formats of the backend objects (\<^verbatim>\<open>objects.h\<close>) and the code that reads and writes their
  headers (\<^verbatim>\<open>objects.cc\<close>). Every packed struct is a record with its encoding and its decoding; all
  integers are little-endian. The object store is reached through a function \<open>rd\<close> that answers a
  read of \<open>len\<close> bytes at \<open>off\<close> of a named object with a return code (a byte count or a negative
  errno) and the bytes read.
\<close>

section \<open>Results\<close>

text \<open>\<open>Inl\<close>: the code throws. \<open>Inr None\<close>: it returns \<^verbatim>\<open>nullopt\<close>.\<close>

datatype exn = Errno int | Msg string

type_synonym 'a opt_result = "exn + 'a option"

type_synonym reader = "string \<Rightarrow> int \<Rightarrow> int \<Rightarrow> int \<times> byte list"

definition ENOENT :: int where
  "ENOENT = 2"

section \<open>Structs\<close>

definition LSVD_MAGIC :: int where
  "LSVD_MAGIC = 0x4456534c"

definition OBJ_SUPERBLOCK :: int where
  "OBJ_SUPERBLOCK = 1"

definition OBJ_LOGDATA :: int where
  "OBJ_LOGDATA = 2"

definition OBJ_CHECKPOINT :: int where
  "OBJ_CHECKPOINT = 3"

record common_obj_hdr =
  h_magic :: int
  h_version :: int
  h_vol_uuid :: "byte list"
  h_type :: int
  h_seq :: int
  h_hdr_sectors :: int
  h_data_sectors :: int
  h_crc :: int

definition sizeof_common_obj_hdr :: nat where
  "sizeof_common_obj_hdr = 44"

definition enc_common_obj_hdr :: "common_obj_hdr \<Rightarrow> byte list" where
  "enc_common_obj_hdr h =
     le_bytes 4 (h_magic h) @ le_bytes 4 (h_version h) @ h_vol_uuid h @ le_bytes 4 (h_type h)
     @ le_bytes 4 (h_seq h) @ le_bytes 4 (h_hdr_sectors h) @ le_bytes 4 (h_data_sectors h)
     @ le_bytes 4 (h_crc h)"

definition dec_common_obj_hdr :: "byte list \<Rightarrow> nat \<Rightarrow> common_obj_hdr" where
  "dec_common_obj_hdr buf p =
     \<lparr>h_magic = get_le buf p 4, h_version = get_le buf (p + 4) 4, h_vol_uuid = get_bytes buf (p + 8) 16,
      h_type = get_le buf (p + 24) 4, h_seq = get_le buf (p + 28) 4,
      h_hdr_sectors = get_le buf (p + 32) 4, h_data_sectors = get_le buf (p + 36) 4,
      h_crc = get_le buf (p + 40) 4\<rparr>"

record super_hdr =
  su_vol_size :: int
  su_ckpts_offset :: int
  su_ckpts_len :: int
  su_clones_offset :: int
  su_clones_len :: int
  su_snaps_offset :: int
  su_snaps_len :: int

definition sizeof_super_hdr :: nat where
  "sizeof_super_hdr = 32"

definition dec_super_hdr :: "byte list \<Rightarrow> nat \<Rightarrow> super_hdr" where
  "dec_super_hdr buf p =
     \<lparr>su_vol_size = get_le buf p 8, su_ckpts_offset = get_le buf (p + 8) 4,
      su_ckpts_len = get_le buf (p + 12) 4, su_clones_offset = get_le buf (p + 16) 4,
      su_clones_len = get_le buf (p + 20) 4, su_snaps_offset = get_le buf (p + 24) 4,
      su_snaps_len = get_le buf (p + 28) 4\<rparr>"

text \<open>\<^verbatim>\<open>clone_info\<close> and \<^verbatim>\<open>snap_info\<close> end in a name of \<^verbatim>\<open>name_len\<close> bytes.\<close>

record clone_info =
  ci_vol_uuid :: "byte list"
  ci_last_seq :: int
  ci_name :: "byte list"

definition sizeof_clone_info :: nat where
  "sizeof_clone_info = 21"

definition dec_clone_info :: "byte list \<Rightarrow> nat \<Rightarrow> clone_info" where
  "dec_clone_info buf p =
     \<lparr>ci_vol_uuid = get_bytes buf p 16, ci_last_seq = get_le buf (p + 16) 4,
      ci_name = get_bytes buf (p + 21) (nat (get_le buf (p + 20) 1))\<rparr>"

record snap_info =
  si_seq :: int
  si_name :: "byte list"

definition sizeof_snap_info :: nat where
  "sizeof_snap_info = 5"

definition dec_snap_info :: "byte list \<Rightarrow> nat \<Rightarrow> snap_info" where
  "dec_snap_info buf p =
     \<lparr>si_seq = get_le buf p 4, si_name = get_bytes buf (p + 5) (nat (get_le buf (p + 4) 1))\<rparr>"

record obj_data_hdr =
  d_cache_seq :: int
  d_objs_cleaned_offset :: int
  d_objs_cleaned_len :: int
  d_data_map_offset :: int
  d_data_map_len :: int
  d_is_gc :: int

definition sizeof_obj_data_hdr :: nat where
  "sizeof_obj_data_hdr = 28"

definition enc_obj_data_hdr :: "obj_data_hdr \<Rightarrow> byte list" where
  "enc_obj_data_hdr h =
     le_bytes 8 (d_cache_seq h) @ le_bytes 4 (d_objs_cleaned_offset h) @ le_bytes 4 (d_objs_cleaned_len h)
     @ le_bytes 4 (d_data_map_offset h) @ le_bytes 4 (d_data_map_len h) @ le_bytes 4 (d_is_gc h)"

definition dec_obj_data_hdr :: "byte list \<Rightarrow> nat \<Rightarrow> obj_data_hdr" where
  "dec_obj_data_hdr buf p =
     \<lparr>d_cache_seq = get_le buf p 8, d_objs_cleaned_offset = get_le buf (p + 8) 4,
      d_objs_cleaned_len = get_le buf (p + 12) 4, d_data_map_offset = get_le buf (p + 16) 4,
      d_data_map_len = get_le buf (p + 20) 4, d_is_gc = get_le buf (p + 24) 4\<rparr>"

record obj_cleaned =
  oc_seq :: int
  oc_was_deleted :: int

definition dec_obj_cleaned :: "byte list \<Rightarrow> nat \<Rightarrow> obj_cleaned" where
  "dec_obj_cleaned buf p = \<lparr>oc_seq = get_le buf p 4, oc_was_deleted = get_le buf (p + 4) 4\<rparr>"

text \<open>Two bit fields in one 64-bit unit, the first in the low bits.\<close>

record data_map =
  dm_lba :: int
  dm_len :: int

definition mk_data_map :: "int \<Rightarrow> int \<Rightarrow> data_map" where
  "mk_data_map lba len = \<lparr>dm_lba = ubf 36 lba, dm_len = ubf 28 len\<rparr>"

definition enc_data_map :: "data_map \<Rightarrow> byte list" where
  "enc_data_map m = le_bytes 8 (dm_lba m + 2 ^ 36 * dm_len m)"

definition dec_data_map :: "byte list \<Rightarrow> nat \<Rightarrow> data_map" where
  "dec_data_map buf p = (let v = get_le buf p 8 in \<lparr>dm_lba = v mod 2 ^ 36, dm_len = v div 2 ^ 36\<rparr>)"

record obj_ckpt_hdr =
  c_cache_seq :: int
  c_ckpts_offset :: int
  c_ckpts_len :: int
  c_objs_offset :: int
  c_objs_len :: int
  c_deletes_offset :: int
  c_deletes_len :: int
  c_map_offset :: int
  c_map_len :: int

definition sizeof_obj_ckpt_hdr :: nat where
  "sizeof_obj_ckpt_hdr = 40"

definition enc_obj_ckpt_hdr :: "obj_ckpt_hdr \<Rightarrow> byte list" where
  "enc_obj_ckpt_hdr h =
     le_bytes 8 (c_cache_seq h) @ le_bytes 4 (c_ckpts_offset h) @ le_bytes 4 (c_ckpts_len h)
     @ le_bytes 4 (c_objs_offset h) @ le_bytes 4 (c_objs_len h) @ le_bytes 4 (c_deletes_offset h)
     @ le_bytes 4 (c_deletes_len h) @ le_bytes 4 (c_map_offset h) @ le_bytes 4 (c_map_len h)"

definition dec_obj_ckpt_hdr :: "byte list \<Rightarrow> nat \<Rightarrow> obj_ckpt_hdr" where
  "dec_obj_ckpt_hdr buf p =
     \<lparr>c_cache_seq = get_le buf p 8, c_ckpts_offset = get_le buf (p + 8) 4,
      c_ckpts_len = get_le buf (p + 12) 4, c_objs_offset = get_le buf (p + 16) 4,
      c_objs_len = get_le buf (p + 20) 4, c_deletes_offset = get_le buf (p + 24) 4,
      c_deletes_len = get_le buf (p + 28) 4, c_map_offset = get_le buf (p + 32) 4,
      c_map_len = get_le buf (p + 36) 4\<rparr>"

record ckpt_obj =
  co_seq :: int
  co_hdr_sectors :: int
  co_data_sectors :: int
  co_live_sectors :: int

definition enc_ckpt_obj :: "ckpt_obj \<Rightarrow> byte list" where
  "enc_ckpt_obj c =
     le_bytes 4 (co_seq c) @ le_bytes 4 (co_hdr_sectors c) @ le_bytes 4 (co_data_sectors c)
     @ le_bytes 4 (co_live_sectors c)"

definition dec_ckpt_obj :: "byte list \<Rightarrow> nat \<Rightarrow> ckpt_obj" where
  "dec_ckpt_obj buf p =
     \<lparr>co_seq = get_le buf p 4, co_hdr_sectors = get_le buf (p + 4) 4,
      co_data_sectors = get_le buf (p + 8) 4, co_live_sectors = get_le buf (p + 12) 4\<rparr>"

record deferred_delete =
  dd_seq :: int
  dd_time :: int

definition dec_deferred_delete :: "byte list \<Rightarrow> nat \<Rightarrow> deferred_delete" where
  "dec_deferred_delete buf p = \<lparr>dd_seq = get_le buf p 4, dd_time = get_le buf (p + 4) 4\<rparr>"

record ckpt_mapentry =
  me_lba :: int
  me_len :: int
  me_obj :: int
  me_offset :: int

definition mk_ckpt_mapentry :: "int \<Rightarrow> int \<Rightarrow> int \<Rightarrow> int \<Rightarrow> ckpt_mapentry" where
  "mk_ckpt_mapentry lba len ob off =
     \<lparr>me_lba = sbf 36 lba, me_len = sbf 28 len, me_obj = sbf 32 ob, me_offset = sbf 32 off\<rparr>"

definition enc_ckpt_mapentry :: "ckpt_mapentry \<Rightarrow> byte list" where
  "enc_ckpt_mapentry m =
     le_bytes 8 (ubf 36 (me_lba m) + 2 ^ 36 * ubf 28 (me_len m)) @ le_bytes 4 (me_obj m)
     @ le_bytes 4 (me_offset m)"

definition dec_ckpt_mapentry :: "byte list \<Rightarrow> nat \<Rightarrow> ckpt_mapentry" where
  "dec_ckpt_mapentry buf p =
     (let v = get_le buf p 8
      in \<lparr>me_lba = sbf 36 v, me_len = sbf 28 (v div 2 ^ 36), me_obj = sbf 32 (get_le buf (p + 8) 4),
          me_offset = sbf 32 (get_le buf (p + 12) 4)\<rparr>)"

record clone_base =
  cb_name :: string
  cb_last_seq :: int
  cb_first_seq :: int

record data_obj_info =
  oi_hdr :: int
  oi_data :: int
  oi_live :: int

definition str_bytes :: "string \<Rightarrow> byte list" where
  "str_bytes s = map of_char s"

definition bytes_str :: "byte list \<Rightarrow> string" where
  "bytes_str bs = map (\<lambda>b. char_of (unat b)) bs"

section \<open>Names\<close>

text \<open>\<^verbatim>\<open>fmt::format("{}.{:08x}", prefix, seq)\<close> of a 32-bit number.\<close>

definition hex_digit :: "int \<Rightarrow> char" where
  "hex_digit n = char_of (nat (if n < 10 then 48 + n else 87 + n))"

fun hex_digits :: "nat \<Rightarrow> int \<Rightarrow> string" where
  "hex_digits 0 v = []"
| "hex_digits (Suc n) v = hex_digits n (v div 16) @ [hex_digit (v mod 16)]"

definition oname :: "string \<Rightarrow> int \<Rightarrow> string" where
  "oname prefix seq = prefix @ ''.'' @ hex_digits 8 (ubf 32 seq)"

section \<open>Writing\<close>

definition serialise_common_hdr ::
  "byte list \<Rightarrow> int \<Rightarrow> int \<Rightarrow> int \<Rightarrow> int \<Rightarrow> byte list \<Rightarrow> byte list" where
  "serialise_common_hdr buf t s hdr data uuid =
     (let buf1 = (if length buf < sizeof_common_obj_hdr then resize buf sizeof_common_obj_hdr else buf)
      in put_bytes buf1 0 (enc_common_obj_hdr
           \<lparr>h_magic = LSVD_MAGIC, h_version = 1, h_vol_uuid = uuid, h_type = t, h_seq = s,
            h_hdr_sectors = hdr, h_data_sectors = data, h_crc = 0\<rparr>))"

text \<open>\<^verbatim>\<open>uuid_copy\<close> from a null pointer is a null dereference: \<open>None\<close>.\<close>

definition uuid_copy :: "byte list \<Rightarrow> nat \<Rightarrow> byte list option \<Rightarrow> byte list option" where
  "uuid_copy buf p src = map_option (put_bytes buf p) src"

text \<open>The positions of the fields of \<^verbatim>\<open>super_hdr\<close> in the superblock.\<close>

definition sb_vol_size :: nat where "sb_vol_size = 44"
definition sb_ckpts_offset :: nat where "sb_ckpts_offset = 52"
definition sb_ckpts_len :: nat where "sb_ckpts_len = 56"
definition sb_clones_offset :: nat where "sb_clones_offset = 60"
definition sb_clones_len :: nat where "sb_clones_len = 64"
definition sb_snaps_offset :: nat where "sb_snaps_offset = 68"
definition sb_snaps_len :: nat where "sb_snaps_len = 72"

lemmas sb_fields = sb_vol_size_def sb_ckpts_offset_def sb_ckpts_len_def sb_clones_offset_def
  sb_clones_len_def sb_snaps_offset_def sb_snaps_len_def

definition sb_req_size :: "int list \<Rightarrow> clone_base list \<Rightarrow> int" where
  "sb_req_size checkpoints clones =
     (let n = int (sizeof_common_obj_hdr + sizeof_super_hdr) + int (length checkpoints) * 4
            + sum_list (map (\<lambda>c. int sizeof_clone_info + round_up (int (length (cb_name c))) 8) clones)
      in round_up (max n 8) 512)"

fun serialise_clones :: "byte list \<Rightarrow> nat \<Rightarrow> clone_base list \<Rightarrow> (byte list \<times> nat) option" where
  "serialise_clones buf p [] = Some (buf, p)"
| "serialise_clones buf p (c # cs) =
     (let padded = round_up (int (length (cb_name c))) 8;
          record_len = int sizeof_clone_info + padded
      in case uuid_copy (put_bytes buf (p + 16) (le_bytes 4 (cb_last_seq c))) p None of
           None \<Rightarrow> None
         | Some buf1 \<Rightarrow>
             let buf2 = put_bytes buf1 (p + 20) (le_bytes 1 padded);
                 buf3 = put_bytes buf2 (p + 21) (replicate (nat padded) 0);
                 buf4 = put_bytes buf3 (p + 21) (str_bytes (cb_name c));
                 buf5 = put_bytes buf4 sb_clones_len (le_bytes 4 (get_le buf4 sb_clones_len 4 + record_len))
             in serialise_clones buf5 (p + nat record_len) cs)"

definition serialise_superblock ::
  "byte list \<Rightarrow> int list \<Rightarrow> clone_base list \<Rightarrow> byte list \<Rightarrow> int \<Rightarrow> byte list option" where
  "serialise_superblock buf checkpoints clones uuid vol_size =
     (let req_size = sb_req_size checkpoints clones;
          buf1 = (if length buf < nat req_size then resize buf (nat req_size) else buf);
          buf2 = put_bytes buf1 sb_vol_size (le_bytes 8 (vol_size div 512));
          buf3 = serialise_common_hdr buf2 OBJ_SUPERBLOCK 0 (req_size div 512) 0 uuid;
          clonep = sizeof_common_obj_hdr + sizeof_super_hdr;
          buf4 = put_bytes buf3 sb_clones_offset (le_bytes 4 (int clonep))
      in case serialise_clones buf4 clonep clones of
           None \<Rightarrow> None
         | Some (buf5, p) \<Rightarrow>
             let buf6 = put_bytes buf5 sb_ckpts_offset (le_bytes 4 (int p));
                 buf7 = put_bytes buf6 sb_ckpts_len (le_bytes 4 (int (length checkpoints) * 4));
                 buf8 = put_bytes buf7 p (concat (map (le_bytes 4) checkpoints));
                 buf9 = put_bytes buf8 sb_snaps_offset (le_bytes 4 0)
             in Some (put_bytes buf9 sb_snaps_len (le_bytes 4 0)))"

section \<open>Reading\<close>

text \<open>
  When the header is longer than 4096 bytes, the code reads it into storage that \<^verbatim>\<open>reserve\<close> has
  allocated behind the end of the vector. The model returns that storage.
\<close>

definition fetch_object_header :: "reader \<Rightarrow> string \<Rightarrow> byte list opt_result" where
  "fetch_object_header rd objname =
     (let (err, bs) = rd objname 0 4096; buf = put_bytes (replicate 4096 0) 0 bs
      in if err = - ENOENT then Inr None
         else if err < 0 then Inl (Errno (- err))
         else if err < 512 then Inl (Msg ''Short read'')
         else
           let h = dec_common_obj_hdr buf 0
           in if h_magic h \<noteq> LSVD_MAGIC \<or> h_version h \<noteq> 1 then Inr None
              else if h_hdr_sectors h \<le> 8 then Inr (Some buf)
              else
                let len = ubf 32 (h_hdr_sectors h * 512);
                    (err2, bs2) = rd objname 0 len
                in if err2 \<noteq> len then Inr None else Inr (Some bs2))"

text \<open>
  \<^verbatim>\<open>deserialise_ptrs_with_len\<close>: the positions of the records of a sequence, each \<open>sz\<close> bytes plus a
  name whose length is the byte at \<open>nl\<close>. Each record is at least one byte long, so the length of the
  sequence bounds the rounds.
\<close>

fun ptrs_with_len :: "nat \<Rightarrow> nat \<Rightarrow> nat \<Rightarrow> byte list \<Rightarrow> nat \<Rightarrow> nat \<Rightarrow> nat list" where
  "ptrs_with_len 0 sz nl buf p e = []"
| "ptrs_with_len (Suc n) sz nl buf p e =
     (if p < e then p # ptrs_with_len n sz nl buf (p + sz + nat (get_le buf (p + nl) 1)) e else [])"

definition deserialise_ptrs_with_len ::
  "(byte list \<Rightarrow> nat \<Rightarrow> 'a) \<Rightarrow> nat \<Rightarrow> nat \<Rightarrow> byte list \<Rightarrow> int \<Rightarrow> int \<Rightarrow> 'a list" where
  "deserialise_ptrs_with_len dec sz nl buf off len =
     map (dec buf) (ptrs_with_len (nat len) sz nl buf (nat off) (nat off + nat len))"

text \<open>\<^verbatim>\<open>deserialise_cpy\<close> and \<^verbatim>\<open>deserialise_ptrs\<close>.\<close>

definition deserialise_array :: "(byte list \<Rightarrow> nat \<Rightarrow> 'a) \<Rightarrow> nat \<Rightarrow> byte list \<Rightarrow> int \<Rightarrow> int \<Rightarrow> 'a list" where
  "deserialise_array dec sz buf off len = get_array dec sz buf (nat off) (nat len)"

definition dec_u32 :: "byte list \<Rightarrow> nat \<Rightarrow> int" where
  "dec_u32 buf p = get_le buf p 4"

record parsed_superblock =
  ps_vol_size :: int
  ps_ckpts :: "int list"
  ps_clones :: "clone_info list"
  ps_snaps :: "snap_info list"
  ps_uuid :: "byte list"

definition read_superblock :: "(string \<Rightarrow> byte list option) \<Rightarrow> string \<Rightarrow> parsed_superblock option" where
  "read_superblock read_whole_obj objname =
     (case read_whole_obj objname of
        None \<Rightarrow> None
      | Some buf \<Rightarrow>
          let h = dec_common_obj_hdr buf 0; sh = dec_super_hdr buf sizeof_common_obj_hdr
          in if h_magic h \<noteq> LSVD_MAGIC then None
             else if h_version h \<noteq> 1 then None
             else if h_type h \<noteq> OBJ_SUPERBLOCK then None
             else Some
               \<lparr>ps_vol_size = su_vol_size sh * 512,
                ps_ckpts = deserialise_array dec_u32 4 buf (su_ckpts_offset sh) (su_ckpts_len sh),
                ps_clones = deserialise_ptrs_with_len dec_clone_info sizeof_clone_info 20 buf
                              (su_clones_offset sh) (su_clones_len sh),
                ps_snaps = deserialise_ptrs_with_len dec_snap_info sizeof_snap_info 4 buf
                              (su_snaps_offset sh) (su_snaps_len sh),
                ps_uuid = h_vol_uuid h\<rparr>)"

record parsed_data_hdr =
  pd_hdr :: common_obj_hdr
  pd_data_hdr :: obj_data_hdr
  pd_cleaned :: "obj_cleaned list"
  pd_data_map :: "data_map list"

definition parse_data_hdr :: "byte list \<Rightarrow> parsed_data_hdr option" where
  "parse_data_hdr buf =
     (let h = dec_common_obj_hdr buf 0; dh = dec_obj_data_hdr buf sizeof_common_obj_hdr
      in if h_type h \<noteq> OBJ_LOGDATA then None
         else Some
           \<lparr>pd_hdr = h, pd_data_hdr = dh,
            pd_cleaned = deserialise_array dec_obj_cleaned 8 buf (d_objs_cleaned_offset dh) (d_objs_cleaned_len dh),
            pd_data_map = deserialise_array dec_data_map 8 buf (d_data_map_offset dh) (d_data_map_len dh)\<rparr>)"

definition read_data_hdr :: "reader \<Rightarrow> string \<Rightarrow> parsed_data_hdr opt_result" where
  "read_data_hdr rd objname =
     (case fetch_object_header rd objname of
        Inl e \<Rightarrow> Inl e | Inr None \<Rightarrow> Inr None | Inr (Some buf) \<Rightarrow> Inr (parse_data_hdr buf))"

record parsed_checkpoint =
  pc_hdr :: common_obj_hdr
  pc_ckpt_hdr :: obj_ckpt_hdr
  pc_ckpts :: "int list"
  pc_objects :: "ckpt_obj list"
  pc_deletes :: "deferred_delete list"
  pc_dmap :: "ckpt_mapentry list"

definition parse_checkpoint :: "byte list \<Rightarrow> parsed_checkpoint option" where
  "parse_checkpoint buf =
     (let h = dec_common_obj_hdr buf 0; ch = dec_obj_ckpt_hdr buf sizeof_common_obj_hdr
      in if h_type h \<noteq> OBJ_CHECKPOINT then None
         else Some
           \<lparr>pc_hdr = h, pc_ckpt_hdr = ch,
            pc_ckpts = deserialise_array dec_u32 4 buf (c_ckpts_offset ch) (c_ckpts_len ch),
            pc_objects = deserialise_array dec_ckpt_obj 16 buf (c_objs_offset ch) (c_objs_len ch),
            pc_deletes = deserialise_array dec_deferred_delete 8 buf (c_deletes_offset ch) (c_deletes_len ch),
            pc_dmap = deserialise_array dec_ckpt_mapentry 16 buf (c_map_offset ch) (c_map_len ch)\<rparr>)"

definition read_checkpoint :: "reader \<Rightarrow> string \<Rightarrow> parsed_checkpoint opt_result" where
  "read_checkpoint rd objname =
     (case fetch_object_header rd objname of
        Inl e \<Rightarrow> Inl e | Inr None \<Rightarrow> Inr None | Inr (Some buf) \<Rightarrow> Inr (parse_checkpoint buf))"

end
