(* ===== verification/Translate.thy ===== *)
theory Translate
  imports Config Sector_Map Objects "HOL-Library.RBT"
begin

text \<open>
  The object translation layer (\<^verbatim>\<open>translate.cc\<close>): batches of writes, the work queue, and the
  operations of the worker thread. \<^verbatim>\<open>std::map\<close> is a red-black tree, the work queue a list, memory
  is explicit, and requests to the object store and to the read cache are recorded in the order in
  which they are made. A failed assertion is \<open>None\<close>. Addresses returned by \<^verbatim>\<open>malloc\<close> are arguments.
\<close>

section \<open>Data\<close>

datatype work_type = REQ_PUT | REQ_FLUSH | REQ_CKPT | REQ_GC

record translate_req =
  tr_op :: work_type
  tr_done :: bool
  tr_batch_buf :: int
  tr_data_ptr :: int
  tr_len :: int
  tr_max :: int
  tr_gc_data :: "byte list"
  tr_entries :: "ckpt_mapentry list"
  tr_local_buf_base :: int
  tr_local_buf_limit :: int
  tr_seq :: int

text \<open>What is asked of the object store and of the read cache.\<close>

datatype be_req =
    Aio_write string "byte list" translate_req
  | Be_write string "byte list"
  | Be_delete string
  | Aio_delete string
  | Rcache_insert string int "byte list"

record tstate =
  t_name :: string
  t_cfg :: lsvd_config
  t_vol_size :: int
  t_uuid :: "byte list"
  t_mem :: memory
  t_objmap :: objmap
  t_bufmap :: bufmap
  t_cur_seq :: int
  t_ckpt_cache_seq :: int
  t_current :: translate_req
  t_queue :: "translate_req list"
  t_clones :: "clone_base list"
  t_object_info :: "(int, data_obj_info) rbt"
  t_checkpoints :: "int list"
  t_outstanding_writes :: int
  t_obj_read_refcount :: "(int, int) rbt"
  t_superblock_buf :: "byte list"
  t_total_sectors :: int
  t_total_live_sectors :: int
  t_gc_cycles :: int
  t_gc_sectors_read :: int
  t_gc_sectors_written :: int
  t_gc_deleted :: int
  t_out :: "be_req list"

section \<open>Batches\<close>

text \<open>\<^verbatim>\<open>translate_req(REQ_PUT, bytes, tx)\<close>; \<open>p\<close> is what \<^verbatim>\<open>malloc\<close> returns.\<close>

definition max_hdr_bytes :: "int \<Rightarrow> int" where
  "max_hdr_bytes n = sbf 32 (1024 + n div 2048 * 8)"

definition new_put_req :: "int \<Rightarrow> int \<Rightarrow> translate_req" where
  "new_put_req p n =
     \<lparr>tr_op = REQ_PUT, tr_done = False, tr_batch_buf = p, tr_data_ptr = p + max_hdr_bytes n, tr_len = 0,
      tr_max = n, tr_gc_data = [], tr_entries = [], tr_local_buf_base = p + max_hdr_bytes n,
      tr_local_buf_limit = p + max_hdr_bytes n + n, tr_seq = 0\<rparr>"

definition new_req :: "work_type \<Rightarrow> translate_req" where
  "new_req op =
     \<lparr>tr_op = op, tr_done = False, tr_batch_buf = 0, tr_data_ptr = 0, tr_len = 0, tr_max = 0,
      tr_gc_data = [], tr_entries = [], tr_local_buf_base = 0, tr_local_buf_limit = 0, tr_seq = 0\<rparr>"

definition tr_room :: "translate_req \<Rightarrow> int \<Rightarrow> bool" where
  "tr_room r n \<longleftrightarrow> tr_len r + n \<le> tr_max r"

definition tr_append :: "translate_req \<Rightarrow> int \<Rightarrow> smartiov \<Rightarrow> memory \<Rightarrow> translate_req \<times> memory \<times> int" where
  "tr_append r lba iov mem =
     (let n = bytes iov; p = tr_data_ptr r + tr_len r
      in (r\<lparr>tr_entries := tr_entries r @ [mk_ckpt_mapentry lba (n div 512) 0 0], tr_len := tr_len r + n\<rparr>,
          copy_out mem iov p, p))"

section \<open>Object names and headers\<close>

definition prefix :: "tstate \<Rightarrow> int \<Rightarrow> string option" where
  "prefix st seq =
     (if t_clones st = [] \<or> cb_last_seq (hd (t_clones st)) < seq then Some (t_name st)
      else map_option cb_name (find (\<lambda>c. cb_first_seq c \<le> seq) (t_clones st)))"

text \<open>
  \<^verbatim>\<open>make_obj_hdr\<close>: the bytes it leaves in the header's sectors. The checksum is zlib's, an
  argument of the model; it is taken while the field is still zero.
\<close>

definition obj_hdr_bytes ::
  "byte list \<Rightarrow> int \<Rightarrow> int \<Rightarrow> int \<Rightarrow> data_map list \<Rightarrow> bool \<Rightarrow> int \<Rightarrow> byte list" where
  "obj_hdr_bytes uuid seq hdr_sectors data_sectors extents is_gc crc =
     (let map_offset = int (sizeof_common_obj_hdr + sizeof_obj_data_hdr);
          map_len = int (length extents) * 8;
          hdr_bytes = map_offset + map_len
      in enc_common_obj_hdr
           \<lparr>h_magic = LSVD_MAGIC, h_version = 1, h_vol_uuid = uuid, h_type = OBJ_LOGDATA, h_seq = seq,
            h_hdr_sectors = hdr_sectors, h_data_sectors = data_sectors, h_crc = crc\<rparr>
         @ enc_obj_data_hdr
           \<lparr>d_cache_seq = 0, d_objs_cleaned_offset = 0, d_objs_cleaned_len = 0,
            d_data_map_offset = map_offset, d_data_map_len = map_len, d_is_gc = (if is_gc then 1 else 0)\<rparr>
         @ concat (map enc_data_map extents)
         @ replicate (nat (512 * hdr_sectors - hdr_bytes)) 0)"

definition make_obj_hdr ::
  "(byte list \<Rightarrow> int) \<Rightarrow> byte list \<Rightarrow> int \<Rightarrow> int \<Rightarrow> int \<Rightarrow> data_map list \<Rightarrow> bool \<Rightarrow> byte list option" where
  "make_obj_hdr zcrc uuid seq hdr_sectors data_sectors extents is_gc =
     (if int (sizeof_common_obj_hdr + sizeof_obj_data_hdr) + int (length extents) * 8 \<le> hdr_sectors * 512
      then
        let h0 = obj_hdr_bytes uuid seq hdr_sectors data_sectors extents is_gc 0
        in Some (obj_hdr_bytes uuid seq hdr_sectors data_sectors extents is_gc (zcrc h0))
      else None)"

definition store_bytes :: "memory \<Rightarrow> int \<Rightarrow> byte list \<Rightarrow> memory" where
  "store_bytes mem p bs = (\<lambda>a. if p \<le> a \<and> a < p + int (length bs) then bs ! nat (a - p) else mem a)"

section \<open>Writes and trims\<close>

text \<open>\<open>p\<close> is the address of the next batch buffer, should one be allocated.\<close>

definition roll_batch :: "int \<Rightarrow> tstate \<Rightarrow> tstate" where
  "roll_batch p st =
     st\<lparr>t_queue := t_queue st @ [t_current st], t_current := new_put_req p (backend_obj_bytes (t_cfg st))\<rparr>"

definition writev :: "int \<Rightarrow> tstate \<Rightarrow> int \<Rightarrow> iovec list \<Rightarrow> tstate option" where
  "writev p st off iov =
     (let siov = mk_smartiov iov; n = bytes siov; base = off div 512; lim = (off + n) div 512;
          st1 = (if \<not> tr_room (t_current st) n then roll_batch p st else st);
          (cur, mem, ptr) = tr_append (t_current st1) base siov (t_mem st1)
      in if tr_local_buf_base cur \<le> ptr \<and> ptr + (lim - base) * 512 \<le> tr_local_buf_limit cur \<and> ptr \<noteq> 0
         then Some (st1\<lparr>t_current := cur, t_mem := mem,
                        t_bufmap := update lba2buf (t_bufmap st1) base lim (Sector_ptr ptr)\<rparr>)
         else None)"

text \<open>
  The accounting loop over discarded extents that \<^verbatim>\<open>trim\<close>, \<^verbatim>\<open>write_gc\<close> and \<^verbatim>\<open>process_batch\<close>
  share: the object table and the total of live sectors.
\<close>

fun drop_live ::
  "obj_offset extent list \<Rightarrow> (int, data_obj_info) rbt \<times> int \<Rightarrow> ((int, data_obj_info) rbt \<times> int) option" where
  "drop_live [] acc = Some acc"
| "drop_live (d # ds) (info, tot) =
     (let (base, lim, ptr) = vals d
      in case RBT.lookup info (obj ptr) of
           None \<Rightarrow> drop_live ds (info, tot)
         | Some oi \<Rightarrow>
             let oi' = oi\<lparr>oi_live := oi_live oi - (lim - base)\<rparr>
             in if 0 \<le> oi_live oi'
                then drop_live ds (RBT.insert (obj ptr) oi' info, tot - (lim - base))
                else None)"

definition trim_xl :: "obj_offset \<Rightarrow> tstate \<Rightarrow> int \<Rightarrow> int \<Rightarrow> tstate option" where
  "trim_xl u st off len =
     (let (om, deleted) = trim_del lba2obj u (t_objmap st) (off div 512) ((off + len) div 512) []
      in map_option (\<lambda>(info, tot). st\<lparr>t_objmap := om, t_object_info := info, t_total_live_sectors := tot\<rparr>)
           (drop_live deleted (t_object_info st, t_total_live_sectors st)))"

section \<open>Read pins\<close>

definition object_read_start :: "tstate \<Rightarrow> int \<Rightarrow> tstate" where
  "object_read_start st ob =
     st\<lparr>t_obj_read_refcount :=
       (case RBT.lookup (t_obj_read_refcount st) ob of
          None \<Rightarrow> RBT.insert ob 0 (t_obj_read_refcount st)
        | Some n \<Rightarrow> RBT.insert ob (n + 1) (t_obj_read_refcount st))\<rparr>"

definition object_read_end :: "tstate \<Rightarrow> int \<Rightarrow> tstate" where
  "object_read_end st ob =
     (let i = (case RBT.lookup (t_obj_read_refcount st) ob of None \<Rightarrow> 0 | Some n \<Rightarrow> n)
      in st\<lparr>t_obj_read_refcount :=
           (if i = 1 then RBT.delete ob (t_obj_read_refcount st)
            else RBT.insert ob (i - 1) (t_obj_read_refcount st))\<rparr>)"

definition backend_backpressure :: "tstate \<Rightarrow> bool" where
  "backend_backpressure st \<longleftrightarrow> \<not> backend_write_window (t_cfg st) < t_outstanding_writes st"

section \<open>Completion of a batch\<close>

text \<open>
  \<^verbatim>\<open>translate_req::notify\<close>: the sectors of a batch leave the buffer map, but only those that still
  point into its buffer. \<open>u\<close> is the unused pointer that \<^verbatim>\<open>extmap::trim\<close> hands on.
\<close>

definition own_pieces :: "translate_req \<Rightarrow> bufmap \<Rightarrow> (int \<times> int) list" where
  "own_pieces r bm =
     concat (map (\<lambda>e.
       map (\<lambda>(base, lim, ptr). (base, lim))
         (filter (\<lambda>(base, lim, ptr). tr_local_buf_base r \<le> buf ptr \<and> buf ptr < tr_local_buf_limit r)
            (range_vals lba2buf bm (me_lba e) (me_lba e + me_len e))))
       (tr_entries r))"

definition notify :: "sector_ptr \<Rightarrow> translate_req \<Rightarrow> tstate \<Rightarrow> tstate" where
  "notify u r st =
     (let st1 = (if tr_op r = REQ_PUT \<or> tr_op r = REQ_GC
                 then st\<lparr>t_outstanding_writes := t_outstanding_writes st - 1\<rparr> else st)
      in if tr_op r = REQ_PUT
         then st1\<lparr>t_bufmap := foldl (\<lambda>m (base, lim). trim_map lba2buf u m base lim) (t_bufmap st1)
                               (own_pieces r (t_bufmap st1))\<rparr>
         else st1)"

section \<open>Checkpoints\<close>

definition ckpt_entries :: "objmap \<Rightarrow> ckpt_mapentry list" where
  "ckpt_entries om =
     map (\<lambda>e. let (base, lim, ptr) = vals e in mk_ckpt_mapentry base (lim - base) (obj ptr) (offset ptr))
       (all_extents om)"

definition ckpt_objects :: "(int, data_obj_info) rbt \<Rightarrow> ckpt_obj list" where
  "ckpt_objects info =
     map (\<lambda>(n, oi). \<lparr>co_seq = ubf 32 n, co_hdr_sectors = ubf 32 (oi_hdr oi), co_data_sectors = ubf 32 (oi_data oi),
                     co_live_sectors = ubf 32 (oi_live oi)\<rparr>)
       (RBT.entries info)"

text \<open>The buffer \<^verbatim>\<open>cp_buf\<close>.\<close>

definition ckpt_bytes :: "byte list \<Rightarrow> int \<Rightarrow> int \<Rightarrow> ckpt_obj list \<Rightarrow> ckpt_mapentry list \<Rightarrow> byte list" where
  "ckpt_bytes uuid cache_seq seq objects entries =
     (let map_bytes = int (length entries) * 16;
          objs_bytes = int (length objects) * 16;
          hdr_bytes = int (sizeof_common_obj_hdr + sizeof_obj_ckpt_hdr);
          sectors = div_round_up (hdr_bytes + map_bytes + objs_bytes) 512;
          cp_buf = serialise_common_hdr (replicate (nat (sectors * 512)) 0) OBJ_CHECKPOINT seq sectors 0 uuid;
          o1 = hdr_bytes;
          o2 = o1 + objs_bytes;
          cp_buf1 = put_bytes cp_buf sizeof_common_obj_hdr (enc_obj_ckpt_hdr
            \<lparr>c_cache_seq = cache_seq, c_ckpts_offset = 0, c_ckpts_len = 0, c_objs_offset = o1,
             c_objs_len = o2 - o1, c_deletes_offset = 0, c_deletes_len = 0, c_map_offset = o2,
             c_map_len = map_bytes\<rparr>);
          cp_buf2 = put_bytes cp_buf1 (nat o1) (concat (map enc_ckpt_obj objects))
      in put_bytes cp_buf2 (nat o2) (concat (map enc_ckpt_mapentry entries)))"

text \<open>The last three checkpoints stay, the older ones are deleted.\<close>

definition keep_ckpts :: "int list \<Rightarrow> int list \<times> int list" where
  "keep_ckpts cs = (drop (length cs - 3) cs, take (length cs - 3) cs)"

definition write_checkpoint :: "int \<Rightarrow> tstate \<Rightarrow> tstate option" where
  "write_checkpoint seq st =
     (let cp_buf = ckpt_bytes (t_uuid st) (t_ckpt_cache_seq st) seq (ckpt_objects (t_object_info st))
                     (ckpt_entries (t_objmap st));
          (kept, dead) = keep_ckpts (t_checkpoints st @ [seq])
      in map_option (\<lambda>sb.
           st\<lparr>t_checkpoints := kept, t_superblock_buf := sb,
              t_out := t_out st @ [Be_write (oname (t_name st) seq) cp_buf, Be_write (t_name st) sb]
                       @ map (\<lambda>c. Be_delete (oname (t_name st) c)) dead\<rparr>)
           (serialise_superblock (t_superblock_buf st) kept (t_clones st) (t_uuid st) (t_vol_size st)))"

section \<open>Writing data objects\<close>

text \<open>The number of header sectors of an object with \<open>n\<close> map entries: whole 4096-byte pages.\<close>

definition data_hdr_sectors :: "nat \<Rightarrow> int" where
  "data_hdr_sectors n =
     div_round_up (int (sizeof_common_obj_hdr + sizeof_obj_data_hdr) + int n * 8) 4096 * 8"

text \<open>
  The loop that maps the entries of a batch to consecutive sectors of object \<open>seq\<close>, collecting what
  the updates discard.
\<close>

fun map_entries ::
  "int \<Rightarrow> int \<Rightarrow> (int \<times> int) list \<Rightarrow> objmap \<Rightarrow> obj_offset extent list \<Rightarrow> objmap \<times> obj_offset extent list" where
  "map_entries seq off [] om del = (om, del)"
| "map_entries seq off ((lba, len) # es) om del =
     (let (om', del') = update_del lba2obj om lba (lba + len) (mk_obj_offset seq off) del
      in map_entries seq (off + len) es om' del')"

abbreviation entry_ranges :: "ckpt_mapentry list \<Rightarrow> (int \<times> int) list" where
  "entry_ranges es \<equiv> map (\<lambda>e. (me_lba e, me_len e)) es"

definition process_batch :: "(byte list \<Rightarrow> int) \<Rightarrow> int \<Rightarrow> translate_req \<Rightarrow> tstate \<Rightarrow> tstate option" where
  "process_batch zcrc seq r st =
     (let hdr_sectors = data_hdr_sectors (length (tr_entries r));
          hdr_ptr = tr_data_ptr r - hdr_sectors * 512;
          data_sectors = tr_len r div 512;
          info0 = RBT.insert seq \<lparr>oi_hdr = hdr_sectors, oi_data = data_sectors, oi_live = data_sectors\<rparr>
                    (t_object_info st);
          (om, deleted) = map_entries seq hdr_sectors (entry_ranges (tr_entries r)) (t_objmap st) [];
          dm = map (\<lambda>e. mk_data_map (me_lba e) (me_len e)) (tr_entries r)
      in case drop_live deleted (info0, t_total_live_sectors st) of
           None \<Rightarrow> None
         | Some (info, live) \<Rightarrow>
             case make_obj_hdr zcrc (t_uuid st) seq hdr_sectors data_sectors dm False of
               None \<Rightarrow> None
             | Some hdr \<Rightarrow>
                 let mem = store_bytes (t_mem st) hdr_ptr hdr;
                     obj_size = (hdr_sectors + data_sectors) * 512;
                     obj_bytes = load_bytes mem hdr_ptr obj_size;
                     new_live = (case RBT.lookup info seq of None \<Rightarrow> 0 | Some oi \<Rightarrow> oi_live oi)
                 in case prefix st seq of
                      None \<Rightarrow> None
                    | Some pf \<Rightarrow>
                        Some (st\<lparr>t_objmap := om, t_object_info := info, t_mem := mem,
                                t_total_live_sectors := live + new_live,
                                t_total_sectors := t_total_sectors st + data_sectors,
                                t_out := t_out st @ [Rcache_insert pf seq obj_bytes,
                                  Aio_write (oname pf seq) obj_bytes (r\<lparr>tr_seq := seq\<rparr>)],
                                t_outstanding_writes := t_outstanding_writes st + 1\<rparr>))"

text \<open>
  \<^verbatim>\<open>write_gc\<close>: the pieces of the request's ranges that are still mapped to the object they were
  read from, with their data.
\<close>

fun gc_pieces :: "objmap \<Rightarrow> ckpt_mapentry list \<Rightarrow> byte list \<Rightarrow> (int \<times> int) list \<times> byte list" where
  "gc_pieces om [] dat = ([], [])"
| "gc_pieces om (e # es) dat =
     (let own = filter (\<lambda>(base, lim, ptr). obj ptr = me_obj e)
                  (range_vals lba2obj om (me_lba e) (me_lba e + me_len e));
          ps = map (\<lambda>(base, lim, ptr). (base, lim - base)) own;
          ds = concat (map (\<lambda>(base, lim, ptr). take (nat ((lim - base) * 512)) (drop (nat ((base - me_lba e) * 512)) dat)) own);
          (ps', ds') = gc_pieces om es (drop (nat (me_len e * 512)) dat)
      in (ps @ ps', ds @ ds'))"

definition write_gc :: "(byte list \<Rightarrow> int) \<Rightarrow> int \<Rightarrow> translate_req \<Rightarrow> tstate \<Rightarrow> tstate option" where
  "write_gc zcrc seq r st =
     (let (ps, dat) = gc_pieces (t_objmap st) (tr_entries r) (tr_gc_data r);
          data_sectors = int (length dat) div 512;
          hdr_sectors = data_hdr_sectors (length ps);
          (om, deleted) = map_entries seq hdr_sectors ps (t_objmap st) [];
          dm = map (\<lambda>(lba, len). mk_data_map lba len) ps;
          r' = r\<lparr>tr_seq := seq, tr_entries := map (\<lambda>(lba, len). mk_ckpt_mapentry lba len 0 0) ps\<rparr>
      in case drop_live deleted (t_object_info st, t_total_live_sectors st) of
           None \<Rightarrow> None
         | Some (info, live) \<Rightarrow>
             case make_obj_hdr zcrc (t_uuid st) seq hdr_sectors data_sectors dm True of
               None \<Rightarrow> None
             | Some hdr \<Rightarrow>
                 case prefix st seq of
                   None \<Rightarrow> None
                 | Some pf \<Rightarrow>
                     Some (st\<lparr>t_objmap := om,
                             t_object_info := RBT.insert seq
                               \<lparr>oi_hdr = hdr_sectors, oi_data = data_sectors, oi_live = data_sectors\<rparr> info,
                             t_total_live_sectors := live,
                             t_gc_sectors_written := t_gc_sectors_written st + data_sectors,
                             t_out := t_out st @ [Aio_write (oname pf seq) (hdr @ dat) r'],
                             t_outstanding_writes := t_outstanding_writes st + 1\<rparr>))"

section \<open>The worker and its clients\<close>

text \<open>
  One round of \<^verbatim>\<open>worker_thread\<close>. A flush waits until no write is outstanding: the round is then
  not enabled.
\<close>

definition worker_step :: "(byte list \<Rightarrow> int) \<Rightarrow> tstate \<Rightarrow> tstate option" where
  "worker_step zcrc st =
     (case t_queue st of
        [] \<Rightarrow> None
      | r # q \<Rightarrow>
          let st1 = st\<lparr>t_queue := q\<rparr>; st2 = st1\<lparr>t_cur_seq := ubf 32 (t_cur_seq st + 1)\<rparr>
          in case tr_op r of
               REQ_FLUSH \<Rightarrow> if 0 < t_outstanding_writes st then None else Some st1
             | REQ_PUT \<Rightarrow> process_batch zcrc (t_cur_seq st) r st2
             | REQ_CKPT \<Rightarrow> write_checkpoint (t_cur_seq st) st2
             | REQ_GC \<Rightarrow> write_gc zcrc (t_cur_seq st) r st2)"

text \<open>The part of \<^verbatim>\<open>flush\<close> and \<^verbatim>\<open>checkpoint\<close> before they wait.\<close>

definition flush :: "int \<Rightarrow> tstate \<Rightarrow> tstate" where
  "flush p st =
     (let st1 = (if 0 < tr_len (t_current st) then roll_batch p st else st)
      in st1\<lparr>t_queue := t_queue st1 @ [new_req REQ_FLUSH]\<rparr>)"

definition checkpoint :: "int \<Rightarrow> tstate \<Rightarrow> tstate" where
  "checkpoint p st =
     (let st1 = (if 0 < tr_len (t_current st) then roll_batch p st else st)
      in st1\<lparr>t_queue := t_queue st1 @ [new_req REQ_CKPT]\<rparr>)"

text \<open>
  A round of \<^verbatim>\<open>flush_thread\<close> after its sleep; \<open>seq0\<close> and \<open>t0\<close> are its variables, \<open>now\<close> the time.
\<close>

definition flush_thread_round ::
  "int \<Rightarrow> int \<Rightarrow> int \<Rightarrow> int \<times> int \<Rightarrow> tstate \<Rightarrow> (int \<times> int) \<times> tstate" where
  "flush_thread_round p now timeout v st =
     (let (seq0, t0) = v
      in if seq0 = t_cur_seq st \<and> 0 < tr_len (t_current st)
         then (if now - t0 < timeout then (v, st) else (v, roll_batch p st))
         else ((t_cur_seq st, now), st))"

text \<open>The constructor.\<close>

definition make_translate ::
  "string \<Rightarrow> lsvd_config \<Rightarrow> int \<Rightarrow> byte list \<Rightarrow> memory \<Rightarrow> objmap \<Rightarrow> bufmap \<Rightarrow> int \<Rightarrow> clone_base list \<Rightarrow>
   (int, data_obj_info) rbt \<Rightarrow> int list \<Rightarrow> int \<Rightarrow> tstate" where
  "make_translate name cfg vol_size uuid mem om bm last_seq clones info ckpts p =
     \<lparr>t_name = name, t_cfg = cfg, t_vol_size = vol_size, t_uuid = uuid, t_mem = mem, t_objmap = om,
      t_bufmap = bm, t_cur_seq = ubf 32 (last_seq + 1), t_ckpt_cache_seq = 0,
      t_current = new_put_req p (backend_obj_bytes cfg), t_queue = [], t_clones = clones,
      t_object_info = info, t_checkpoints = ckpts, t_outstanding_writes = 0,
      t_obj_read_refcount = RBT.empty, t_superblock_buf = replicate 4096 0,
      t_total_sectors = sum_list (map (\<lambda>(_, oi). oi_data oi) (RBT.entries info)),
      t_total_live_sectors = sum_list (map (\<lambda>(_, oi). oi_live oi) (RBT.entries info)),
      t_gc_cycles = 0, t_gc_sectors_read = 0, t_gc_sectors_written = 0, t_gc_deleted = 0, t_out = []\<rparr>"

end
