(* ===== verification/Image_Read.thy ===== *)
theory Image_Read
  imports Translate
begin

text \<open>
  The read path of an image (\<^verbatim>\<open>lsvd_image::handle_reads\<close>): a contiguous read is cut into pieces
  that are unmapped, still in a batch buffer, or in an object. The first two are served at once,
  each of the others becomes a request to the read cache for part of one cache block.
\<close>

definition CACHE_CHUNK_SIZE :: int where
  "CACHE_CHUNK_SIZE = 64 * 1024"

definition block_sectors :: int where
  "block_sectors = CACHE_CHUNK_SIZE div 512"

text \<open>The arguments of \<^verbatim>\<open>read_cache::make_read_req\<close>.\<close>

record cache_read =
  cr_prefix :: string
  cr_seqnum :: int
  cr_offset :: int
  cr_adjust :: int
  cr_dest :: smartiov

record read_loop =
  rl_start :: int
  rl_off :: int
  rl_bit :: iter
  rl_oit :: iter
  rl_mem :: memory
  rl_reqs :: "cache_read list"

text \<open>\<^verbatim>\<open>while (it != end() && it->limit() <= l) it++\<close>\<close>

fun it_skip :: "nat \<Rightarrow> 'p extmap \<Rightarrow> int \<Rightarrow> iter \<Rightarrow> iter" where
  "it_skip 0 m l it = it"
| "it_skip (Suc n) m l it =
     (if it \<noteq> end_it m \<and> limit (deref m it) \<le> l then it_skip n m l (it_next m it) else it)"

text \<open>
  One round of the loop. The argument \<open>pf\<close> is \<^verbatim>\<open>xlate->prefix\<close>. The branch that bypasses the cache
  is disabled in the source (\<^verbatim>\<open>if (false)\<close>).
\<close>

definition read_round ::
  "(int \<Rightarrow> string option) \<Rightarrow> bufmap \<Rightarrow> objmap \<Rightarrow> smartiov \<Rightarrow> int \<Rightarrow> read_loop \<Rightarrow> read_loop option" where
  "read_round pf bm om iovs end_sector s =
     (let start = rl_start s; off = rl_off s;
          (base1, limit1, bufptr) =
            (if rl_bit s \<noteq> end_it bm then vals_in lba2buf (deref bm (rl_bit s)) start end_sector
             else (end_sector, end_sector, Sector_ptr 0));
          (base2, limit2, objptr) =
            (if rl_oit s \<noteq> end_it om then vals_in lba2obj (deref om (rl_oit s)) start end_sector
             else (end_sector, end_sector, Obj_offset 0 0));
          base3 = min base1 base2
      in if start < base3
         then
           let sectors = base3 - start
           in Some (s\<lparr>rl_mem := zero_range (rl_mem s) iovs off (off + sectors * 512),
                      rl_start := base3, rl_off := off + sectors * 512\<rparr>)
         else if base1 = start
         then
           let sectors = limit1 - start
           in map_option (\<lambda>sl.
                s\<lparr>rl_mem := copy_in (rl_mem s) sl (buf bufptr),
                  rl_start := limit1, rl_off := off + sectors * 512,
                  rl_oit := it_skip (length (concat (lists om))) om limit1 (rl_oit s),
                  rl_bit := it_next bm (rl_bit s)\<rparr>)
                (iov_slice iovs off (off + sectors * 512))
         else if base2 = start \<and> rl_oit s \<noteq> end_it om
         then
           let lim = min limit2 base1;
               sectors0 = lim - start;
               key_offset = round_down (offset objptr) block_sectors;
               offset_limit = min (key_offset + block_sectors) (sbf 32 (offset objptr + sectors0));
               sectors = offset_limit - offset objptr;
               lim' = start + sectors
           in case (iov_slice iovs off (off + sectors * 512), pf (obj objptr)) of
                (Some sl, Some pre) \<Rightarrow>
                  Some (s\<lparr>rl_reqs := rl_reqs s @
                            [\<lparr>cr_prefix = pre, cr_seqnum = obj objptr, cr_offset = key_offset * 512,
                              cr_adjust = offset objptr mod block_sectors * 512, cr_dest = sl\<rparr>],
                          rl_off := off + (lim' - start) * 512, rl_start := lim',
                          rl_oit := (if lim' = limit (deref om (rl_oit s)) then it_next om (rl_oit s) else rl_oit s)\<rparr>)
              | _ \<Rightarrow> None
         else None)"

text \<open>The loop; every round advances, so the number of sectors bounds the rounds.\<close>

fun read_rounds ::
  "nat \<Rightarrow> (int \<Rightarrow> string option) \<Rightarrow> bufmap \<Rightarrow> objmap \<Rightarrow> smartiov \<Rightarrow> int \<Rightarrow> read_loop \<Rightarrow> read_loop option" where
  "read_rounds n pf bm om iovs end_sector s =
     (if rl_start s < end_sector
      then (case n of 0 \<Rightarrow> None
            | Suc n' \<Rightarrow> (case read_round pf bm om iovs end_sector s of
                None \<Rightarrow> None | Some s' \<Rightarrow> read_rounds n' pf bm om iovs end_sector s'))
      else Some s)"

definition handle_reads ::
  "(int \<Rightarrow> string option) \<Rightarrow> bufmap \<Rightarrow> objmap \<Rightarrow> memory \<Rightarrow> int \<Rightarrow> smartiov \<Rightarrow> (memory \<times> cache_read list) option" where
  "handle_reads pf bm om mem offset_bytes iovs =
     (let start = offset_bytes div 512;
          end_sector = start + bytes iovs div 512;
          bit = (if 0 < size_map bm then lookup lba2buf bm start else end_it bm);
          oit = lookup lba2obj om start
      in map_option (\<lambda>s. (rl_mem s, rl_reqs s))
           (read_rounds (nat (end_sector - start)) pf bm om iovs end_sector
              \<lparr>rl_start = start, rl_off = 0, rl_bit = bit, rl_oit = oit, rl_mem = mem, rl_reqs = []\<rparr>))"

end
