(* ===== verification/Image_Walk.thy ===== *)
theory Image_Walk
  imports Image_Read
begin

text \<open>
  Walking a map from an address on: where the iterator of the read loop stands and what the extent
  it points to says about the sectors ahead.
\<close>

lemma dropWhile_limit_mono:
  "s \<le> s' \<Longrightarrow> dropWhile (\<lambda>e. limit e \<le> s') (dropWhile (\<lambda>e. limit e \<le> s) xs) = dropWhile (\<lambda>e. limit e \<le> s') xs"
  by (induction xs) auto

definition from_addr :: "int \<Rightarrow> 'p extmap \<Rightarrow> 'p extent list" where
  "from_addr s m = dropWhile (\<lambda>e. limit e \<le> s) (flat m)"

lemma from_addr_mono: "s \<le> s' \<Longrightarrow> from_addr s' m = dropWhile (\<lambda>e. limit e \<le> s') (from_addr s m)"
  by (simp add: from_addr_def dropWhile_limit_mono)

definition stands_at :: "'p tmpl \<Rightarrow> 'p extmap \<Rightarrow> iter \<Rightarrow> int \<Rightarrow> bool" where
  "stands_at T m it s \<longleftrightarrow> struct_inv T m \<and> (\<exists>L. cursor m it L (from_addr s m))"

lemma stands_at_end: "stands_at T m it s \<Longrightarrow> it = end_it m \<longleftrightarrow> from_addr s m = []"
  unfolding stands_at_def by (elim conjE exE) (rule cursor_end)

lemma stands_at_deref: "stands_at T m it s \<Longrightarrow> from_addr s m = e # R \<Longrightarrow> deref m it = e"
  unfolding stands_at_def by (elim conjE exE) (rule cursor_deref, simp)

lemma stands_at_same:
  assumes "stands_at T m it s" "s \<le> s'" "from_addr s m = [] \<or> s' < limit (hd (from_addr s m))"
  shows "stands_at T m it s'"
proof -
  have "from_addr s' m = from_addr s m"
    using from_addr_mono [OF assms(2), of m] assms(3) by (cases "from_addr s m") auto
  then show ?thesis using assms(1) by (simp add: stands_at_def)
qed

context extent_space
begin

lemma from_addr_rest:
  assumes "map_ok T amax pok m" "from_addr s m = e # R"
  shows "\<forall>f\<in>set R. limit e < limit f" "ext_ok amax pok e" "s < limit e" "extents_ok amax pok (e # R)"
proof -
  have ok: "extents_ok amax pok (takeWhile (\<lambda>e. limit e \<le> s) (flat m) @ e # R)"
    using assms takeWhile_dropWhile_id [of "\<lambda>e. limit e \<le> s" "flat m"] by (simp add: map_ok_def from_addr_def)
  then show e: "ext_ok amax pok e" and all: "extents_ok amax pok (e # R)" by simp_all
  have "ext_ok amax pok f \<and> limit e \<le> s_base f" if "f \<in> set R" for f
    using all that extents_ok_mem [OF all, of f] by simp
  then show "\<forall>f\<in>set R. limit e < limit f" using ext_ok_limit by fastforce
  show "s < limit e" using extents_ok_from_limit [of amax pok "flat m" e s] assms by (simp add: map_ok_def from_addr_def)
qed

lemma stands_at_next:
  assumes "map_ok T amax pok m" "stands_at T m it s" "from_addr s m = e # R" "limit e = s'"
  shows "stands_at T m (it_next m it) s'"
proof -
  note r = from_addr_rest [OF assms(1,3)]
  have "s \<le> s'" using r(3) assms(4) by simp
  then have "from_addr s' m = dropWhile (\<lambda>e. limit e \<le> s') (e # R)"
    using from_addr_mono [of s s' m] assms(3) by simp
  also have "\<dots> = R" using assms(4) r(1) by (cases R) auto
  finally show ?thesis
    using assms(2,3) cursor_next [of T m it _ e R] by (auto simp: stands_at_def)
qed

lemma stands_at_skip:
  assumes "map_ok T amax pok m" "stands_at T m it s" "s \<le> s'" "length (from_addr s m) \<le> n"
  shows "stands_at T m (it_skip n m s' it) s'"
  using assms
proof (induction n arbitrary: it s)
  case 0
  then show ?case using stands_at_same [of T m it s s'] by simp
next
  case (Suc n)
  show ?case
  proof (cases "from_addr s m = [] \<or> s' < limit (hd (from_addr s m))")
    case True
    then have "it_skip (Suc n) m s' it = it"
      using stands_at_end [OF Suc.prems(2)] stands_at_deref [OF Suc.prems(2)]
      by (cases "from_addr s m") auto
    then show ?thesis using stands_at_same [OF Suc.prems(2,3) True] by simp
  next
    case False
    then obtain e R where e: "from_addr s m = e # R" "limit e \<le> s'" by (cases "from_addr s m") auto
    have "from_addr (limit e) m = R"
      using from_addr_mono [of s "limit e" m] e(1) from_addr_rest [OF Suc.prems(1) e(1)]
      by (cases R) auto
    moreover have "it_skip (Suc n) m s' it = it_skip n m s' (it_next m it)"
      using e stands_at_end [OF Suc.prems(2)] stands_at_deref [OF Suc.prems(2) e(1)] by simp
    ultimately show ?thesis
      using Suc.IH [OF Suc.prems(1) stands_at_next [OF Suc.prems(1,2) e(1) refl]] e Suc.prems(4) by simp
  qed
qed

text \<open>What \<^verbatim>\<open>vals(start, end)\<close> of the extent at the iterator says about the map from there on.\<close>

lemma ahead:
  assumes ok: "map_ok T amax pok m" and st: "stands_at T m it s" and s: "0 \<le> s" "s < t" "t \<le> amax"
    and v: "(b, l, p) = (if it \<noteq> end_it m then vals_in T (deref m it) s t else (t, t, p0))"
  shows "s \<le> b" "\<And>x. s \<le> x \<Longrightarrow> x < b \<Longrightarrow> x < t \<Longrightarrow> lookup_fun T m x = None"
    "b < t \<Longrightarrow> b < l \<and> l \<le> t \<and> pok p (l - b)"
    "\<And>x. b < t \<Longrightarrow> b \<le> x \<Longrightarrow> x < l \<Longrightarrow> lookup_fun T m x = Some (ptr_plus T p (x - b))"
    "b < t \<Longrightarrow> it \<noteq> end_it m \<and> from_addr s m \<noteq> [] \<and> l = min (limit (hd (from_addr s m))) t"
    "from_addr s m = [] \<or> min b t \<le> s_base (hd (from_addr s m)) \<or> b = s"
proof -
  let ?L = "takeWhile (\<lambda>e. limit e \<le> s) (flat m)"
  have fl: "flat m = ?L @ from_addr s m" by (simp add: from_addr_def)
  have noL: "seq_get T ?L x = None" if "s \<le> x" for x
    by (rule seq_get_None) (use that set_takeWhileD in fastforce)
  have look: "lookup_fun T m x = seq_get T (from_addr s m) x" if "s \<le> x" for x
  proof -
    have "lookup_fun T m x = seq_get T (?L @ from_addr s m) x"
      unfolding lookup_fun_def by (rule arg_cong [OF fl, of "\<lambda>es. seq_get T es x"])
    then show ?thesis using noL [OF that] by (simp add: seq_get_append)
  qed
  have "s \<le> b \<and> (\<forall>x. s \<le> x \<longrightarrow> x < b \<longrightarrow> x < t \<longrightarrow> lookup_fun T m x = None)
    \<and> (b < t \<longrightarrow> b < l \<and> l \<le> t \<and> pok p (l - b))
    \<and> (\<forall>x. b < t \<longrightarrow> b \<le> x \<longrightarrow> x < l \<longrightarrow> lookup_fun T m x = Some (ptr_plus T p (x - b)))
    \<and> (b < t \<longrightarrow> it \<noteq> end_it m \<and> from_addr s m \<noteq> [] \<and> l = min (limit (hd (from_addr s m))) t)
    \<and> (from_addr s m = [] \<or> min b t \<le> s_base (hd (from_addr s m)) \<or> b = s)"
  proof (cases "from_addr s m")
    case Nil
    then have "b = t" using v stands_at_end [OF st] by simp
    then show ?thesis using Nil look s by simp
  next
    case (Cons e R)
    note r = from_addr_rest [OF ok Cons]
    have ne: "it \<noteq> end_it m" using Cons stands_at_end [OF st] by simp
    have vv: "(b, l, p) = vals_in T e s t" using v ne stands_at_deref [OF st Cons] by simp
    have b: "b = max s (s_base e)" using vv by (simp add: vals_in_def split: if_splits)
    have l: "l = min (limit e) t" using vv by (simp add: vals_in_def split: if_splits)
    have R: "seq_get T R x = None" if "x < limit e" for x
      by (rule seq_get_None) (use r(4) that in force)
    have hd: "seq_get T (from_addr s m) x = ext_get T e x" if "x < limit e" for x
      using R [OF that] Cons by (simp split: option.split)
    have none: "lookup_fun T m x = None" if "s \<le> x" "x < b" for x
      using look [OF that(1)] that b ext_ok_limit [OF r(2)] hd [of x] by (auto simp: ext_get_def max_def split: if_splits)
    show ?thesis
    proof (cases "b < t")
      case True
      then have sb: "s_base e < t" using b s by auto
      note p = vals_in_piece [OF r(2,3) sb s(2)]
      have pe: "piece_ext (vals_in T e s t) = piece_ext (b, l, p)" using vv by simp
      have bl: "b < l" using b l r(3) sb s ext_ok_limit [OF r(2)] by auto
      have "pok p (l - b)" using p(1) pe by (simp add: ext_ok_def)
      moreover have "lookup_fun T m x = Some (ptr_plus T p (x - b))" if "b \<le> x" "x < l" for x
      proof -
        have "ext_get T (piece_ext (b, l, p)) x = Some (ptr_plus T p (x - b))" using that by (simp add: ext_get_def)
        then have "map_slice (ext_get T e) s t x = Some (ptr_plus T p (x - b))" using p(4) pe by simp
        then have "ext_get T e x = Some (ptr_plus T p (x - b))" by (simp add: map_slice_def split: if_splits)
        then show ?thesis using look [of x] hd [of x] that b l by simp
      qed
      ultimately show ?thesis using bl l b none Cons ne True by auto
    next
      case False
      then show ?thesis using none b Cons by auto
    qed
  qed
  then show "s \<le> b" "\<And>x. s \<le> x \<Longrightarrow> x < b \<Longrightarrow> x < t \<Longrightarrow> lookup_fun T m x = None"
    "b < t \<Longrightarrow> b < l \<and> l \<le> t \<and> pok p (l - b)"
    "\<And>x. b < t \<Longrightarrow> b \<le> x \<Longrightarrow> x < l \<Longrightarrow> lookup_fun T m x = Some (ptr_plus T p (x - b))"
    "b < t \<Longrightarrow> it \<noteq> end_it m \<and> from_addr s m \<noteq> [] \<and> l = min (limit (hd (from_addr s m))) t"
    "from_addr s m = [] \<or> min b t \<le> s_base (hd (from_addr s m)) \<or> b = s"
    by blast+
qed

lemma ahead_le:
  assumes "map_ok T amax pok m" "stands_at T m it s" "s < t" "t \<le> amax"
    "(b, l, p) = (if it \<noteq> end_it m then vals_in T (deref m it) s t else (t, t, p0))"
  shows "b \<le> amax"
proof (cases "from_addr s m")
  case Nil
  then show ?thesis using stands_at_end [OF assms(2)] assms(4,5) by simp
next
  case (Cons e R)
  then have "it \<noteq> end_it m" "deref m it = e" using stands_at_end [OF assms(2)] stands_at_deref [OF assms(2) Cons] by simp_all
  then have "b = max s (s_base e)" using assms(5) by (simp add: vals_in_def split: if_splits)
  then show ?thesis using from_addr_rest(2) [OF assms(1) Cons] assms(3,4) by (auto simp: ext_ok_def limit_def)
qed

lemma stands_at_ahead:
  assumes "map_ok T amax pok m" "stands_at T m it s" "0 \<le> s" "s < t" "t \<le> amax"
    "(b, l, p) = (if it \<noteq> end_it m then vals_in T (deref m it) s t else (t, t, p0))" "s \<le> c" "c \<le> b" "c < t"
  shows "stands_at T m it c"
proof (rule stands_at_same [OF assms(2,7)])
  show "from_addr s m = [] \<or> c < limit (hd (from_addr s m))"
  proof (cases "from_addr s m")
    case (Cons e R)
    note r = from_addr_rest(2,3) [OF assms(1) Cons]
    then show ?thesis using ahead(6) [OF assms(1-6)] assms(7-9) Cons ext_ok_limit [OF r(1)] by auto
  qed simp
qed

end

end
