(* ===== verification/Image_Read_Correct.thy ===== *)
theory Image_Read_Correct
  imports Image_Walk
begin

text \<open>
  A read returns, for every sector, the data of the batch buffer that holds it, else of the object
  it is mapped to, else zeros; and it touches no memory but the caller's buffers.
\<close>

section \<open>What a read should return\<close>

text \<open>
  \<open>ob n k\<close> is byte \<open>k\<close> of object \<open>n\<close>. \<open>after_reads\<close> is memory once the read cache has served the
  requests: each delivers the bytes of its object from \<^verbatim>\<open>offset + adjust\<close> on.
\<close>

definition index_of :: "'a \<Rightarrow> 'a list \<Rightarrow> nat" where
  "index_of a xs = length (takeWhile (\<lambda>b. b \<noteq> a) xs)"

definition after_reads :: "(int \<Rightarrow> int \<Rightarrow> byte) \<Rightarrow> cache_read list \<Rightarrow> memory \<Rightarrow> memory" where
  "after_reads ob reqs mem a =
     (case find (\<lambda>r. a \<in> set (addrs (cr_dest r))) reqs of
        Some r \<Rightarrow> ob (cr_seqnum r) (cr_offset r + cr_adjust r + int (index_of a (addrs (cr_dest r))))
      | None \<Rightarrow> mem a)"

definition sector_byte :: "(int \<Rightarrow> int \<Rightarrow> byte) \<Rightarrow> memory \<Rightarrow> bufmap \<Rightarrow> objmap \<Rightarrow> int \<Rightarrow> int \<Rightarrow> byte" where
  "sector_byte ob mem bm om x j =
     (case buf_look bm x of
        Some p \<Rightarrow> mem (buf p + j)
      | None \<Rightarrow> (case obj_look om x of
          Some q \<Rightarrow> ob (obj q) (offset q * 512 + j)
        | None \<Rightarrow> 0))"

definition cache_read_ok :: "(int \<Rightarrow> string option) \<Rightarrow> cache_read \<Rightarrow> bool" where
  "cache_read_ok pf r \<longleftrightarrow>
     cr_offset r mod CACHE_CHUNK_SIZE = 0 \<and> 0 \<le> cr_offset r \<and> 0 \<le> cr_adjust r
     \<and> cr_adjust r + bytes (cr_dest r) \<le> CACHE_CHUNK_SIZE \<and> pf (cr_seqnum r) = Some (cr_prefix r)"

lemma index_of_nth: "distinct xs \<Longrightarrow> i < length xs \<Longrightarrow> index_of (xs ! i) xs = i"
proof -
  assume d: "distinct xs" and i: "i < length xs"
  have "takeWhile (\<lambda>b. b \<noteq> xs ! i) (take i xs @ xs ! i # drop (Suc i) xs) = take i xs"
  proof (subst takeWhile_append2)
    show "x \<noteq> xs ! i" if "x \<in> set (take i xs)" for x
      using that d i by (metis distinct_take in_set_conv_nth length_take less_irrefl min_less_iff_conj
          nth_eq_iff_index_eq nth_take order_less_trans)
  qed simp
  then show ?thesis using i by (simp add: index_of_def id_take_nth_drop [OF i, symmetric])
qed

section \<open>The part served so far\<close>

definition served ::
  "(int \<Rightarrow> int \<Rightarrow> byte) \<Rightarrow> bufmap \<Rightarrow> objmap \<Rightarrow> int list \<Rightarrow> memory \<Rightarrow> int \<Rightarrow> nat \<Rightarrow> cache_read list \<Rightarrow> memory \<Rightarrow> bool" where
  "served ob bm om A mem0 s0 n reqs mem \<longleftrightarrow>
     (\<forall>i<length A. i < n \<longrightarrow> after_reads ob reqs mem (A ! i) =
        sector_byte ob mem0 bm om (s0 + int (i div 512)) (int (i mod 512)))
     \<and> (\<forall>a. a \<notin> set (take n A) \<longrightarrow> mem a = mem0 a)
     \<and> (\<forall>r\<in>set reqs. set (addrs (cr_dest r)) \<subseteq> set (take n A))"

lemma nth_not_taken: "distinct A \<Longrightarrow> i < length A \<Longrightarrow> n \<le> i \<Longrightarrow> A ! i \<notin> set (take n A)"
  by (auto simp: in_set_conv_nth nth_eq_iff_index_eq)

lemma set_take_mono: "n \<le> k \<Longrightarrow> set (take n A) \<subseteq> set (take k A)"
  by (metis set_take_subset_set_take)

lemma set_take_split: "set (take (n + k) A) = set (take n A) \<union> set (take k (drop n A))"
  by (simp add: take_add)

lemma find_none_outside:
  assumes "\<forall>r\<in>set reqs. set (addrs (cr_dest r)) \<subseteq> S" "a \<notin> S"
  shows "find (\<lambda>r. a \<in> set (addrs (cr_dest r))) reqs = None"
  using assms by (auto simp: find_None_iff)

lemma find_append_eq: "find P (xs @ ys) = (case find P xs of Some x \<Rightarrow> Some x | None \<Rightarrow> find P ys)"
  by (induction xs) simp_all

lemma served_extend_mem:
  assumes s: "served ob bm om A mem0 s0 n reqs mem" and d: "distinct A"
    and other: "\<And>a. a \<notin> set (take k (drop n A)) \<Longrightarrow> mem' a = mem a"
    and new: "\<And>i. i < length A \<Longrightarrow> n \<le> i \<Longrightarrow> i < n + k \<Longrightarrow>
      mem' (A ! i) = sector_byte ob mem0 bm om (s0 + int (i div 512)) (int (i mod 512))"
  shows "served ob bm om A mem0 s0 (n + k) reqs mem'"
proof -
  have sub: "\<forall>r\<in>set reqs. set (addrs (cr_dest r)) \<subseteq> set (take n A)" using s by (simp add: served_def)
  have "after_reads ob reqs mem' (A ! i) = sector_byte ob mem0 bm om (s0 + int (i div 512)) (int (i mod 512))"
    if i: "i < length A" "i < n + k" for i
  proof (cases "i < n")
    case True
    have "A ! i \<notin> set (take k (drop n A))"
    proof
      assume "A ! i \<in> set (take k (drop n A))"
      then obtain j where "j < length (drop n A)" "A ! i = drop n A ! j"
        by (metis in_set_conv_nth in_set_takeD)
      then show False using True d i(1) by (auto simp: nth_eq_iff_index_eq)
    qed
    then have "mem' (A ! i) = mem (A ! i)" by (rule other)
    then have "after_reads ob reqs mem' (A ! i) = after_reads ob reqs mem (A ! i)"
      by (simp add: after_reads_def split: option.split)
    then show ?thesis using s True i(1) by (simp add: served_def)
  next
    case False
    have "find (\<lambda>r. A ! i \<in> set (addrs (cr_dest r))) reqs = None"
      by (rule find_none_outside [OF sub nth_not_taken]) (use d i False in simp_all)
    then show ?thesis using new i False by (simp add: after_reads_def)
  qed
  moreover have "mem' a = mem0 a" if "a \<notin> set (take (n + k) A)" for a
    using that other [of a] s by (simp add: set_take_split served_def)
  moreover have "\<forall>r\<in>set reqs. set (addrs (cr_dest r)) \<subseteq> set (take (n + k) A)"
    using sub by (auto simp: set_take_split)
  ultimately show ?thesis by (simp add: served_def)
qed

lemma served_extend_req:
  assumes s: "served ob bm om A mem0 s0 n reqs mem" and d: "distinct A"
    and r: "addrs (cr_dest r) = take k (drop n A)"
    and new: "\<And>i. i < length A \<Longrightarrow> n \<le> i \<Longrightarrow> i < n + k \<Longrightarrow>
      ob (cr_seqnum r) (cr_offset r + cr_adjust r + int (i - n))
        = sector_byte ob mem0 bm om (s0 + int (i div 512)) (int (i mod 512))"
  shows "served ob bm om A mem0 s0 (n + k) (reqs @ [r]) mem"
proof -
  have sub: "\<forall>r\<in>set reqs. set (addrs (cr_dest r)) \<subseteq> set (take n A)" using s by (simp add: served_def)
  have dis: "a \<notin> set (take n A)" if "a \<in> set (take k (drop n A))" for a
  proof -
    have "distinct (take n A @ drop n A)" using d by simp
    then show ?thesis using in_set_takeD [OF that] by (simp only: distinct_append) blast
  qed
  have "after_reads ob (reqs @ [r]) mem (A ! i) = sector_byte ob mem0 bm om (s0 + int (i div 512)) (int (i mod 512))"
    if i: "i < length A" "i < n + k" for i
  proof (cases "i < n")
    case True
    then have "A ! i \<in> set (take n A)" using i by (metis in_set_conv_nth length_take min_less_iff_conj nth_take)
    then have "A ! i \<notin> set (addrs (cr_dest r))" using dis r by auto
    then have "after_reads ob (reqs @ [r]) mem (A ! i) = after_reads ob reqs mem (A ! i)"
      by (simp add: after_reads_def find_append_eq split: option.split)
    then show ?thesis using s True i(1) by (simp add: served_def)
  next
    case False
    have none: "find (\<lambda>r. A ! i \<in> set (addrs (cr_dest r))) reqs = None"
      by (rule find_none_outside [OF sub nth_not_taken]) (use d i False in simp_all)
    have j: "i - n < length (take k (drop n A))" "take k (drop n A) ! (i - n) = A ! i" using i False by auto
    then have "A ! i \<in> set (addrs (cr_dest r))" using r nth_mem by metis
    moreover have "index_of (A ! i) (addrs (cr_dest r)) = i - n"
      using index_of_nth [of "take k (drop n A)" "i - n"] j d r by simp
    ultimately show ?thesis using new [of i] i False none by (simp add: after_reads_def find_append_eq)
  qed
  moreover have "mem a = mem0 a" if "a \<notin> set (take (n + k) A)" for a
    using that s by (simp add: set_take_split served_def)
  moreover have "\<forall>r'\<in>set (reqs @ [r]). set (addrs (cr_dest r')) \<subseteq> set (take (n + k) A)"
    using sub r by (auto simp: set_take_split)
  ultimately show ?thesis by (simp add: served_def)
qed

section \<open>One round\<close>

definition read_pre ::
  "(int \<times> int) set \<Rightarrow> (int \<Rightarrow> string option) \<Rightarrow> bufmap \<Rightarrow> objmap \<Rightarrow> smartiov \<Rightarrow> int \<Rightarrow> int \<Rightarrow> bool" where
  "read_pre bufs pf bm om iovs s0 t \<longleftrightarrow>
     bufmap_ok bufs bm \<and> objmap_ok om \<and> iov_ok iovs \<and> distinct (addrs iovs)
     \<and> 0 \<le> s0 \<and> s0 \<le> t \<and> t \<le> obj_amax \<and> int (length (addrs iovs)) = 512 * (t - s0)
     \<and> (\<forall>(b, k)\<in>bufs. \<forall>a\<in>set (addrs iovs). a < b \<or> b + 512 * k \<le> a)
     \<and> (\<forall>x q. obj_look om x = Some q \<longrightarrow> pf (obj q) \<noteq> None)"

definition read_inv ::
  "(int \<Rightarrow> int \<Rightarrow> byte) \<Rightarrow> (int \<Rightarrow> string option) \<Rightarrow> bufmap \<Rightarrow> objmap \<Rightarrow> smartiov \<Rightarrow> memory \<Rightarrow> int \<Rightarrow> int
    \<Rightarrow> read_loop \<Rightarrow> bool" where
  "read_inv ob pf bm om iovs mem0 s0 t s \<longleftrightarrow>
     s0 \<le> rl_start s \<and> rl_start s \<le> buf_amax \<and> rl_off s = 512 * (rl_start s - s0)
     \<and> (rl_start s < t \<longrightarrow> stands_at lba2buf bm (rl_bit s) (rl_start s) \<and> stands_at lba2obj om (rl_oit s) (rl_start s))
     \<and> served ob bm om (addrs iovs) mem0 s0 (nat (rl_off s)) (rl_reqs s) (rl_mem s)
     \<and> list_all (cache_read_ok pf) (rl_reqs s)"

lemma sector_of:
  assumes "s0 \<le> s" "nat (512 * (s - s0)) \<le> i" "i < nat (512 * (s - s0)) + nat (512 * (l - s))" "s \<le> l"
  shows "s \<le> s0 + int (i div 512)" "s0 + int (i div 512) < l"
    "int (i - nat (512 * (s - s0))) = 512 * (s0 + int (i div 512) - s) + int (i mod 512)"
proof -
  define d m where "d = int (i div 512)" and "m = int (i mod 512)"
  have e: "int i = 512 * d + m" "m < 512" "0 \<le> m"
    using mult_div_mod_eq [of 512 "int i"] by (simp_all add: d_def m_def zdiv_int zmod_int)
  have b: "512 * (s - s0) \<le> int i" "int i < 512 * (l - s0)" using assms by (simp_all flip: nat_add_distrib)
  show "s \<le> s0 + int (i div 512)" "s0 + int (i div 512) < l" 
    unfolding d_def [symmetric] using e b by (auto intro: ccontr)
  show "int (i - nat (512 * (s - s0))) = 512 * (s0 + int (i div 512) - s) + int (i mod 512)"
    unfolding d_def [symmetric] m_def [symmetric] using e b assms by (simp add: of_nat_diff nat_le_iff)
qed

lemma nat_off_add: "s0 \<le> s \<Longrightarrow> s \<le> l \<Longrightarrow> nat (512 * (l - s0)) = nat (512 * (s - s0)) + nat (512 * (l - s))"
  by (simp flip: nat_add_distrib)

lemma round_zero:
  assumes sv: "served ob bm om A mem0 s0 (nat (512 * (s - s0))) reqs mem" and A: "A = addrs iovs" "distinct A" "iov_ok iovs"
    and s: "s0 \<le> s" "s \<le> l" "l \<le> buf_amax" "0 \<le> s0" "int (length A) = 512 * (t - s0)"
    and none: "\<And>x. s \<le> x \<Longrightarrow> x < l \<Longrightarrow> x < t \<Longrightarrow> buf_look bm x = None \<and> obj_look om x = None"
  shows "served ob bm om A mem0 s0 (nat (512 * (l - s0))) reqs
    (zero_range mem iovs (512 * (s - s0)) (512 * (s - s0) + (l - s) * 512))"
  unfolding nat_off_add [OF s(1,2)]
proof (rule served_extend_mem [OF sv A(2)])
  let ?z = "zero_range mem iovs (512 * (s - s0)) (512 * (s - s0) + (l - s) * 512)"
  have z: "?z a = (if a \<in> set (take (nat (512 * (l - s))) (drop (nat (512 * (s - s0))) A)) then 0 else mem a)" for a
    by (subst zero_range_addrs) (use s A in \<open>simp_all add: buf_amax_def mult.commute\<close>)
  show "?z a = mem a" if "a \<notin> set (take (nat (512 * (l - s))) (drop (nat (512 * (s - s0))) A))" for a
    using that z by simp
  fix i assume i: "i < length A" "nat (512 * (s - s0)) \<le> i" "i < nat (512 * (s - s0)) + nat (512 * (l - s))"
  have "A ! i \<in> set (take (nat (512 * (l - s))) (drop (nat (512 * (s - s0))) A))"
    unfolding in_set_conv_nth using i by (intro exI [of _ "i - nat (512 * (s - s0))"]) auto
  moreover have "s0 + int (i div 512) < t" using i(1) s(5) by (simp add: zdiv_int)
  ultimately show "?z (A ! i) = sector_byte ob mem0 bm om (s0 + int (i div 512)) (int (i mod 512))"
    using z none sector_of [OF s(1) i(2,3) s(2)] by (simp add: sector_byte_def)
qed

lemma round_slice:
  assumes A: "A = addrs iovs" "iov_ok iovs" and s: "s0 \<le> s" "s \<le> l" "l \<le> t" "int (length A) = 512 * (t - s0)"
  obtains sl where "iov_slice iovs (512 * (s - s0)) (512 * (s - s0) + (l - s) * 512) = Some sl"
    "addrs sl = take (nat (512 * (l - s))) (drop (nat (512 * (s - s0))) A)" "iov_ok sl"
    "length (addrs sl) = nat (512 * (l - s))"
proof -
  have "512 * (s - s0) + (l - s) * 512 \<le> bytes iovs" using s A bytes_addrs by simp
  moreover have "0 \<le> 512 * (s - s0)" "512 * (s - s0) \<le> 512 * (s - s0) + (l - s) * 512" using s by simp_all
  moreover have "512 * (s - s0) + (l - s) * 512 - 512 * (s - s0) = 512 * (l - s)" by simp
  ultimately show thesis using that iov_slice_addrs [OF A(2), of "512 * (s - s0)" "512 * (s - s0) + (l - s) * 512"] A(1)
    by metis
qed

lemma round_buf:
  assumes sv: "served ob bm om A mem0 s0 (nat (512 * (s - s0))) reqs mem" and d: "distinct A"
    and s: "s0 \<le> s" "s \<le> l" and pk: "buf_pok bufs p (l - s)"
    and apart: "\<forall>(b, k)\<in>bufs. \<forall>a\<in>set A. a < b \<or> b + 512 * k \<le> a"
    and look: "\<And>x. s \<le> x \<Longrightarrow> x < l \<Longrightarrow> buf_look bm x = Some (ptr_plus lba2buf p (x - s))"
    and sl: "addrs sl = take (nat (512 * (l - s))) (drop (nat (512 * (s - s0))) A)" "iov_ok sl"
      "length (addrs sl) = nat (512 * (l - s))"
  shows "served ob bm om A mem0 s0 (nat (512 * (l - s0))) reqs (copy_in mem sl (buf p))"
  unfolding nat_off_add [OF s(1,2)]
proof (rule served_extend_mem [OF sv d])
  let ?n = "nat (512 * (s - s0))"
  obtain b k where bk: "(b, k) \<in> bufs" "b \<le> buf p" "buf p + 512 * (l - s) \<le> b + 512 * k"
    using pk by (auto simp: buf_pok_def)
  have out: "a < buf p \<or> buf p + 512 * (l - s) \<le> a" if "a \<in> set A" for a
    using apart bk that by fastforce
  have sub: "set (addrs sl) \<subseteq> set A" unfolding sl(1) by (meson in_set_dropD in_set_takeD subsetI)
  have "\<forall>a\<in>set (addrs sl). a < buf p \<or> buf p + int (length (addrs sl)) \<le> a"
    using out sub sl(3) s(2) by auto
  note cp = copy_in_addrs [OF sl(2) _ this]
  have ds: "distinct (addrs sl)" using d by (simp add: sl(1))
  show "copy_in mem sl (buf p) a = mem a" if "a \<notin> set (take (nat (512 * (l - s))) (drop ?n A))" for a
    using cp(2) [OF ds] that sl(1) by simp
  fix i assume i: "i < length A" "?n \<le> i" "i < ?n + nat (512 * (l - s))"
  note x = sector_of [OF s(1) i(2,3) s(2)]
  have j: "i - ?n < length (addrs sl)" "addrs sl ! (i - ?n) = A ! i"
    using i sl(3) less_diff_conv2 [OF i(2)] by (simp add: add.commute, simp add: sl(1) less_diff_conv2 add.commute)
  have "copy_in mem sl (buf p) (A ! i) = mem (buf p + int (i - ?n))" using cp(1) [OF ds j(1)] j(2) by simp
  have sp: "sector_ptr_plus p (s0 + int (i div 512) - s) = Sector_ptr (buf p + (s0 + int (i div 512) - s) * 512)"
    using x buf_pok_len [OF pk] by (intro sector_ptr_plus_in) simp
  note \<open>copy_in mem sl (buf p) (A ! i) = mem (buf p + int (i - ?n))\<close>
  also have "buf p + int (i - ?n) \<notin> set A" using out j(1) sl(3) by fastforce
  then have "mem (buf p + int (i - ?n)) = mem0 (buf p + int (i - ?n))"
    using sv in_set_takeD by (fastforce simp: served_def)
  finally show "copy_in mem sl (buf p) (A ! i) = sector_byte ob mem0 bm om (s0 + int (i div 512)) (int (i mod 512))"
    unfolding x(3) using look [OF x(1,2)] sp by (simp add: sector_byte_def add.assoc mult.commute)
qed

lemma round_obj:
  assumes sv: "served ob bm om A mem0 s0 (nat (512 * (s - s0))) reqs mem" and d: "distinct A"
    and s: "s0 \<le> s" "s \<le> l" and pk: "obj_pok q n" "l - s \<le> n"
    and look: "\<And>x. s \<le> x \<Longrightarrow> x < l \<Longrightarrow> buf_look bm x = None \<and> obj_look om x = Some (ptr_plus lba2obj q (x - s))"
    and r: "addrs (cr_dest r) = take (nat (512 * (l - s))) (drop (nat (512 * (s - s0))) A)"
      "cr_seqnum r = obj q" "cr_offset r + cr_adjust r = offset q * 512"
  shows "served ob bm om A mem0 s0 (nat (512 * (l - s0))) (reqs @ [r]) mem"
  unfolding nat_off_add [OF s(1,2)]
proof (rule served_extend_req [OF sv d r(1)])
  fix i assume i: "i < length A" "nat (512 * (s - s0)) \<le> i" "i < nat (512 * (s - s0)) + nat (512 * (l - s))"
  note x = sector_of [OF s(1) i(2,3) s(2)]
  have "obj_offset_plus q (s0 + int (i div 512) - s) = Obj_offset (obj q) (offset q + (s0 + int (i div 512) - s))"
    using pk x by (intro obj_offset_plus_in) (simp_all add: obj_pok_def)
  then show "ob (cr_seqnum r) (cr_offset r + cr_adjust r + int (i - nat (512 * (s - s0))))
        = sector_byte ob mem0 bm om (s0 + int (i div 512)) (int (i mod 512))"
    using look [OF x(1,2)] x(3) r(2,3)
    by (simp add: sector_byte_def distrib_right left_diff_distrib add.assoc mult.commute)
qed

section \<open>The branches\<close>

lemma stands_at_next_if:
  assumes "objmap_ok om" "stands_at lba2obj om it s" "from_addr s om \<noteq> []" "s \<le> c" "c \<le> limit (hd (from_addr s om))"
  shows "stands_at lba2obj om (if c = limit (deref om it) then it_next om it else it) c"
proof -
  obtain e R where e: "from_addr s om = e # R" using assms(3) by (cases "from_addr s om") simp_all
  have d: "deref om it = e" by (rule stands_at_deref [OF assms(2) e])
  show ?thesis
  proof (cases "c = limit e")
    case True
    then show ?thesis using om.stands_at_next [OF assms(1,2) e] d by simp
  next
    case False
    then show ?thesis using stands_at_same [OF assms(2,4)] assms(5) e d by simp
  qed
qed

lemma read_invD:
  assumes "read_inv ob pf bm om iovs mem0 s0 t s"
  shows "served ob bm om (addrs iovs) mem0 s0 (nat (512 * (rl_start s - s0))) (rl_reqs s) (rl_mem s)"
    "s0 \<le> rl_start s" "rl_off s = 512 * (rl_start s - s0)"
  using assms unfolding read_inv_def by metis+

lemma branch_zero:
  assumes pre: "read_pre bufs pf bm om iovs s0 t" and inv: "read_inv ob pf bm om iovs mem0 s0 t s"
    and c: "rl_start s < c" "c \<le> buf_amax"
    and none: "\<And>x. rl_start s \<le> x \<Longrightarrow> x < c \<Longrightarrow> x < t \<Longrightarrow> buf_look bm x = None \<and> obj_look om x = None"
    and st: "c < t \<Longrightarrow> stands_at lba2buf bm (rl_bit s) c \<and> stands_at lba2obj om (rl_oit s) c"
  shows "read_inv ob pf bm om iovs mem0 s0 t (s\<lparr>rl_mem := zero_range (rl_mem s) iovs (rl_off s) (rl_off s + (c - rl_start s) * 512),
    rl_start := c, rl_off := rl_off s + (c - rl_start s) * 512\<rparr>)"
proof -
  note i = read_invD [OF inv]
  have p: "distinct (addrs iovs)" "iov_ok iovs" "0 \<le> s0" "int (length (addrs iovs)) = 512 * (t - s0)"
    using pre by (simp_all add: read_pre_def)
  have "served ob bm om (addrs iovs) mem0 s0 (nat (512 * (c - s0))) (rl_reqs s)
    (zero_range (rl_mem s) iovs (512 * (rl_start s - s0)) (512 * (rl_start s - s0) + (c - rl_start s) * 512))"
    by (rule round_zero [OF i(1) refl p(1,2) i(2) _ c(2) p(3,4)]) (use c none in auto)
  then show ?thesis using inv c st by (simp add: read_inv_def i(3) algebra_simps)
qed

lemma branch_buf:
  assumes pre: "read_pre bufs pf bm om iovs s0 t" and inv: "read_inv ob pf bm om iovs mem0 s0 t s"
    and l: "rl_start s < l" "l \<le> t" and pk: "buf_pok bufs p (l - rl_start s)"
    and look: "\<And>x. rl_start s \<le> x \<Longrightarrow> x < l \<Longrightarrow> buf_look bm x = Some (ptr_plus lba2buf p (x - rl_start s))"
    and st: "l < t \<Longrightarrow> stands_at lba2buf bm bi l \<and> stands_at lba2obj om oit l"
  obtains sl where "iov_slice iovs (rl_off s) (rl_off s + (l - rl_start s) * 512) = Some sl"
    "read_inv ob pf bm om iovs mem0 s0 t (s\<lparr>rl_mem := copy_in (rl_mem s) sl (buf p),
       rl_start := l, rl_off := rl_off s + (l - rl_start s) * 512, rl_oit := oit, rl_bit := bi\<rparr>)"
proof -
  note i = read_invD [OF inv]
  have p: "distinct (addrs iovs)" "iov_ok iovs" "t \<le> obj_amax" "int (length (addrs iovs)) = 512 * (t - s0)"
    "\<forall>(b, k)\<in>bufs. \<forall>a\<in>set (addrs iovs). a < b \<or> b + 512 * k \<le> a"
    using pre by (simp_all add: read_pre_def)
  obtain sl where sl: "iov_slice iovs (512 * (rl_start s - s0)) (512 * (rl_start s - s0) + (l - rl_start s) * 512) = Some sl"
    "addrs sl = take (nat (512 * (l - rl_start s))) (drop (nat (512 * (rl_start s - s0))) (addrs iovs))" "iov_ok sl"
    "length (addrs sl) = nat (512 * (l - rl_start s))"
    by (rule round_slice [OF refl p(2) i(2) _ l(2) p(4)]) (use l in auto)
  have "served ob bm om (addrs iovs) mem0 s0 (nat (512 * (l - s0))) (rl_reqs s) (copy_in (rl_mem s) sl (buf p))"
    by (rule round_buf [OF i(1) p(1) i(2) _ pk p(5) look sl(2-)]) (use l in simp_all)
  then have "read_inv ob pf bm om iovs mem0 s0 t (s\<lparr>rl_mem := copy_in (rl_mem s) sl (buf p),
       rl_start := l, rl_off := rl_off s + (l - rl_start s) * 512, rl_oit := oit, rl_bit := bi\<rparr>)"
    using inv l st p(3) by (simp add: read_inv_def i(3) algebra_simps obj_amax_def buf_amax_def)
  then show thesis using that sl(1) i(3) by simp
qed

lemma block_request:
  assumes "obj_pok q n" "0 < m" "m \<le> n"
  shows "round_down (offset q) block_sectors = block_sectors * (offset q div block_sectors)"
    "sbf 32 (offset q + m) = offset q + m"
    "0 < min (round_down (offset q) block_sectors + block_sectors) (sbf 32 (offset q + m)) - offset q"
    "min (round_down (offset q) block_sectors + block_sectors) (sbf 32 (offset q + m)) - offset q \<le> m"
    "offset q mod block_sectors + (min (round_down (offset q) block_sectors + block_sectors) (sbf 32 (offset q + m)) - offset q)
       \<le> block_sectors"
    "round_down (offset q) block_sectors * 512 + offset q mod block_sectors * 512 = offset q * 512"
    "round_down (offset q) block_sectors * 512 mod CACHE_CHUNK_SIZE = 0" "0 \<le> round_down (offset q) block_sectors * 512"
    "0 \<le> offset q mod block_sectors * 512" "CACHE_CHUNK_SIZE = 512 * block_sectors"
proof -
  have k: "block_sectors = 128" by (simp add: block_sectors_def CACHE_CHUNK_SIZE_def)
  show 1: "round_down (offset q) block_sectors = block_sectors * (offset q div block_sectors)"
    by (rule round_down_eq) (use assms in \<open>simp_all add: k obj_pok_def\<close>)
  show 2: "sbf 32 (offset q + m) = offset q + m" by (rule sbf_id) (use assms in \<open>simp_all add: obj_pok_def\<close>)
  have e: "offset q = 128 * (offset q div 128) + offset q mod 128" "0 \<le> offset q mod 128" "offset q mod 128 < 128" by simp_all
  then show "0 < min (round_down (offset q) block_sectors + block_sectors) (sbf 32 (offset q + m)) - offset q"
    "min (round_down (offset q) block_sectors + block_sectors) (sbf 32 (offset q + m)) - offset q \<le> m"
    "offset q mod block_sectors + (min (round_down (offset q) block_sectors + block_sectors) (sbf 32 (offset q + m)) - offset q)
       \<le> block_sectors"
    "round_down (offset q) block_sectors * 512 + offset q mod block_sectors * 512 = offset q * 512"
    unfolding k 1 [unfolded k] 2 using assms(2) by linarith+
  show "CACHE_CHUNK_SIZE = 512 * block_sectors" "0 \<le> offset q mod block_sectors * 512"
    by (simp_all add: k CACHE_CHUNK_SIZE_def)
  show "round_down (offset q) block_sectors * 512 mod CACHE_CHUNK_SIZE = 0" "0 \<le> round_down (offset q) block_sectors * 512"
    unfolding k 1 [unfolded k] CACHE_CHUNK_SIZE_def using assms(1)
    by (simp_all add: obj_pok_def pos_imp_zdiv_nonneg_iff)
qed

lemma branch_obj:
  assumes pre: "read_pre bufs pf bm om iovs s0 t" and inv: "read_inv ob pf bm om iovs mem0 s0 t s"
    and l: "rl_start s < l" "l \<le> t" and pk: "obj_pok q n" "l - rl_start s \<le> n"
    and look: "\<And>x. rl_start s \<le> x \<Longrightarrow> x < l \<Longrightarrow> buf_look bm x = None \<and> obj_look om x = Some (ptr_plus lba2obj q (x - rl_start s))"
    and st: "l < t \<Longrightarrow> stands_at lba2buf bm (rl_bit s) l \<and> stands_at lba2obj om oit l"
    and k: "k mod CACHE_CHUNK_SIZE = 0" "0 \<le> k" "0 \<le> a" "a + 512 * (l - rl_start s) \<le> CACHE_CHUNK_SIZE" "k + a = offset q * 512"
  obtains sl pre' where "iov_slice iovs (rl_off s) (rl_off s + (l - rl_start s) * 512) = Some sl" "pf (obj q) = Some pre'"
    "read_inv ob pf bm om iovs mem0 s0 t (s\<lparr>rl_reqs := rl_reqs s @
       [\<lparr>cr_prefix = pre', cr_seqnum = obj q, cr_offset = k, cr_adjust = a, cr_dest = sl\<rparr>],
       rl_off := rl_off s + (l - rl_start s) * 512, rl_start := l, rl_oit := oit\<rparr>)"
proof -
  note i = read_invD [OF inv]
  have p: "distinct (addrs iovs)" "iov_ok iovs" "t \<le> obj_amax" "int (length (addrs iovs)) = 512 * (t - s0)"
    "\<forall>x q. obj_look om x = Some q \<longrightarrow> pf (obj q) \<noteq> None"
    using pre by (simp_all add: read_pre_def)
  obtain sl where sl: "iov_slice iovs (512 * (rl_start s - s0)) (512 * (rl_start s - s0) + (l - rl_start s) * 512) = Some sl"
    "addrs sl = take (nat (512 * (l - rl_start s))) (drop (nat (512 * (rl_start s - s0))) (addrs iovs))" "iov_ok sl"
    "length (addrs sl) = nat (512 * (l - rl_start s))"
    by (rule round_slice [OF refl p(2) i(2) _ l(2) p(4)]) (use l in auto)
  have "obj_look om (rl_start s) = Some (obj_offset_plus q 0)" using look [of "rl_start s"] l by simp
  moreover have "obj (obj_offset_plus q 0) = obj q"
    using pk obj_offset_plus_in [of q 0] by (simp add: obj_pok_def)
  ultimately obtain pre' where pf: "pf (obj q) = Some pre'" using p(5) by force
  let ?r = "\<lparr>cr_prefix = pre', cr_seqnum = obj q, cr_offset = k, cr_adjust = a, cr_dest = sl\<rparr>"
  have "served ob bm om (addrs iovs) mem0 s0 (nat (512 * (l - s0))) (rl_reqs s @ [?r]) (rl_mem s)"
    by (rule round_obj [OF i(1) p(1) i(2) _ pk look]) (use l sl k in simp_all)
  moreover have "cache_read_ok pf ?r"
    using k pf sl(4) bytes_addrs [OF sl(3)] l by (simp add: cache_read_ok_def)
  ultimately have "read_inv ob pf bm om iovs mem0 s0 t (s\<lparr>rl_reqs := rl_reqs s @ [?r],
       rl_off := rl_off s + (l - rl_start s) * 512, rl_start := l, rl_oit := oit\<rparr>)"
    using inv l st p(3) by (simp add: read_inv_def i(3) algebra_simps obj_amax_def buf_amax_def)
  then show thesis using that sl(1) i(3) pf by simp
qed

section \<open>The loop\<close>

lemma buf_branch_iters:
  assumes ok: "bufmap_ok bufs bm" "objmap_ok om" and st: "stands_at lba2buf bm bi s" "stands_at lba2obj om oi s"
    and l: "s < l" "l = min (limit (hd (from_addr s bm))) t" "l < t" "from_addr s bm \<noteq> []"
  shows "stands_at lba2buf bm (it_next bm bi) l \<and> stands_at lba2obj om (it_skip (length (concat (lists om))) om l oi) l"
proof
  obtain e R where e: "from_addr s bm = e # R" using l(4) by (cases "from_addr s bm") simp_all
  show "stands_at lba2buf bm (it_next bm bi) l"
    by (rule bm.stands_at_next [OF ok(1) st(1) e]) (use l e in simp)
  have "length (from_addr s om) \<le> length (concat (lists om))"
    unfolding from_addr_def flat_def by (rule length_dropWhile_le)
  then show "stands_at lba2obj om (it_skip (length (concat (lists om))) om l oi) l"
    using om.stands_at_skip [OF ok(2) st(2)] l(1) by simp
qed

text \<open>Every round of the loop advances, keeps the invariant and never fails.\<close>

lemma read_round_spec:
  assumes pre: "read_pre bufs pf bm om iovs s0 t" and inv: "read_inv ob pf bm om iovs mem0 s0 t s" and lt: "rl_start s < t"
  shows "\<exists>s'. read_round pf bm om iovs t s = Some s' \<and> read_inv ob pf bm om iovs mem0 s0 t s' \<and> rl_start s < rl_start s'"
proof -
  obtain b l p where 1: "(b, l, p) = (if rl_bit s \<noteq> end_it bm then vals_in lba2buf (deref bm (rl_bit s)) (rl_start s) t
      else (t, t, Sector_ptr 0))" by (metis surj_pair)
  obtain b' l' q where 2: "(b', l', q) = (if rl_oit s \<noteq> end_it om then vals_in lba2obj (deref om (rl_oit s)) (rl_start s) t
      else (t, t, Obj_offset 0 0))" by (metis surj_pair)
  note I = inv [unfolded read_inv_def] and P = pre [unfolded read_pre_def]
  have st: "stands_at lba2buf bm (rl_bit s) (rl_start s)" "stands_at lba2obj om (rl_oit s) (rl_start s)"
    using I lt by simp_all
  have r: "0 \<le> rl_start s" "t \<le> obj_amax" "t \<le> buf_amax" using I P by (simp_all add: obj_amax_def buf_amax_def)
  have ok: "bufmap_ok bufs bm" "objmap_ok om" using P by simp_all
  note B = bm.ahead [OF ok(1) st(1) r(1) lt r(3) 1] and Bl = bm.ahead_le [OF ok(1) st(1) lt r(3) 1]
    and Bs = bm.stands_at_ahead [OF ok(1) st(1) r(1) lt r(3) 1]
  note O = om.ahead [OF ok(2) st(2) r(1) lt r(2) 2] and Os = om.stands_at_ahead [OF ok(2) st(2) r(1) lt r(2) 2]
  note run = read_round_def Let_def 1 [symmetric] 2 [symmetric] prod.case
  consider "rl_start s < min b b'" | "b = rl_start s" | "rl_start s < b" "b' = rl_start s"
    using B(1) O(1) by linarith
  then show ?thesis
  proof cases
    case 1
    have "read_inv ob pf bm om iovs mem0 s0 t (s\<lparr>rl_mem := zero_range (rl_mem s) iovs (rl_off s)
        (rl_off s + (min b b' - rl_start s) * 512), rl_start := min b b', rl_off := rl_off s + (min b b' - rl_start s) * 512\<rparr>)"
      by (rule branch_zero [OF pre inv 1]) (use 1 B(2) O(2) Bl Bs Os in auto)
    then show ?thesis unfolding run using 1 by simp
  next
    case 2
    have l: "rl_start s < l" "l \<le> t" "buf_pok bufs p (l - rl_start s)" "from_addr (rl_start s) bm \<noteq> []"
      "l = min (limit (hd (from_addr (rl_start s) bm))) t" using B(3,5) lt 2 by blast+
    from branch_buf [OF pre inv l(1-3), of "it_next bm (rl_bit s)" "it_skip (length (concat (lists om))) om l (rl_oit s)"]
      B(4) lt 2 buf_branch_iters [OF ok st l(1,5) _ l(4)]
    obtain sl where "iov_slice iovs (rl_off s) (rl_off s + (l - rl_start s) * 512) = Some sl"
      "read_inv ob pf bm om iovs mem0 s0 t (s\<lparr>rl_mem := copy_in (rl_mem s) sl (buf p), rl_start := l,
         rl_off := rl_off s + (l - rl_start s) * 512, rl_oit := it_skip (length (concat (lists om))) om l (rl_oit s),
         rl_bit := it_next bm (rl_bit s)\<rparr>)" by blast
    then show ?thesis unfolding run using 2 O(1) l(1) by simp
  next
    case 3
    have l: "rl_start s < l'" "l' \<le> t" "obj_pok q (l' - rl_start s)" "from_addr (rl_start s) om \<noteq> []" "rl_oit s \<noteq> end_it om"
      "l' = min (limit (hd (from_addr (rl_start s) om))) t" using O(3,5) lt 3 by blast+
    define m where "m = min l' b - rl_start s"
    define n where "n = rl_start s + (min (round_down (offset q) block_sectors + block_sectors) (sbf 32 (offset q + m)) - offset q)"
    have m: "0 < m" "m \<le> l' - rl_start s" using 3 l(1) by (simp_all add: m_def)
    note k = block_request [OF l(3) m]
    have n: "rl_start s < n" "n \<le> l'" "n \<le> b" "n \<le> t" using k(3,4) m l(2) by (simp_all add: n_def m_def)
    have look: "buf_look bm x = None \<and> obj_look om x = Some (ptr_plus lba2obj q (x - rl_start s))"
      if "rl_start s \<le> x" "x < n" for x using B(2) O(4) lt 3 that n by simp
    have a: "offset q mod block_sectors * 512 + 512 * (n - rl_start s) \<le> CACHE_CHUNK_SIZE"
      using k(5,10) by (simp add: n_def)
    have it: "stands_at lba2buf bm (rl_bit s) n \<and>
      stands_at lba2obj om (if n = limit (deref om (rl_oit s)) then it_next om (rl_oit s) else rl_oit s) n" if "n < t"
      using Bs [of n] stands_at_next_if [OF ok(2) st(2) l(4), of n] n l(6) that by simp
    obtain sl pre' where sl: "iov_slice iovs (rl_off s) (rl_off s + (n - rl_start s) * 512) = Some sl" "pf (obj q) = Some pre'"
      "read_inv ob pf bm om iovs mem0 s0 t (s\<lparr>rl_reqs := rl_reqs s @
       [\<lparr>cr_prefix = pre', cr_seqnum = obj q, cr_offset = round_down (offset q) block_sectors * 512,
         cr_adjust = offset q mod block_sectors * 512, cr_dest = sl\<rparr>],
       rl_off := rl_off s + (n - rl_start s) * 512, rl_start := n,
       rl_oit := if n = limit (deref om (rl_oit s)) then it_next om (rl_oit s) else rl_oit s\<rparr>)"
      by (rule branch_obj [OF pre inv n(1,4) l(3) _ look it k(7-9) a k(6)]) (use n(2) in auto)
    have e: "min (round_down (offset q) block_sectors + block_sectors) (sbf 32 (offset q + m)) - offset q = n - rl_start s"
      by (simp add: n_def)
    show ?thesis
      unfolding run using 3 l(5) sl n(1) by (simp add: m_def [symmetric] e)
  qed
qed

lemma read_rounds_spec:
  assumes pre: "read_pre bufs pf bm om iovs s0 t" and "read_inv ob pf bm om iovs mem0 s0 t s" "t - rl_start s \<le> int n"
  shows "\<exists>s'. read_rounds n pf bm om iovs t s = Some s' \<and> read_inv ob pf bm om iovs mem0 s0 t s' \<and> t \<le> rl_start s'"
  using assms(2,3)
proof (induction n arbitrary: s)
  case (Suc n)
  show ?case
  proof (cases "rl_start s < t")
    case True
    with read_round_spec [OF pre Suc.prems(1)] obtain s' where
      "read_round pf bm om iovs t s = Some s'" "read_inv ob pf bm om iovs mem0 s0 t s'" "rl_start s < rl_start s'" by blast
    then show ?thesis using Suc.IH [of s'] Suc.prems True by simp
  qed (use Suc.prems in simp)
qed simp

lemma stands_at_lookup:
  assumes "bufmap_ok bufs bm" "objmap_ok om" "0 \<le> s" "s < obj_amax"
  shows "stands_at lba2buf bm (if 0 < size_map bm then lookup lba2buf bm s else end_it bm) s"
    "stands_at lba2obj om (lookup lba2obj om s) s"
proof -
  have "s < buf_amax" using assms(4) by (simp add: obj_amax_def buf_amax_def)
  then have l: "stands_at lba2buf bm (lookup lba2buf bm s) s"
    using bm.lookup_cursor [OF assms(1,3)] assms(1) by (auto simp: stands_at_def from_addr_def map_ok_def)
  have si: "struct_inv lba2buf bm" using assms(1) by (simp add: map_ok_def)
  show "stands_at lba2buf bm (if 0 < size_map bm then lookup lba2buf bm s else end_it bm) s"
  proof (cases "0 < size_map bm")
    case False
    then have "flat bm = []" using si by (simp add: size_map_def struct_inv_def)
    then show ?thesis using False cursor_end_it [OF si] si by (auto simp: stands_at_def from_addr_def)
  qed (use l in simp)
  show "stands_at lba2obj om (lookup lba2obj om s) s"
    using om.lookup_cursor [OF assms(2-4)] assms(2) by (auto simp: stands_at_def from_addr_def map_ok_def)
qed

text \<open>The whole loop; the property below and the pipeline rest on it.\<close>

lemma handle_reads_spec:
  assumes "read_pre bufs pf bm om iovs s0 t"
  shows "case handle_reads pf bm om mem (512 * s0) iovs of
      None \<Rightarrow> False
    | Some (mem', reqs) \<Rightarrow>
        (\<forall>i<length (addrs iovs). after_reads ob reqs mem' (addrs iovs ! i)
           = sector_byte ob mem bm om (s0 + int (i div 512)) (int (i mod 512)))
        \<and> (\<forall>a. a \<notin> set (addrs iovs) \<longrightarrow> after_reads ob reqs mem' a = mem a)
        \<and> list_all (cache_read_ok pf) reqs"
proof -
  note P = assms [unfolded read_pre_def]
  let ?bi = "if 0 < size_map bm then lookup lba2buf bm s0 else end_it bm"
  let ?s = "\<lparr>rl_start = s0, rl_off = 0, rl_bit = ?bi, rl_oit = lookup lba2obj om s0, rl_mem = mem, rl_reqs = []\<rparr>"
  have e: "512 * s0 div 512 = s0" "s0 + bytes iovs div 512 = t" using P bytes_addrs [of iovs] by simp_all
  have "read_inv ob pf bm om iovs mem s0 t ?s"
    using P stands_at_lookup [of bufs bm om s0] by (simp add: read_inv_def served_def obj_amax_def buf_amax_def)
  from read_rounds_spec [OF assms this, of "nat (t - s0)"] obtain s where
    s: "read_rounds (nat (t - s0)) pf bm om iovs t ?s = Some s" "read_inv ob pf bm om iovs mem s0 t s" "t \<le> rl_start s"
    using P by auto
  have run: "handle_reads pf bm om mem (512 * s0) iovs = Some (rl_mem s, rl_reqs s)"
    unfolding handle_reads_def Let_def e using s(1) by simp
  have n: "length (addrs iovs) \<le> nat (rl_off s)" using s(2,3) P by (simp add: read_inv_def le_nat_iff)
  have sv: "served ob bm om (addrs iovs) mem s0 (nat (rl_off s)) (rl_reqs s) (rl_mem s)" "list_all (cache_read_ok pf) (rl_reqs s)"
    using s(2) unfolding read_inv_def by blast+
  have "after_reads ob (rl_reqs s) (rl_mem s) a = mem a" if "a \<notin> set (addrs iovs)" for a
    using find_none_outside [of "rl_reqs s" "set (addrs iovs)" a] sv(1) n that by (simp add: served_def after_reads_def)
  then show ?thesis using run sv n by (simp add: served_def)
qed

text \<open>
  C1. Reads. For well-formed maps and a sector-aligned request whose buffers do not overlap each
  other or the batch buffers, \<^verbatim>\<open>handle_reads\<close> runs to its end. Once the cache requests it
  issues are served, byte \<open>j\<close> of every sector of the request holds what the buffer map points at,
  else what the object map points at, else zero; no memory outside the caller's buffers changes;
  every cache request is aligned to a cache chunk and stays inside it.
\<close>

theorem handle_reads_correct:
  assumes "read_pre bufs pf bm om iovs s0 t"
  shows "case handle_reads pf bm om mem (512 * s0) iovs of
      None \<Rightarrow> False
    | Some (mem', reqs) \<Rightarrow>
        (\<forall>i<length (addrs iovs). after_reads ob reqs mem' (addrs iovs ! i)
           = sector_byte ob mem bm om (s0 + int (i div 512)) (int (i mod 512)))
        \<and> (\<forall>a. a \<notin> set (addrs iovs) \<longrightarrow> after_reads ob reqs mem' a = mem a)
        \<and> list_all (cache_read_ok pf) reqs"
  by (rule handle_reads_spec [OF assms])

definition demo_bufs :: bufmap where
  "demo_bufs = update lba2buf extmap_empty 3 5 (Sector_ptr 4096)"

definition demo_objs :: objmap where
  "demo_objs = update lba2obj extmap_empty 2 4 (Obj_offset 7 8)"

definition demo_iov :: smartiov where
  "demo_iov = mk_smartiov1 65536 2560"

lemma demo_addrs:
  "length (addrs demo_iov) = 2560" "i < 2560 \<Longrightarrow> addrs demo_iov ! i = 65536 + int i" "iov_ok demo_iov"
  "distinct (addrs demo_iov)" "a \<in> set (addrs demo_iov) \<Longrightarrow> 65536 \<le> a"
proof -
  have a: "addrs demo_iov = [65536..65536 + 2560 - 1]"
    unfolding demo_iov_def mk_smartiov1_def addrs_simps by (simp only: iovec.simps append_Nil2)
  show "length (addrs demo_iov) = 2560" unfolding a length_upto by simp
  then show "iov_ok demo_iov" by (simp add: iov_ok_def) (simp add: demo_iov_def mk_smartiov1_def)
  show "i < 2560 \<Longrightarrow> addrs demo_iov ! i = 65536 + int i" unfolding a by (rule upto_nth) simp
  show "distinct (addrs demo_iov)" unfolding a by (rule distinct_upto)
  show "a \<in> set (addrs demo_iov) \<Longrightarrow> 65536 \<le> a" unfolding a set_upto by simp
qed

lemma demo_maps:
  "bufmap_ok {(4096, 8)} demo_bufs" "objmap_ok demo_objs"
  "buf_look demo_bufs x = (if 3 \<le> x \<and> x < 5 then Some (Sector_ptr (4096 + (x - 3) * 512)) else None)"
  "obj_look demo_objs x = (if 2 \<le> x \<and> x < 4 then Some (Obj_offset 7 (8 + (x - 2))) else None)"
proof -
  have "buf_pok {(4096, 8)} (Sector_ptr 4096) (5 - 3)" "obj_pok (Obj_offset 7 8) (4 - 2)"
    by (simp_all add: buf_pok_def obj_pok_def separate_def)
  then have b: "bufmap_ok {(4096, 8)} demo_bufs \<and> buf_look demo_bufs = map_upd lba2buf (buf_look extmap_empty) 3 5 (Sector_ptr 4096)"
    and o: "objmap_ok demo_objs \<and> obj_look demo_objs = map_upd lba2obj (obj_look extmap_empty) 2 4 (Obj_offset 7 8)"
    unfolding demo_bufs_def demo_objs_def
    using bm.update_ok [OF map_ok_empty, where bufs = "{(4096, 8)}", of 3 5 "Sector_ptr 4096"]
      om.update_ok [OF map_ok_empty, of 2 4 "Obj_offset 7 8"] by (simp_all add: obj_amax_def buf_amax_def)
  show "bufmap_ok {(4096, 8)} demo_bufs" "objmap_ok demo_objs" using b o by simp_all
  show "buf_look demo_bufs x = (if 3 \<le> x \<and> x < 5 then Some (Sector_ptr (4096 + (x - 3) * 512)) else None)"
    using b by (simp add: map_upd_def lookup_fun_empty sector_ptr_plus_in)
  show "obj_look demo_objs x = (if 2 \<le> x \<and> x < 4 then Some (Obj_offset 7 (8 + (x - 2))) else None)"
    using o by (simp add: map_upd_def lookup_fun_empty obj_offset_plus_in)
qed

lemma demo_read_pre: "read_pre {(4096, 8)} (\<lambda>_. Some ''vol'') demo_bufs demo_objs demo_iov 1 6"
proof -
  have "\<forall>a\<in>set (addrs demo_iov). a < 4096 \<or> 8192 \<le> a" using demo_addrs(5) by fastforce
  moreover have "6 \<le> obj_amax" by (simp add: obj_amax_def)
  ultimately show ?thesis by (simp add: read_pre_def demo_addrs(1,3,4) demo_maps(1,2))
qed

theorem handle_reads_correct_witness:
  "\<exists>mem reqs. handle_reads (\<lambda>_. Some ''vol'') demo_bufs demo_objs (\<lambda>a. if a = 4096 then 9 else 1) 512 demo_iov = Some (mem, reqs)
     \<and> after_reads (\<lambda>n k. if n = 7 \<and> k = 4096 then 5 else 2) reqs mem 65536 = 0
     \<and> after_reads (\<lambda>n k. if n = 7 \<and> k = 4096 then 5 else 2) reqs mem 66048 = 5
     \<and> after_reads (\<lambda>n k. if n = 7 \<and> k = 4096 then 5 else 2) reqs mem 66560 = 9"
proof -
  let ?ob = "\<lambda>n k. if n = 7 \<and> k = 4096 then 5 else 2 :: byte" and ?mem = "\<lambda>a. if a = 4096 then 9 else 1 :: byte"
  obtain mem reqs where h: "handle_reads (\<lambda>_. Some ''vol'') demo_bufs demo_objs ?mem 512 demo_iov = Some (mem, reqs)"
    "\<forall>i<2560. after_reads ?ob reqs mem (addrs demo_iov ! i)
       = sector_byte ?ob ?mem demo_bufs demo_objs (1 + int (i div 512)) (int (i mod 512))"
    using handle_reads_correct [OF demo_read_pre, where mem = ?mem and ob = ?ob] demo_addrs(1) by (auto split: option.splits)
  show ?thesis
    using h(1) h(2) [rule_format, of 0] h(2) [rule_format, of 512] h(2) [rule_format, of 1024]
    by (simp add: demo_addrs sector_byte_def demo_maps)
qed

end
