(* ===== verification/Translate_Live.thy ===== *)
theory Translate_Live
  imports Translate
begin

text \<open>
  What the loops over the entries of a batch do to the object map, and the accounting of live
  sectors that garbage collection relies on: the number of sectors the map still sends to an object.
\<close>

section \<open>Where a batch puts a sector\<close>

text \<open>The position of sector \<open>x\<close> in a batch that starts at \<open>off\<close>: the last entry that covers it.\<close>

fun batch_pos :: "(int \<times> int) list \<Rightarrow> int \<Rightarrow> int \<Rightarrow> int option" where
  "batch_pos [] off x = None"
| "batch_pos ((lba, len) # es) off x =
     (case batch_pos es (off + len) x of
        Some i \<Rightarrow> Some i
      | None \<Rightarrow> if lba \<le> x \<and> x < lba + len then Some (off + (x - lba)) else None)"

definition total_len :: "(int \<times> int) list \<Rightarrow> int" where
  "total_len es = sum_list (map snd es)"

definition ranges_ok :: "(int \<times> int) list \<Rightarrow> bool" where
  "ranges_ok es \<longleftrightarrow> list_all (\<lambda>(lba, len). 0 \<le> lba \<and> 0 < len \<and> lba + len \<le> obj_amax) es"

lemma total_len_simps [simp]:
  "total_len [] = 0" "total_len ((lba, len) # es) = len + total_len es"
  "total_len (xs @ ys) = total_len xs + total_len ys"
  by (simp_all add: total_len_def)

lemma ranges_ok_simps [simp]:
  "ranges_ok []"
  "ranges_ok ((lba, len) # es) \<longleftrightarrow> 0 \<le> lba \<and> 0 < len \<and> lba + len \<le> obj_amax \<and> ranges_ok es"
  "ranges_ok (xs @ ys) \<longleftrightarrow> ranges_ok xs \<and> ranges_ok ys"
  by (auto simp: ranges_ok_def)

lemma total_len_nonneg: "ranges_ok es \<Longrightarrow> 0 \<le> total_len es"
proof (induction es)
  case (Cons e es)
  then show ?case by (cases e) auto
qed simp

lemma batch_pos_append:
  "batch_pos (xs @ ys) off x =
     (case batch_pos ys (off + total_len xs) x of Some i \<Rightarrow> Some i | None \<Rightarrow> batch_pos xs off x)"
  by (induction xs arbitrary: off) (auto simp: add.assoc split: option.splits)

lemma batch_pos_range:
  "ranges_ok es \<Longrightarrow> batch_pos es off x = Some i \<Longrightarrow> off \<le> i \<and> i < off + total_len es"
proof (induction es arbitrary: off)
  case (Cons e es)
  obtain lba len where e: "e = (lba, len)" by (metis surj_pair)
  then show ?case
    using Cons.IH [of "off + len"] Cons.prems total_len_nonneg [of es]
    by (auto split: option.splits if_splits)
qed simp

lemma batch_pos_shift: "batch_pos es (off + k) x = map_option ((+) k) (batch_pos es off x)"
proof (induction es arbitrary: off)
  case (Cons e es)
  obtain lba len where e: "e = (lba, len)" by (metis surj_pair)
  have "off + k + len = off + len + k" by simp
  then have IH: "batch_pos es (off + k + len) x = map_option ((+) k) (batch_pos es (off + len) x)"
    using Cons.IH [of "off + len"] by argo
  then show ?case by (cases "batch_pos es (off + len) x") (simp_all add: e)
qed simp

section \<open>Counting\<close>

definition live_set :: "objmap \<Rightarrow> int \<Rightarrow> int set" where
  "live_set om ob = {x. \<exists>i. obj_look om x = Some (Obj_offset ob i)}"

definition live_count :: "objmap \<Rightarrow> int \<Rightarrow> int" where
  "live_count om ob = int (card (live_set om ob))"

definition disc_count :: "obj_offset extent list \<Rightarrow> int \<Rightarrow> int" where
  "disc_count del ob = sum_list (map s_len (filter (\<lambda>e. obj (s_ptr e) = ob) del))"

lemma disc_count_simps [simp]:
  "disc_count [] ob = 0"
  "disc_count (e # del) ob = (if obj (s_ptr e) = ob then s_len e else 0) + disc_count del ob"
  "disc_count (xs @ ys) ob = disc_count xs ob + disc_count ys ob"
  by (simp_all add: disc_count_def)

lemma extents_bounded:
  assumes "extents_ok obj_amax obj_pok es" "seq_get lba2obj es x = Some p"
  shows "0 \<le> x \<and> x < obj_amax"
  using seq_get_SomeD [OF assms(2)] extents_ok_mem [OF assms(1)] by (force simp: ext_ok_def limit_def)

lemma finite_seq_get:
  "extents_ok obj_amax obj_pok es \<Longrightarrow> finite {x. \<exists>p. seq_get lba2obj es x = Some p \<and> P x p}"
  by (rule finite_subset [of _ "{0..obj_amax}"]) (auto dest: extents_bounded)

lemma finite_live_set: "objmap_ok om \<Longrightarrow> finite (live_set om ob)"
  unfolding live_set_def lookup_fun_def map_ok_def
  by (rule finite_subset [OF _ finite_seq_get [of "flat om" "\<lambda>x p. True"]]) auto

lemma obj_of_ext_get: "ext_get lba2obj e x = Some p \<Longrightarrow> obj p = obj (s_ptr e)"
  by (auto simp: ext_get_def obj_offset_plus_def split: if_splits)

text \<open>The lengths of disjoint extents add up to the number of sectors they cover.\<close>

lemma disc_count_card:
  assumes "extents_ok obj_amax obj_pok D"
  shows "disc_count D ob = int (card {x. \<exists>p. seq_get lba2obj D x = Some p \<and> obj p = ob})"
  using assms
proof (induction D)
  case (Cons e D)
  let ?A = "{x. \<exists>p. ext_get lba2obj e x = Some p \<and> obj p = ob}"
  let ?B = "{x. \<exists>p. seq_get lba2obj D x = Some p \<and> obj p = ob}"
  have ok: "extents_ok obj_amax obj_pok D" "ext_ok obj_amax obj_pok e" using Cons.prems by simp_all
  have none: "seq_get lba2obj D x = None" if "x < limit e" for x
    by (rule seq_get_None) (use Cons.prems that in force)
  have A: "?A = (if obj (s_ptr e) = ob then {s_base e..<limit e} else {})"
    using obj_of_ext_get by (auto simp: ext_get_def obj_offset_plus_def)
  have "{x. \<exists>p. seq_get lba2obj (e # D) x = Some p \<and> obj p = ob} = ?A \<union> ?B"
    using none by (auto simp: ext_get_def split: option.splits if_splits)
  moreover have "?A \<inter> ?B = {}" using none by (auto simp: A ext_get_def split: if_splits)
  moreover have "finite ?A" "finite ?B" using A finite_seq_get [OF ok(1), of "\<lambda>x p. obj p = ob"] by auto
  moreover have "int (card ?A) = (if obj (s_ptr e) = ob then s_len e else 0)"
    using ok(2) unfolding A by (simp add: limit_def ext_ok_def)
  ultimately show ?case using Cons.IH [OF ok(1)] by (simp add: card_Un_disjoint)
qed simp

lemma mk_obj_offset_id: "0 \<le> seq \<Longrightarrow> seq < 2 ^ 32 \<Longrightarrow> 0 \<le> off \<Longrightarrow> off < 2 ^ 23 \<Longrightarrow>
    mk_obj_offset seq off = Obj_offset seq off"
  by (simp add: mk_obj_offset_def sbf_id)

text \<open>One update: what it discards leaves the objects, what it maps joins object \<open>seq\<close>.\<close>

lemma live_count_update:
  assumes ok: "objmap_ok om" and bl: "0 \<le> b" "b < l" "l \<le> obj_amax" and p: "obj_pok (Obj_offset seq off) (l - b)"
    and s: "update_del lba2obj om b l (Obj_offset seq off) del = (om', del')"
  shows "live_count om' ob = live_count om ob - (disc_count del' ob - disc_count del ob)
    + (if ob = seq then l - b else 0)"
proof -
  note u = om.update_del_ok [OF ok bl p s]
  from u(3) obtain D where D: "del' = del @ D" "extents_ok obj_amax obj_pok D"
    "seq_get lba2obj D = map_slice (obj_look om) b l" by blast
  let ?C = "live_set om ob \<inter> {b..<l}"
  have look: "obj_look om' x = (if b \<le> x \<and> x < l then Some (Obj_offset seq (off + (x - b))) else obj_look om x)" for x
    using u(2) p bl by (simp add: map_upd_def obj_pok_def obj_offset_plus_in)
  have "live_set om' ob = (live_set om ob - ?C) \<union> (if ob = seq then {b..<l} else {})"
    by (auto simp: live_set_def look split: if_splits)
  moreover have "finite (live_set om ob)" by (rule finite_live_set [OF ok])
  moreover have "card (live_set om ob - ?C) = card (live_set om ob) - card ?C" "card ?C \<le> card (live_set om ob)"
    using calculation(2) by (auto intro: card_Diff_subset card_mono)
  moreover have "disc_count D ob = int (card ?C)"
  proof -
    have "{x. \<exists>p. seq_get lba2obj D x = Some p \<and> obj p = ob} = ?C"
      by (auto simp: D(3) map_slice_def live_set_def) (metis obj_offset.exhaust_sel)
    then show ?thesis using disc_count_card [OF D(2)] by simp
  qed
  moreover have "(live_set om ob - ?C) \<inter> {b..<l} = {}" by auto
  ultimately show ?thesis using D(1) bl by (auto simp: live_count_def card_Un_disjoint)
qed

lemma map_entries_spec:
  assumes "objmap_ok om" "ranges_ok es" "0 \<le> seq" "seq < 2 ^ 32" "0 \<le> off" "off + total_len es < 2 ^ 23"
    "map_entries seq off es om del = (om', del')"
  shows "objmap_ok om'
    \<and> (\<forall>x. obj_look om' x = (case batch_pos es off x of Some i \<Rightarrow> Some (Obj_offset seq i) | None \<Rightarrow> obj_look om x))
    \<and> (\<forall>ob. live_count om' ob = live_count om ob - (disc_count del' ob - disc_count del ob)
           + (if ob = seq then total_len es else 0))
    \<and> (\<exists>D. del' = del @ D \<and> list_all (ext_ok obj_amax obj_pok) D)"
  using assms
proof (induction es arbitrary: off om del)
  case (Cons e es)
  obtain lba len where e: "e = (lba, len)" by (metis surj_pair)
  obtain om1 del1 where s: "update_del lba2obj om lba (lba + len) (Obj_offset seq off) del = (om1, del1)"
    by (metis surj_pair)
  have r: "0 \<le> lba" "lba < lba + len" "lba + len \<le> obj_amax" "ranges_ok es" "0 < len" using Cons.prems(2) e by simp_all
  have tl: "0 \<le> total_len es" using r(4) by (rule total_len_nonneg)
  have p: "obj_pok (Obj_offset seq off) (lba + len - lba)" using Cons.prems(5,6) tl r e by (simp add: obj_pok_def)
  note u = om.update_del_ok [OF Cons.prems(1) r(1-3) p s]
  note c = live_count_update [OF Cons.prems(1) r(1-3) p s]
  have "map_entries seq (off + len) es om1 del1 = (om', del')"
    using Cons.prems(3-7) s e tl r by (simp add: mk_obj_offset_id)
  from Cons.IH [OF u(1) r(4) Cons.prems(3,4) _ _ this] Cons.prems(5,6) r e
  have IH: "objmap_ok om'"
    "\<And>x. obj_look om' x = (case batch_pos es (off + len) x of Some i \<Rightarrow> Some (Obj_offset seq i) | None \<Rightarrow> obj_look om1 x)"
    "\<And>ob. live_count om' ob = live_count om1 ob - (disc_count del' ob - disc_count del1 ob)
         + (if ob = seq then total_len es else 0)"
    "\<exists>D. del' = del1 @ D \<and> list_all (ext_ok obj_amax obj_pok) D" by (simp_all add: add.assoc)
  have look1: "obj_look om1 x = (if lba \<le> x \<and> x < lba + len then Some (Obj_offset seq (off + (x - lba))) else obj_look om x)" for x
    using u(2) p by (simp add: map_upd_def obj_pok_def obj_offset_plus_in)
  have "obj_look om' x = (case batch_pos (e # es) off x of Some i \<Rightarrow> Some (Obj_offset seq i) | None \<Rightarrow> obj_look om x)" for x
    using IH(2) look1 by (simp add: e split: option.split)
  moreover have "live_count om' ob = live_count om ob - (disc_count del' ob - disc_count del ob)
         + (if ob = seq then total_len (e # es) else 0)" for ob
    using IH(3) c by (simp add: e)
  moreover have "\<exists>D. del' = del @ D \<and> list_all (ext_ok obj_amax obj_pok) D"
    using u(3) IH(4) by (fastforce simp: extents_ok_def list_all_iff)
  ultimately show ?case using IH(1) by blast
qed simp

section \<open>The accounting loop\<close>

lemma disc_count_nonneg: "list_all (ext_ok obj_amax obj_pok) D \<Longrightarrow> 0 \<le> disc_count D ob"
  by (induction D) (auto simp: ext_ok_def)

text \<open>
  \<open>drop_live\<close> subtracts from each object what was discarded of it; it does not fail as long as no
  object has fewer live sectors than that.
\<close>

lemma drop_live_spec:
  assumes "list_all (ext_ok obj_amax obj_pok) D"
    "\<And>ob oi. RBT.lookup info ob = Some oi \<Longrightarrow> disc_count D ob \<le> oi_live oi"
  shows "\<exists>info'. drop_live D (info, tot) =
      Some (info', tot - sum_list (map s_len (filter (\<lambda>e. RBT.lookup info (obj (s_ptr e)) \<noteq> None) D)))
    \<and> (\<forall>ob. RBT.lookup info' ob = map_option (\<lambda>oi. oi\<lparr>oi_live := oi_live oi - disc_count D ob\<rparr>) (RBT.lookup info ob))"
  using assms
proof (induction D arbitrary: info tot)
  case Nil
  have "map_option (\<lambda>oi. oi\<lparr>oi_live := oi_live oi - 0\<rparr>) v = v" for v :: "data_obj_info option"
    by (cases v) simp_all
  then show ?case by simp
next
  case (Cons d D)
  have v: "vals d = (s_base d, s_base d + s_len d, s_ptr d)" by (simp add: vals_def)
  have nn: "0 \<le> disc_count D ob" for ob using Cons.prems(1) disc_count_nonneg by simp
  show ?case
  proof (cases "RBT.lookup info (obj (s_ptr d))")
    case None
    have "disc_count D ob \<le> oi_live oi" if "RBT.lookup info ob = Some oi" for ob oi
      using Cons.prems(2) [OF that] None that by (auto split: if_splits)
    from Cons.IH [of info tot, OF _ this] Cons.prems(1) obtain info' where
      i: "drop_live D (info, tot) = Some (info', tot -
          sum_list (map s_len (filter (\<lambda>e. RBT.lookup info (obj (s_ptr e)) \<noteq> None) D)))"
      "\<forall>ob. RBT.lookup info' ob = map_option (\<lambda>oi. oi\<lparr>oi_live := oi_live oi - disc_count D ob\<rparr>) (RBT.lookup info ob)"
      by auto
    have "RBT.lookup info' ob = map_option (\<lambda>oi. oi\<lparr>oi_live := oi_live oi - disc_count (d # D) ob\<rparr>) (RBT.lookup info ob)" for ob
      using i(2) None by (cases "obj (s_ptr d) = ob") auto
    then show ?thesis using i(1) None by (auto simp: v)
  next
    case (Some oi)
    let ?ob = "obj (s_ptr d)"
    let ?oi = "oi\<lparr>oi_live := oi_live oi - s_len d\<rparr>"
    let ?info = "RBT.insert ?ob ?oi info"
    have live: "s_len d + disc_count D ?ob \<le> oi_live oi" using Cons.prems(2) [OF Some] by simp
    have "disc_count D ob \<le> oi_live oi'" if "RBT.lookup ?info ob = Some oi'" for ob oi'
      using that live Cons.prems(2) [of ob oi'] by (auto split: if_splits)
    from Cons.IH [of ?info "tot - s_len d", OF _ this] Cons.prems(1) obtain info' where
      i: "drop_live D (?info, tot - s_len d) = Some (info', tot - s_len d -
          sum_list (map s_len (filter (\<lambda>e. RBT.lookup ?info (obj (s_ptr e)) \<noteq> None) D)))"
      "\<forall>ob. RBT.lookup info' ob = map_option (\<lambda>oi. oi\<lparr>oi_live := oi_live oi - disc_count D ob\<rparr>) (RBT.lookup ?info ob)"
      by auto
    have f: "filter (\<lambda>e. RBT.lookup ?info (obj (s_ptr e)) \<noteq> None) D = filter (\<lambda>e. RBT.lookup info (obj (s_ptr e)) \<noteq> None) D"
      using Some by (intro filter_cong) auto
    have "0 \<le> oi_live oi - s_len d" using live nn [of ?ob] by linarith
    then have "drop_live (d # D) (info, tot) = drop_live D (?info, tot - s_len d)"
      by (simp add: v Some)
    then show ?thesis using i Some unfolding f
      by (intro exI [of _ info']) (auto simp: algebra_simps)
  qed
qed

end
