(* ===== verification/Objects_Codec.thy ===== *)
theory Objects_Codec
  imports Objects
begin

text \<open>
  The encodings of the packed structs can be decoded again, and the headers that the program writes
  are parsed back to what was written.
\<close>

section \<open>Structs\<close>

definition u32 :: "int \<Rightarrow> bool" where
  "u32 v \<longleftrightarrow> 0 \<le> v \<and> v < 2 ^ 32"

definition u64 :: "int \<Rightarrow> bool" where
  "u64 v \<longleftrightarrow> 0 \<le> v \<and> v < 2 ^ 64"

lemma u32_mod: "u32 v \<Longrightarrow> v mod 256 ^ 4 = v"
  by (simp add: u32_def)

lemma u64_mod: "u64 v \<Longrightarrow> v mod 256 ^ 8 = v"
  by (simp add: u64_def)

lemma get_le_skip: "get_le (p @ bs) (length p + k) n = get_le bs k n"
  by (simp add: get_le_def)

lemma get_le_skip0: "get_le (p @ bs) (length p) n = get_le bs 0 n"
  by (simp add: get_le_def)

lemma get_bytes_skip: "get_bytes (p @ bs) (length p + k) n = get_bytes bs k n"
  by (simp add: get_bytes_def)

lemmas get_skips = get_le_skip get_le_skip0 get_bytes_skip

definition common_ok :: "common_obj_hdr \<Rightarrow> bool" where
  "common_ok h \<longleftrightarrow> u32 (h_magic h) \<and> u32 (h_version h) \<and> length (h_vol_uuid h) = 16 \<and> u32 (h_type h)
     \<and> u32 (h_seq h) \<and> u32 (h_hdr_sectors h) \<and> u32 (h_data_sectors h) \<and> u32 (h_crc h)"

lemma length_enc_common [simp]: "length (h_vol_uuid h) = 16 \<Longrightarrow> length (enc_common_obj_hdr h) = 44"
  by (simp add: enc_common_obj_hdr_def)

lemma dec_enc_common:
  assumes "common_ok h"
  shows "dec_common_obj_hdr (p @ enc_common_obj_hdr h @ q) (length p) = h"
  using assms unfolding dec_common_obj_hdr_def get_skips enc_common_obj_hdr_def
  by (simp add: get_le_def get_bytes_def common_ok_def u32_def)

definition data_hdr_ok :: "obj_data_hdr \<Rightarrow> bool" where
  "data_hdr_ok h \<longleftrightarrow> u64 (d_cache_seq h) \<and> u32 (d_objs_cleaned_offset h) \<and> u32 (d_objs_cleaned_len h)
     \<and> u32 (d_data_map_offset h) \<and> u32 (d_data_map_len h) \<and> u32 (d_is_gc h)"

lemma length_enc_data_hdr [simp]: "length (enc_obj_data_hdr h) = 28"
  by (simp add: enc_obj_data_hdr_def)

lemma dec_enc_data_hdr:
  assumes "data_hdr_ok h"
  shows "dec_obj_data_hdr (p @ enc_obj_data_hdr h @ q) (length p) = h"
  using assms unfolding dec_obj_data_hdr_def get_skips enc_obj_data_hdr_def
  by (simp add: get_le_def data_hdr_ok_def u32_def u64_def)

lemma length_enc_data_map [simp]: "length (enc_data_map m) = 8"
  by (simp add: enc_data_map_def)

lemma dec_enc_data_map:
  assumes "0 \<le> dm_lba m" "dm_lba m < 2 ^ 36" "0 \<le> dm_len m" "dm_len m < 2 ^ 28"
  shows "dec_data_map (p @ enc_data_map m @ q) (length p) = m"
  using assms unfolding dec_data_map_def get_skips enc_data_map_def
  by (simp add: get_le_def)

definition ckpt_hdr_ok :: "obj_ckpt_hdr \<Rightarrow> bool" where
  "ckpt_hdr_ok h \<longleftrightarrow> u64 (c_cache_seq h) \<and> u32 (c_ckpts_offset h) \<and> u32 (c_ckpts_len h)
     \<and> u32 (c_objs_offset h) \<and> u32 (c_objs_len h) \<and> u32 (c_deletes_offset h) \<and> u32 (c_deletes_len h)
     \<and> u32 (c_map_offset h) \<and> u32 (c_map_len h)"

lemma length_enc_ckpt_hdr [simp]: "length (enc_obj_ckpt_hdr h) = 40"
  by (simp add: enc_obj_ckpt_hdr_def)

lemma dec_enc_ckpt_hdr:
  assumes "ckpt_hdr_ok h"
  shows "dec_obj_ckpt_hdr (p @ enc_obj_ckpt_hdr h @ q) (length p) = h"
  using assms unfolding dec_obj_ckpt_hdr_def get_skips enc_obj_ckpt_hdr_def
  by (simp add: get_le_def ckpt_hdr_ok_def u32_def u64_def)

definition ckpt_obj_ok :: "ckpt_obj \<Rightarrow> bool" where
  "ckpt_obj_ok c \<longleftrightarrow> u32 (co_seq c) \<and> u32 (co_hdr_sectors c) \<and> u32 (co_data_sectors c) \<and> u32 (co_live_sectors c)"

lemma length_enc_ckpt_obj [simp]: "length (enc_ckpt_obj c) = 16"
  by (simp add: enc_ckpt_obj_def)

lemma dec_enc_ckpt_obj:
  assumes "ckpt_obj_ok c"
  shows "dec_ckpt_obj (p @ enc_ckpt_obj c @ q) (length p) = c"
  using assms unfolding dec_ckpt_obj_def get_skips enc_ckpt_obj_def
  by (simp add: get_le_def ckpt_obj_ok_def u32_def)

definition mapentry_ok :: "ckpt_mapentry \<Rightarrow> bool" where
  "mapentry_ok m \<longleftrightarrow> - (2 ^ 35) \<le> me_lba m \<and> me_lba m < 2 ^ 35 \<and> - (2 ^ 27) \<le> me_len m \<and> me_len m < 2 ^ 27
     \<and> - (2 ^ 31) \<le> me_obj m \<and> me_obj m < 2 ^ 31 \<and> - (2 ^ 31) \<le> me_offset m \<and> me_offset m < 2 ^ 31"

lemma length_enc_mapentry [simp]: "length (enc_ckpt_mapentry m) = 16"
  by (simp add: enc_ckpt_mapentry_def)

lemma sbf_mod: "0 < w \<Longrightarrow> sbf w (v mod 2 ^ w) = sbf w v"
  by (cases w) (simp_all add: sbf_def signed_take_bit_eq_iff_take_bit_eq take_bit_eq_mod)

lemma sbf_ubf_plus: "0 < w \<Longrightarrow> sbf w (ubf w v + 2 ^ w * u) = sbf w v"
  using sbf_mod [of w "ubf w v + 2 ^ w * u"] sbf_mod [of w v] by (simp add: ubf_def take_bit_eq_mod)

lemma dec_enc_mapentry:
  assumes "mapentry_ok m"
  shows "dec_ckpt_mapentry (p @ enc_ckpt_mapentry m @ q) (length p) = m"
proof -
  define v where "v = ubf 36 (me_lba m) + 2 ^ 36 * ubf 28 (me_len m)"
  have a: "0 \<le> ubf 36 (me_lba m)" "ubf 36 (me_lba m) < 2 ^ 36" "0 \<le> ubf 28 (me_len m)" "ubf 28 (me_len m) < 2 ^ 28"
    by (rule ubf_range)+
  have "v mod 256 ^ 8 = v" using a by (simp add: v_def)
  moreover have "v div 2 ^ 36 = ubf 28 (me_len m)" using a by (simp add: v_def)
  moreover have "sbf 36 v = me_lba m"
    using assms sbf_ubf_plus [of 36 "me_lba m"] sbf_id [of 36 "me_lba m"] by (simp add: v_def mapentry_ok_def)
  moreover have "sbf 28 (ubf 28 (me_len m)) = me_len m"
    using assms sbf_ubf_plus [of 28 "me_len m" 0] sbf_id [of 28 "me_len m"] by (simp add: mapentry_ok_def)
  moreover have "sbf 32 (me_obj m mod 256 ^ 4) = me_obj m" "sbf 32 (me_offset m mod 256 ^ 4) = me_offset m"
    using assms sbf_mod [of 32 "me_obj m"] sbf_mod [of 32 "me_offset m"] sbf_id [of 32 "me_obj m"]
      sbf_id [of 32 "me_offset m"] by (simp_all add: mapentry_ok_def)
  ultimately show ?thesis
    unfolding dec_ckpt_mapentry_def get_skips enc_ckpt_mapentry_def v_def [symmetric]
    by (simp add: get_le_def Let_def)
qed

section \<open>The superblock\<close>

text \<open>
  A buffer that can be handed to \<^verbatim>\<open>serialise_superblock\<close>: the code adds to \<^verbatim>\<open>clones_len\<close> without
  resetting it, so the field has to be zero.
\<close>

definition sb_buf_ok :: "byte list \<Rightarrow> bool" where
  "sb_buf_ok buf \<longleftrightarrow> 76 \<le> length buf \<and> get_le buf sb_clones_len 4 = 0"

lemma sb_req_size_bound:
  assumes "length ckpts < 2 ^ 20"
  shows "76 + 4 * length ckpts \<le> nat (sb_req_size ckpts [])" "sb_req_size ckpts [] < 2 ^ 31"
    "0 \<le> sb_req_size ckpts []"
proof -
  let ?n = "76 + 4 * int (length ckpts)"
  have n: "sb_req_size ckpts [] = round_up ?n 512"
    by (simp add: sb_req_size_def sizeof_common_obj_hdr_def sizeof_super_hdr_def mult.commute)
  have "round_up ?n 512 = 512 * ((?n + 511) div 512)"
    using assms by (subst round_up_eq) simp_all
  then have "?n \<le> sb_req_size ckpts [] \<and> sb_req_size ckpts [] \<le> ?n + 511" using n by linarith
  moreover have "int (length ckpts) < 1048576" using assms by simp
  ultimately show "76 + 4 * length ckpts \<le> nat (sb_req_size ckpts [])" "sb_req_size ckpts [] < 2 ^ 31"
    "0 \<le> sb_req_size ckpts []"
    by auto
qed

lemma get_le_resize: "off + n \<le> length buf \<Longrightarrow> length buf \<le> m \<Longrightarrow> get_le (resize buf m) off n = get_le buf off n"
  by (simp add: get_le_def resize_def)

lemma length_enc_u32s: "length (concat (map (le_bytes 4) xs)) = 4 * length xs"
  by (simp add: length_concat comp_def sum_list_triv)

lemma get_array_put:
  assumes "p + 4 * length xs \<le> length buf" "list_all u32 xs"
  shows "get_array dec_u32 4 (put_bytes buf p (concat (map (le_bytes 4) xs))) p (4 * length xs) = xs"
proof (rule get_array_at [where enc = "le_bytes 4" and pre = "take p buf"])
  show "put_bytes buf p (concat (map (le_bytes 4) xs)) =
      take p buf @ concat (map (le_bytes 4) xs) @ drop (p + 4 * length xs) buf"
    by (simp add: put_bytes_def length_enc_u32s)
  show "dec_u32 (q @ le_bytes 4 x @ r) (length q) = x" if "x \<in> set xs" for x q r
    using that assms(2) by (simp add: dec_u32_def get_le_at u32_def list_all_iff)
qed (use assms in simp_all)

lemma get_array_dec_u32_cong:
  assumes "\<And>o' n. p \<le> o' \<Longrightarrow> o' + n \<le> p + len \<Longrightarrow> get_le b o' n = get_le b' o' n"
  shows "get_array dec_u32 4 b p len = get_array dec_u32 4 b' p len"
proof -
  have "p + i * 4 + 4 \<le> p + len" if "i < len div 4" for i using that by linarith
  then show ?thesis using assms by (simp add: get_array_def dec_u32_def)
qed

lemma serialise_common_hdr_eq:
  "44 \<le> length buf \<Longrightarrow> serialise_common_hdr buf t s hdr data uuid = put_bytes buf 0 (enc_common_obj_hdr
     \<lparr>h_magic = LSVD_MAGIC, h_version = 1, h_vol_uuid = uuid, h_type = t, h_seq = s,
      h_hdr_sectors = hdr, h_data_sectors = data, h_crc = 0\<rparr>)"
  by (simp add: serialise_common_hdr_def sizeof_common_obj_hdr_def)

lemma dec_common_put0:
  assumes "common_ok h" "44 \<le> length buf"
  shows "dec_common_obj_hdr (put_bytes buf 0 (enc_common_obj_hdr h)) 0 = h"
  using dec_enc_common [OF assms(1), of "[]" "drop 44 buf"] assms by (simp add: put_bytes_def common_ok_def)

lemma dec_common_put_other:
  "44 \<le> off \<Longrightarrow> off + length bs \<le> length buf \<Longrightarrow>
   dec_common_obj_hdr (put_bytes buf off bs) 0 = dec_common_obj_hdr buf 0"
  by (simp add: dec_common_obj_hdr_def get_le_put_other get_put_other)

lemma superblock_parse:
  assumes ok: "sb_buf_ok buf" and uuid: "length uuid = 16" and ck: "list_all u32 ckpts" "length ckpts < 2 ^ 20"
    and vol: "0 \<le> vol_size" "vol_size < 2 ^ 64" "512 dvd vol_size"
  shows "\<exists>B. serialise_superblock buf ckpts [] uuid vol_size = Some B \<and> sb_buf_ok B
    \<and> read_superblock (\<lambda>_. Some B) name =
        Some \<lparr>ps_vol_size = vol_size, ps_ckpts = ckpts, ps_clones = [], ps_snaps = [], ps_uuid = uuid\<rparr>"
proof -
  let ?req = "sb_req_size ckpts []"
  let ?h = "\<lparr>h_magic = LSVD_MAGIC, h_version = 1, h_vol_uuid = uuid, h_type = OBJ_SUPERBLOCK, h_seq = 0,
    h_hdr_sectors = ?req div 512, h_data_sectors = 0, h_crc = 0\<rparr>"
  let ?cs = "concat (map (le_bytes 4) ckpts)"
  note req = sb_req_size_bound [OF ck(2)]
  define n where "n = max (length buf) (nat ?req)"
  define b1 where "b1 = (if length buf < nat ?req then resize buf (nat ?req) else buf)"
  define b2 where "b2 = put_bytes b1 44 (le_bytes 8 (vol_size div 512))"
  define b3 where "b3 = put_bytes b2 0 (enc_common_obj_hdr ?h)"
  define b4 where "b4 = put_bytes b3 60 (le_bytes 4 76)"
  define b5 where "b5 = put_bytes b4 52 (le_bytes 4 76)"
  define b6 where "b6 = put_bytes b5 56 (le_bytes 4 (int (length ckpts) * 4))"
  define b7 where "b7 = put_bytes b6 76 ?cs"
  define b8 where "b8 = put_bytes b7 68 (le_bytes 4 0)"
  define b9 where "b9 = put_bytes b8 72 (le_bytes 4 0)"
  have n: "76 + 4 * length ckpts \<le> n" "76 \<le> n" using req n_def by simp_all
  have l1: "length b1 = n" by (simp add: b1_def n_def)
  then have l2: "length b2 = n" using n by (simp add: b2_def)
  then have l3: "length b3 = n" using n uuid by (simp add: b3_def)
  then have l4: "length b4 = n" using n by (simp add: b4_def)
  then have l5: "length b5 = n" using n by (simp add: b5_def)
  then have l6: "length b6 = n" using n by (simp add: b6_def)
  then have l7: "length b7 = n" using n by (simp add: b7_def length_enc_u32s)
  then have l8: "length b8 = n" using n by (simp add: b8_def)
  then have l9: "length b9 = n" using n by (simp add: b9_def)
  have ser: "serialise_superblock buf ckpts [] uuid vol_size = Some b9"
    using l2 n by (simp add: serialise_superblock_def sb_fields sizeof_common_obj_hdr_def sizeof_super_hdr_def
        serialise_common_hdr_eq b1_def [symmetric] b2_def [symmetric] b3_def [symmetric] b4_def [symmetric]
        b5_def [symmetric] b6_def [symmetric] b7_def [symmetric] b8_def [symmetric] b9_def [symmetric] Let_def)
  have hok: "common_ok ?h" using uuid req
    by (simp add: common_ok_def u32_def LSVD_MAGIC_def OBJ_SUPERBLOCK_def) linarith
  have s9: "get_le b9 o' k = get_le b8 o' k" if "o' + k \<le> 72 \<or> 76 \<le> o'" for o' k
    unfolding b9_def using that l8 n by (intro get_le_put_other) simp_all
  have s8: "get_le b8 o' k = get_le b7 o' k" if "o' + k \<le> 68 \<or> 72 \<le> o'" for o' k
    unfolding b8_def using that l7 n by (intro get_le_put_other) simp_all
  have s7: "get_le b7 o' k = get_le b6 o' k" if "o' + k \<le> 76" for o' k
    unfolding b7_def using that l6 n by (intro get_le_put_other) (simp_all add: length_enc_u32s)
  have s6: "get_le b6 o' k = get_le b5 o' k" if "o' + k \<le> 56 \<or> 60 \<le> o'" for o' k
    unfolding b6_def using that l5 n by (intro get_le_put_other) simp_all
  have s5: "get_le b5 o' k = get_le b4 o' k" if "o' + k \<le> 52 \<or> 56 \<le> o'" for o' k
    unfolding b5_def using that l4 n by (intro get_le_put_other) simp_all
  have s4: "get_le b4 o' k = get_le b3 o' k" if "o' + k \<le> 60 \<or> 64 \<le> o'" for o' k
    unfolding b4_def using that l3 n by (intro get_le_put_other) simp_all
  have s3: "get_le b3 o' k = get_le b2 o' k" if "44 \<le> o'" for o' k
    unfolding b3_def using that l2 n uuid by (intro get_le_put_other) simp_all
  have s2: "get_le b2 o' k = get_le b1 o' k" if "52 \<le> o'" for o' k
    unfolding b2_def using that l1 n by (intro get_le_put_other) simp_all
  have "dec_common_obj_hdr b3 0 = ?h" unfolding b3_def using dec_common_put0 [OF hok] l2 n by simp
  then have "dec_common_obj_hdr b4 0 = ?h" unfolding b4_def using l3 n by (simp add: dec_common_put_other)
  then have "dec_common_obj_hdr b5 0 = ?h" unfolding b5_def using l4 n by (simp add: dec_common_put_other)
  then have "dec_common_obj_hdr b6 0 = ?h" unfolding b6_def using l5 n by (simp add: dec_common_put_other)
  then have "dec_common_obj_hdr b7 0 = ?h"
    unfolding b7_def using l6 n by (simp add: dec_common_put_other length_enc_u32s)
  then have "dec_common_obj_hdr b8 0 = ?h" unfolding b8_def using l7 n by (simp add: dec_common_put_other)
  then have hdr: "dec_common_obj_hdr b9 0 = ?h" unfolding b9_def using l8 n by (simp add: dec_common_put_other)
  have "get_le b2 44 8 = vol_size div 512"
    unfolding b2_def using l1 n vol by (subst get_le_put_same) simp_all
  then have vs: "get_le b9 44 8 = vol_size div 512" by (simp add: s9 s8 s7 s6 s5 s4 s3)
  have "get_le b1 64 4 = 0" using ok get_le_resize [of 64 4 buf "nat ?req"]
    by (auto simp: b1_def sb_buf_ok_def sb_fields)
  then have cl: "get_le b9 64 4 = 0" by (simp add: s9 s8 s7 s6 s5 s4 s3 s2)
  have "get_le b4 60 4 = 76" unfolding b4_def using l3 n by (subst get_le_put_same) simp_all
  then have co: "get_le b9 60 4 = 76" by (simp add: s9 s8 s7 s6 s5)
  have "get_le b5 52 4 = 76" unfolding b5_def using l4 n by (subst get_le_put_same) simp_all
  then have ko: "get_le b9 52 4 = 76" by (simp add: s9 s8 s7 s6)
  have "get_le b6 56 4 = int (length ckpts) * 4"
    unfolding b6_def using l5 n ck(2) by (subst get_le_put_same) simp_all
  then have kl: "get_le b9 56 4 = int (length ckpts) * 4" by (simp add: s9 s8 s7)
  have "get_le b8 68 4 = 0" unfolding b8_def using l7 n by (subst get_le_put_same) simp_all
  then have so: "get_le b9 68 4 = 0" by (simp add: s9)
  have sl: "get_le b9 72 4 = 0" unfolding b9_def using l8 n by (subst get_le_put_same) simp_all
  have "get_array dec_u32 4 b9 76 (4 * length ckpts) = get_array dec_u32 4 b7 76 (4 * length ckpts)"
    by (rule get_array_dec_u32_cong) (simp add: s9 s8)
  then have arr: "get_array dec_u32 4 b9 76 (4 * length ckpts) = ckpts"
    using get_array_put [of 76 ckpts b6] ck(1) l6 n by (simp add: b7_def)
  have "read_superblock (\<lambda>_. Some b9) name =
      Some \<lparr>ps_vol_size = vol_size, ps_ckpts = ckpts, ps_clones = [], ps_snaps = [], ps_uuid = uuid\<rparr>"
    using arr vol(3)
    by (simp add: read_superblock_def hdr Let_def dec_super_hdr_def sizeof_common_obj_hdr_def vs ko kl co cl so sl
        deserialise_array_def deserialise_ptrs_with_len_def nat_mult_distrib mult.commute)
  moreover have "sb_buf_ok b9" using cl l9 n by (simp add: sb_buf_ok_def sb_fields)
  ultimately show ?thesis using ser by blast
qed

end
