(* ===== verification/Translate_Put.thy ===== *)
theory Translate_Put
  imports Translate_Live Objects_Codec
begin

text \<open>
  Writing a batch out: \<^verbatim>\<open>process_batch\<close> never fails an assertion on a well-formed batch, maps the
  sectors of the batch to the new object, keeps the live counts exact and issues the object whose
  header says what is in it.
\<close>

section \<open>Headers\<close>

lemma data_hdr_sectors_eq:
  assumes "n < 2 ^ 24"
  shows "data_hdr_sectors n = (72 + 8 * int n + 4095) div 4096 * 8"
  using assms unfolding data_hdr_sectors_def
  by (subst div_round_up_eq) (simp_all add: sizeof_common_obj_hdr_def sizeof_obj_data_hdr_def mult.commute)

lemma data_hdr_sectors_bounds:
  assumes "n < 2 ^ 24"
  shows "72 + 8 * int n \<le> 512 * data_hdr_sectors n" "512 * data_hdr_sectors n < 72 + 8 * int n + 4096"
    "0 < data_hdr_sectors n" "8 \<le> data_hdr_sectors n"
proof -
  have "512 * data_hdr_sectors n = 4096 * ((72 + 8 * int n + 4095) div 4096)"
    by (simp add: data_hdr_sectors_eq [OF assms])
  then show 1: "72 + 8 * int n \<le> 512 * data_hdr_sectors n" and "512 * data_hdr_sectors n < 72 + 8 * int n + 4096"
    by linarith+
  show 2: "0 < data_hdr_sectors n" using 1 by linarith
  show "8 \<le> data_hdr_sectors n" using 2 by (simp add: data_hdr_sectors_eq [OF assms])
qed

lemma length_obj_hdr_bytes:
  assumes "length uuid = 16" "72 + 8 * int (length dm) \<le> 512 * hs"
  shows "length (obj_hdr_bytes uuid seq hs ds dm g crc) = nat (512 * hs)"
proof -
  have "length (concat (map enc_data_map dm)) = length dm * 8" by (rule length_concat_map) simp
  then show ?thesis
    using assms by (simp add: obj_hdr_bytes_def sizeof_common_obj_hdr_def sizeof_obj_data_hdr_def Let_def)
qed

lemma make_obj_hdr_Some:
  assumes "length uuid = 16" "72 + 8 * int (length dm) \<le> 512 * hs"
  shows "\<exists>b. make_obj_hdr zcrc uuid seq hs ds dm g = Some (obj_hdr_bytes uuid seq hs ds dm g (zcrc b))"
  using assms by (auto simp: make_obj_hdr_def sizeof_common_obj_hdr_def sizeof_obj_data_hdr_def Let_def)

section \<open>The invariant of the object table\<close>

definition live_ok :: "(int, data_obj_info) rbt \<Rightarrow> objmap \<Rightarrow> bool" where
  "live_ok info om \<longleftrightarrow> (\<forall>ob oi. RBT.lookup info ob = Some oi \<longrightarrow> oi_live oi = live_count om ob)"

definition batch_ok :: "translate_req \<Rightarrow> bool" where
  "batch_ok r \<longleftrightarrow> ranges_ok (entry_ranges (tr_entries r)) \<and> length (tr_entries r) < 2 ^ 20
     \<and> tr_len r = 512 * total_len (entry_ranges (tr_entries r)) \<and> tr_len r < 2 ^ 31"

definition fresh_seq :: "int \<Rightarrow> objmap \<Rightarrow> bool" where
  "fresh_seq seq om \<longleftrightarrow> 0 \<le> seq \<and> seq < 2 ^ 32 \<and> (\<forall>x i. obj_look om x \<noteq> Some (Obj_offset seq i))"

lemma fresh_live_count: "fresh_seq seq om \<Longrightarrow> live_count om seq = 0"
  by (simp add: fresh_seq_def live_count_def live_set_def)

definition tracked_len :: "(int, data_obj_info) rbt \<Rightarrow> obj_offset extent list \<Rightarrow> int" where
  "tracked_len info D = sum_list (map s_len (filter (\<lambda>e. RBT.lookup info (obj (s_ptr e)) \<noteq> None) D))"

lemma process_batch_run:
  assumes om: "objmap_ok (t_objmap st)" and live: "live_ok (t_object_info st) (t_objmap st)"
    and bat: "batch_ok r" and fresh: "fresh_seq seq (t_objmap st)"
    and uuid: "length (t_uuid st) = 16" and pf: "prefix st seq = Some pf"
  defines "hs \<equiv> data_hdr_sectors (length (tr_entries r))"
    and "es \<equiv> entry_ranges (tr_entries r)"
  obtains om' del info hdr b where
    "map_entries seq hs es (t_objmap st) [] = (om', del)"
    "hdr = obj_hdr_bytes (t_uuid st) seq hs (tr_len r div 512)
       (map (\<lambda>e. mk_data_map (me_lba e) (me_len e)) (tr_entries r)) False (zcrc b)"
    "process_batch zcrc seq r st = Some (st\<lparr>
       t_objmap := om', t_object_info := info,
       t_mem := store_bytes (t_mem st) (tr_data_ptr r - hs * 512) hdr,
       t_total_live_sectors := t_total_live_sectors st
         - tracked_len (RBT.insert seq \<lparr>oi_hdr = hs, oi_data = tr_len r div 512, oi_live = tr_len r div 512\<rparr> (t_object_info st)) del
         + (tr_len r div 512 - disc_count del seq),
       t_total_sectors := t_total_sectors st + tr_len r div 512,
       t_out := t_out st @
         [Rcache_insert pf seq (load_bytes (store_bytes (t_mem st) (tr_data_ptr r - hs * 512) hdr)
             (tr_data_ptr r - hs * 512) ((hs + tr_len r div 512) * 512)),
          Aio_write (oname pf seq) (load_bytes (store_bytes (t_mem st) (tr_data_ptr r - hs * 512) hdr)
             (tr_data_ptr r - hs * 512) ((hs + tr_len r div 512) * 512)) (r\<lparr>tr_seq := seq\<rparr>)],
       t_outstanding_writes := t_outstanding_writes st + 1\<rparr>)"
    "objmap_ok om'"
    "\<And>x. obj_look om' x = (case batch_pos es hs x of Some i \<Rightarrow> Some (Obj_offset seq i) | None \<Rightarrow> obj_look (t_objmap st) x)"
    "live_ok info om'"
    "\<And>ob. RBT.lookup info ob = (if ob = seq then Some \<lparr>oi_hdr = hs, oi_data = tr_len r div 512, oi_live = live_count om' seq\<rparr>
        else map_option (\<lambda>oi. oi\<lparr>oi_live := live_count om' ob\<rparr>) (RBT.lookup (t_object_info st) ob))"
    "\<And>ob. RBT.lookup info ob = map_option (\<lambda>oi. oi\<lparr>oi_live := oi_live oi - disc_count del ob\<rparr>)
        (RBT.lookup (RBT.insert seq \<lparr>oi_hdr = hs, oi_data = tr_len r div 512, oi_live = tr_len r div 512\<rparr> (t_object_info st)) ob)"
    "live_count om' seq = tr_len r div 512 - disc_count del seq"
proof -
  let ?n = "tr_len r div 512"
  let ?info0 = "RBT.insert seq \<lparr>oi_hdr = hs, oi_data = ?n, oi_live = ?n\<rparr> (t_object_info st)"
  let ?dm = "map (\<lambda>e. mk_data_map (me_lba e) (me_len e)) (tr_entries r)"
  have es: "ranges_ok es" "length (tr_entries r) < 2 ^ 20" "?n = total_len es" "total_len es < 2 ^ 22"
    using bat by (auto simp: batch_ok_def es_def)
  have hb: "72 + 8 * int (length (tr_entries r)) \<le> 512 * hs" "512 * hs < 72 + 8 * int (length (tr_entries r)) + 4096"
    "0 < hs"
    unfolding hs_def using data_hdr_sectors_bounds [of "length (tr_entries r)"] es(2) by auto
  have hl: "hs + total_len es < 2 ^ 23" using hb es by simp
  obtain om' del where me: "map_entries seq hs es (t_objmap st) [] = (om', del)" by (metis surj_pair)
  have seq: "0 \<le> seq" "seq < 2 ^ 32" using fresh by (simp_all add: fresh_seq_def)
  have hs0: "0 \<le> hs" using hb(3) by simp
  note ms = map_entries_spec [OF om es(1) seq hs0 hl me]
  have lc: "live_count om' ob = live_count (t_objmap st) ob - disc_count del ob + (if ob = seq then ?n else 0)" for ob
    using ms es(3) by simp
  have lc0: "live_count (t_objmap st) seq = 0" by (rule fresh_live_count [OF fresh])
  have dok: "list_all (ext_ok obj_amax obj_pok) del" using ms by auto
  have "disc_count del ob \<le> oi_live oi" if "RBT.lookup ?info0 ob = Some oi" for ob oi
  proof -
    have "0 \<le> live_count om' ob" by (simp add: live_count_def)
    then show ?thesis using lc [of ob] lc0 that live by (auto simp: live_ok_def split: if_splits)
  qed
  from drop_live_spec [OF dok this, of ?info0 "t_total_live_sectors st"] obtain info where
    dl: "drop_live del (?info0, t_total_live_sectors st) = Some (info, t_total_live_sectors st - tracked_len ?info0 del)"
      "\<And>ob. RBT.lookup info ob = map_option (\<lambda>oi. oi\<lparr>oi_live := oi_live oi - disc_count del ob\<rparr>) (RBT.lookup ?info0 ob)"
    unfolding tracked_len_def by auto
  have look: "RBT.lookup info ob = (if ob = seq then Some \<lparr>oi_hdr = hs, oi_data = ?n, oi_live = live_count om' seq\<rparr>
        else map_option (\<lambda>oi. oi\<lparr>oi_live := live_count om' ob\<rparr>) (RBT.lookup (t_object_info st) ob))" for ob
  proof (cases "RBT.lookup (t_object_info st) ob")
    case (Some oi)
    then show ?thesis using dl(2) [of ob] lc [of ob] lc0 live by (auto simp: live_ok_def)
  qed (use dl(2) [of ob] lc [of ob] lc0 in auto)
  have liv: "live_ok info om'"
    using look by (auto simp: live_ok_def split: if_splits)
  have "length ?dm = length (tr_entries r)" by simp
  with make_obj_hdr_Some [OF uuid, of ?dm hs zcrc seq ?n False] hb(1) obtain b where
    mk: "make_obj_hdr zcrc (t_uuid st) seq hs ?n ?dm False = Some (obj_hdr_bytes (t_uuid st) seq hs ?n ?dm False (zcrc b))"
    by auto
  show thesis
    by (rule that [OF me refl _ _ _ liv look dl(2)])
      (use ms me dl(1) mk pf look lc [of seq] lc0 in \<open>simp_all add: process_batch_def hs_def [symmetric] es_def [symmetric] Let_def\<close>)
qed

section \<open>Totals\<close>

definition sum_live :: "(int, data_obj_info) rbt \<Rightarrow> int" where
  "sum_live info = (\<Sum>ob\<in>dom (RBT.lookup info). oi_live (the (RBT.lookup info ob)))"

lemma tracked_len_sum: "tracked_len info D = (\<Sum>ob\<in>dom (RBT.lookup info). disc_count D ob)"
proof (induction D)
  case (Cons d D)
  let ?S = "dom (RBT.lookup info)"
  have "(\<Sum>ob\<in>?S. (if obj (s_ptr d) = ob then s_len d else 0)) = (if obj (s_ptr d) \<in> ?S then s_len d else 0)"
    by (simp add: sum.delta')
  then show ?case using Cons by (auto simp: tracked_len_def sum.distrib)
qed (simp add: tracked_len_def)

lemma sum_live_insert:
  assumes "RBT.lookup info k = None"
  shows "sum_live (RBT.insert k oi info) = oi_live oi + sum_live info"
proof -
  have "(\<Sum>ob\<in>dom (RBT.lookup info). oi_live (the (RBT.lookup (RBT.insert k oi info) ob))) = sum_live info"
    unfolding sum_live_def using assms by (intro sum.cong) auto
  moreover have "k \<notin> dom (RBT.lookup info)" using assms by auto
  ultimately show ?thesis by (simp add: sum_live_def)
qed

lemma sum_live_drop:
  assumes "\<And>ob. RBT.lookup info' ob = map_option (\<lambda>oi. oi\<lparr>oi_live := oi_live oi - d ob\<rparr>) (RBT.lookup info ob)"
  shows "sum_live info' = sum_live info - (\<Sum>ob\<in>dom (RBT.lookup info). d ob)"
proof -
  have "dom (RBT.lookup info') = dom (RBT.lookup info)" using assms by (auto simp: dom_def)
  then show ?thesis
    unfolding sum_live_def sum_subtractf [symmetric] using assms by (intro sum.cong) auto
qed

section \<open>Properties\<close>

text \<open>
  C16. Writing out a batch. On a well-formed batch and a fresh sequence number no assertion of
  \<^verbatim>\<open>process_batch\<close> fails; the object map sends every sector of the batch to its last position in the
  new object and every other sector where it was; and for every object in the table the live count
  is again the number of sectors the map sends to it.
\<close>

theorem process_batch_live:
  assumes "objmap_ok (t_objmap st)" "live_ok (t_object_info st) (t_objmap st)" "batch_ok r"
    "fresh_seq seq (t_objmap st)" "length (t_uuid st) = 16" "prefix st seq = Some pf"
  shows "case process_batch zcrc seq r st of None \<Rightarrow> False | Some st' \<Rightarrow>
    objmap_ok (t_objmap st') \<and> live_ok (t_object_info st') (t_objmap st')
    \<and> (\<forall>x. obj_look (t_objmap st') x =
          (case batch_pos (entry_ranges (tr_entries r)) (data_hdr_sectors (length (tr_entries r))) x of
             Some i \<Rightarrow> Some (Obj_offset seq i) | None \<Rightarrow> obj_look (t_objmap st) x))"
  by (rule process_batch_run [OF assms, where zcrc = zcrc]) simp

text \<open>
  C35. The total of live sectors. If \<^verbatim>\<open>total_live_sectors\<close> is the sum of the live counts before a
  batch is written out, then afterwards it is that sum minus the number of sectors that the batch
  itself overwrote: these are subtracted once with the discarded extents and once more because the
  live count that is added no longer has them.
\<close>

theorem process_batch_total_live:
  assumes "objmap_ok (t_objmap st)" "live_ok (t_object_info st) (t_objmap st)" "batch_ok r"
    "fresh_seq seq (t_objmap st)" "length (t_uuid st) = 16" "prefix st seq = Some pf"
    "RBT.lookup (t_object_info st) seq = None" "t_total_live_sectors st = sum_live (t_object_info st)"
  shows "case process_batch zcrc seq r st of None \<Rightarrow> False | Some st' \<Rightarrow>
    t_total_live_sectors st' = sum_live (t_object_info st')
      - (tr_len r div 512 - live_count (t_objmap st') seq)"
proof (rule process_batch_run [OF assms(1-6), where zcrc = zcrc], goal_cases)
  case (1 om' del info hdr b)
  from 1(3) sum_live_drop [OF 1(8)] sum_live_insert [OF assms(7)] assms(8) 1(9)
  show ?case by (simp add: tracked_len_sum)
qed

text \<open>A small volume for the witnesses: a batch that writes sectors 10 to 13 and then 12 again.\<close>

definition demo_cfg :: lsvd_config where
  "demo_cfg = get_default\<lparr>rcache_bytes := 2 ^ 29, wlog_bytes := 2 ^ 29\<rparr>"

definition demo_state :: tstate where
  "demo_state = make_translate ''vol'' demo_cfg (2 ^ 30) (replicate 16 7) (\<lambda>_. 0) extmap_empty extmap_empty 0 []
     RBT.empty [] 8192"

definition demo_req :: translate_req where
  "demo_req = (new_put_req 8192 (2 ^ 23))\<lparr>tr_entries := [mk_ckpt_mapentry 10 4 0 0, mk_ckpt_mapentry 12 1 0 0],
     tr_len := 2560\<rparr>"

lemma demo_entries: "entry_ranges (tr_entries demo_req) = [(10, 4), (12, 1)]" "length (tr_entries demo_req) = 2"
  "tr_len demo_req = 2560"
  by (simp_all add: demo_req_def mk_ckpt_mapentry_def sbf_id)

lemma rbt_entries_empty [simp]: "RBT.entries RBT.empty = []"
  by (metis RBT.map_of_entries RBT.lookup_empty map_of_eq_empty_iff)

lemma demo_ok:
  "objmap_ok (t_objmap demo_state)" "live_ok (t_object_info demo_state) (t_objmap demo_state)"
  "batch_ok demo_req" "fresh_seq 1 (t_objmap demo_state)" "length (t_uuid demo_state) = 16"
  "prefix demo_state 1 = Some ''vol''" "RBT.lookup (t_object_info demo_state) 1 = None"
  "t_total_live_sectors demo_state = sum_live (t_object_info demo_state)"
  by (simp_all add: map_ok_empty lookup_fun_empty demo_state_def make_translate_def live_ok_def batch_ok_def fresh_seq_def prefix_def
      demo_entries obj_amax_def sum_live_def)

theorem process_batch_live_witness:
  "\<exists>st'. process_batch (\<lambda>_. 0) 1 demo_req demo_state = Some st' \<and> objmap_ok (t_objmap st')
     \<and> obj_look (t_objmap st') 12 = Some (Obj_offset 1 12) \<and> obj_look (t_objmap st') 20 = None"
  using process_batch_live [OF demo_ok(1-6), of "\<lambda>_. 0"]
  by (auto simp: demo_entries data_hdr_sectors_eq demo_state_def make_translate_def lookup_fun_empty split: option.splits)

theorem process_batch_total_live_witness:
  "\<exists>st'. process_batch (\<lambda>_. 0) 1 demo_req demo_state = Some st'
     \<and> t_total_live_sectors st' = sum_live (t_object_info st') - (5 - live_count (t_objmap st') 1)"
  using process_batch_total_live [OF demo_ok, of "\<lambda>_. 0"]
  by (auto simp: demo_entries split: option.splits)

section \<open>Reading the header back\<close>

text \<open>The object store answers reads of the object \<open>name\<close> from the bytes \<open>bs\<close>.\<close>

definition reads_obj :: "reader \<Rightarrow> string \<Rightarrow> byte list \<Rightarrow> bool" where
  "reads_obj rd name bs \<longleftrightarrow>
     (\<forall>len. 0 \<le> len \<longrightarrow> rd name 0 len = (min len (int (length bs)), take (nat len) bs))"

lemma fetch_header_bytes:
  assumes "reads_obj rd name bs" "4096 \<le> length bs" "dec_common_obj_hdr bs 0 = h"
    "h_magic h = LSVD_MAGIC" "h_version h = 1" "0 \<le> h_hdr_sectors h" "512 * h_hdr_sectors h \<le> int (length bs)"
    "int (length bs) < 2 ^ 32"
  shows "fetch_object_header rd name = Inr (Some (take (nat (512 * max 8 (h_hdr_sectors h))) bs))"
proof -
  have r: "rd name 0 4096 = (4096, take 4096 bs)" using assms(1,2) by (simp add: reads_obj_def)
  have b: "put_bytes (replicate 4096 0) 0 (take 4096 bs) = take 4096 bs" using assms(2) by (simp add: put_bytes_def)
  have "dec_common_obj_hdr (take 4096 bs) 0 = h"
    using assms(3) by (simp add: dec_common_obj_hdr_def get_le_def get_bytes_def drop_take)
  moreover have "ubf 32 (h_hdr_sectors h * 512) = h_hdr_sectors h * 512"
    using assms(6-8) by (intro ubf_id) simp_all
  moreover have "rd name 0 (h_hdr_sectors h * 512) = (h_hdr_sectors h * 512, take (nat (h_hdr_sectors h * 512)) bs)"
    using assms(1,6,7) by (simp add: reads_obj_def)
  ultimately show ?thesis
    using assms(4,5) by (auto simp: fetch_object_header_def r b ENOENT_def Let_def mult.commute max_def)
qed

text \<open>A map entry that fits its bit fields.\<close>

definition dm_ok :: "data_map \<Rightarrow> bool" where
  "dm_ok m \<longleftrightarrow> 0 \<le> dm_lba m \<and> dm_lba m < 2 ^ 36 \<and> 0 \<le> dm_len m \<and> dm_len m < 2 ^ 28"

lemma parse_obj_hdr_bytes:
  assumes uuid: "length uuid = 16" and n: "72 + 8 * int (length dm) \<le> 512 * hs" "length dm < 2 ^ 24"
    and u: "u32 seq" "u32 hs" "u32 ds" "u32 c" and dm: "list_all dm_ok dm"
  defines "h \<equiv> \<lparr>h_magic = LSVD_MAGIC, h_version = 1, h_vol_uuid = uuid, h_type = OBJ_LOGDATA, h_seq = seq,
            h_hdr_sectors = hs, h_data_sectors = ds, h_crc = c\<rparr>"
  shows "dec_common_obj_hdr (obj_hdr_bytes uuid seq hs ds dm g c @ rest) 0 = h"
    "\<exists>dh. parse_data_hdr (obj_hdr_bytes uuid seq hs ds dm g c @ rest) =
       Some \<lparr>pd_hdr = h, pd_data_hdr = dh, pd_cleaned = [], pd_data_map = dm\<rparr>"
proof -
  let ?dh = "\<lparr>d_cache_seq = 0, d_objs_cleaned_offset = 0, d_objs_cleaned_len = 0,
      d_data_map_offset = 72, d_data_map_len = int (length dm) * 8, d_is_gc = (if g then 1 else 0)\<rparr>"
  let ?z = "replicate (nat (512 * hs - (72 + int (length dm) * 8))) 0 @ rest"
  let ?buf = "obj_hdr_bytes uuid seq hs ds dm g c @ rest"
  have buf: "?buf = enc_common_obj_hdr h @ enc_obj_data_hdr ?dh @ concat (map enc_data_map dm) @ ?z"
    by (simp add: obj_hdr_bytes_def h_def sizeof_common_obj_hdr_def sizeof_obj_data_hdr_def Let_def)
  have hok: "common_ok h" using uuid u by (simp add: common_ok_def h_def u32_def LSVD_MAGIC_def OBJ_LOGDATA_def)
  have l: "length (enc_common_obj_hdr h) = 44" using uuid by (simp add: h_def)
  show 1: "dec_common_obj_hdr ?buf 0 = h"
    unfolding buf using dec_enc_common [OF hok, of "[]"] by simp
  have "data_hdr_ok ?dh" using n by (simp add: data_hdr_ok_def u32_def u64_def)
  from dec_enc_data_hdr [OF this, of "enc_common_obj_hdr h"]
  have 2: "dec_obj_data_hdr ?buf 44 = ?dh" unfolding buf using l by simp
  have 3: "get_array dec_data_map 8 ?buf 72 (length dm * 8) = dm"
    by (rule get_array_at [where enc = enc_data_map and pre = "enc_common_obj_hdr h @ enc_obj_data_hdr ?dh" and post = ?z])
      (use buf l dm in \<open>simp_all add: dec_enc_data_map dm_ok_def list_all_iff\<close>)
  have "nat (int (length dm) * 8) = length dm * 8" by simp
  then have "parse_data_hdr ?buf = Some \<lparr>pd_hdr = h, pd_data_hdr = ?dh, pd_cleaned = [], pd_data_map = dm\<rparr>"
    using 3 by (simp add: parse_data_hdr_def 1 2 sizeof_common_obj_hdr_def deserialise_array_def get_array_def
        Let_def h_def OBJ_LOGDATA_def)
  then show "\<exists>dh. parse_data_hdr ?buf = Some \<lparr>pd_hdr = h, pd_data_hdr = dh, pd_cleaned = [], pd_data_map = dm\<rparr>"
    by blast
qed

text \<open>A header that fills whole sectors, at least eight, is read back from the object it starts.\<close>

lemma read_obj_hdr:
  assumes rd: "reads_obj rd name (obj_hdr_bytes uuid seq hs ds dm g c @ dat)" and uuid: "length uuid = 16"
    and n: "72 + 8 * int (length dm) \<le> 512 * hs" "length dm < 2 ^ 24" and hs: "8 \<le> hs"
    and u: "u32 seq" "u32 ds" "u32 c" and dm: "list_all dm_ok dm" and len: "512 * hs + int (length dat) < 2 ^ 32"
  shows "\<exists>dh. read_data_hdr rd name = Inr (Some \<lparr>pd_hdr = \<lparr>h_magic = LSVD_MAGIC, h_version = 1, h_vol_uuid = uuid,
      h_type = OBJ_LOGDATA, h_seq = seq, h_hdr_sectors = hs, h_data_sectors = ds, h_crc = c\<rparr>,
      pd_data_hdr = dh, pd_cleaned = [], pd_data_map = dm\<rparr>)"
proof -
  let ?hdr = "obj_hdr_bytes uuid seq hs ds dm g c"
  let ?h = "\<lparr>h_magic = LSVD_MAGIC, h_version = 1, h_vol_uuid = uuid, h_type = OBJ_LOGDATA, h_seq = seq,
            h_hdr_sectors = hs, h_data_sectors = ds, h_crc = c\<rparr>"
  have lh: "length ?hdr = nat (512 * hs)" by (rule length_obj_hdr_bytes [OF uuid n(1)])
  have hu: "u32 hs" using hs len by (simp add: u32_def)
  note p = parse_obj_hdr_bytes [OF uuid n u(1) hu u(2,3) dm, of g]
  have "fetch_object_header rd name = Inr (Some (take (nat (512 * max 8 (h_hdr_sectors ?h))) (?hdr @ dat)))"
    by (rule fetch_header_bytes [OF rd _ p(1)]) (use lh hs len in simp_all)
  moreover have "take (nat (512 * max 8 (h_hdr_sectors ?h))) (?hdr @ dat) = ?hdr @ []" using lh hs by (simp add: max_def)
  ultimately show ?thesis using p(2) [of "[]"] by (auto simp: read_data_hdr_def)
qed

lemma load_store:
  assumes "0 \<le> n"
  shows "load_bytes (store_bytes mem p hdr) p (int (length hdr) + n) = hdr @ load_bytes mem (p + int (length hdr)) n"
proof (rule nth_equalityI)
  show "length (load_bytes (store_bytes mem p hdr) p (int (length hdr) + n)) =
    length (hdr @ load_bytes mem (p + int (length hdr)) n)" using assms by (simp add: load_bytes_def)
  fix i assume "i < length (load_bytes (store_bytes mem p hdr) p (int (length hdr) + n))"
  then have i: "i < nat (int (length hdr) + n)" by (simp add: load_bytes_def)
  have "load_bytes (store_bytes mem p hdr) p (int (length hdr) + n) ! i = store_bytes mem p hdr (p + int i)"
    using i upto_nth [OF i, of p] by (simp add: load_bytes_def algebra_simps)
  also have "\<dots> = (hdr @ load_bytes mem (p + int (length hdr)) n) ! i"
  proof (cases "i < length hdr")
    case False
    then have j: "i - length hdr < nat n" using i assms by auto
    then show ?thesis
      using False upto_nth [OF j, of "p + int (length hdr)"] by (simp add: store_bytes_def nth_append load_bytes_def algebra_simps)
  qed (simp add: store_bytes_def nth_append)
  finally show "load_bytes (store_bytes mem p hdr) p (int (length hdr) + n) ! i =
    (hdr @ load_bytes mem (p + int (length hdr)) n) ! i" .
qed

lemma length_load_bytes [simp]: "length (load_bytes mem p n) = nat n"
  by (simp add: load_bytes_def)

text \<open>
  C34. The header of a data object round-trips. If the object store returns the bytes that
  \<^verbatim>\<open>process_batch\<close> handed to \<^verbatim>\<open>aio_write\<close>, then \<^verbatim>\<open>read_data_hdr\<close>, on which log recovery
  relies, parses them to the sequence number, the header and data sizes and the list of extents of
  the batch, whether the header needs one read or two.
\<close>

theorem process_batch_header_roundtrip:
  assumes "objmap_ok (t_objmap st)" "live_ok (t_object_info st) (t_objmap st)" "batch_ok r"
    "fresh_seq seq (t_objmap st)" "length (t_uuid st) = 16" "prefix st seq = Some pf"
    and dm: "list_all (\<lambda>e. me_lba e < 2 ^ 36) (tr_entries r)" and crc: "\<And>bs. u32 (zcrc bs)"
    and out: "map_option t_out (process_batch zcrc seq r st) = Some (o1 @ [Aio_write name bs r'])"
    and rd: "reads_obj rd name bs"
  shows "case read_data_hdr rd name of
      Inr (Some pd) \<Rightarrow> h_seq (pd_hdr pd) = seq
        \<and> h_hdr_sectors (pd_hdr pd) = data_hdr_sectors (length (tr_entries r))
        \<and> h_data_sectors (pd_hdr pd) = tr_len r div 512
        \<and> map (\<lambda>m. (dm_lba m, dm_len m)) (pd_data_map pd) = entry_ranges (tr_entries r)
    | _ \<Rightarrow> False"
proof (rule process_batch_run [OF assms(1-6), where zcrc = zcrc], goal_cases)
  case (1 om' del info hdr b)
  let ?hs = "data_hdr_sectors (length (tr_entries r))" and ?n = "tr_len r div 512"
  let ?dm = "map (\<lambda>e. mk_data_map (me_lba e) (me_len e)) (tr_entries r)"
  let ?h = "\<lparr>h_magic = LSVD_MAGIC, h_version = 1, h_vol_uuid = t_uuid st, h_type = OBJ_LOGDATA, h_seq = seq,
            h_hdr_sectors = ?hs, h_data_sectors = ?n, h_crc = zcrc b\<rparr>"
  have es: "ranges_ok (entry_ranges (tr_entries r))" "length (tr_entries r) < 2 ^ 20" "0 \<le> ?n" "?n < 2 ^ 22"
    using assms(3) total_len_nonneg by (auto simp: batch_ok_def)
  note hb = data_hdr_sectors_bounds [of "length (tr_entries r)"]
  have hb': "72 + 8 * int (length ?dm) \<le> 512 * ?hs" "?hs < 2 ^ 20" "0 < ?hs" "8 \<le> ?hs" using hb es(2) by auto
  have lens: "0 < me_len e \<and> me_len e < 2 ^ 28 \<and> 0 \<le> me_lba e" if "e \<in> set (tr_entries r)" for e
  proof -
    have "me_len e \<le> total_len (entry_ranges (tr_entries r))"
      using es(1) that unfolding total_len_def ranges_ok_def
      by (intro member_le_sum_list) (auto simp: list_all_iff)
    then show ?thesis using assms(3) es(1) that by (auto simp: batch_ok_def ranges_ok_def list_all_iff)
  qed
  have dmid: "mk_data_map (me_lba e) (me_len e) = \<lparr>dm_lba = me_lba e, dm_len = me_len e\<rparr>" if "e \<in> set (tr_entries r)" for e
    using lens [OF that] dm that by (simp add: mk_data_map_def ubf_id list_all_iff)
  have dmok: "list_all dm_ok ?dm" using lens dmid dm by (fastforce simp: dm_ok_def list_all_iff)
  have lh: "length hdr = nat (512 * ?hs)" using length_obj_hdr_bytes [OF assms(5) hb'(1)] 1(2) by simp
  have bs: "bs = hdr @ load_bytes (t_mem st) (tr_data_ptr r - ?hs * 512 + int (length hdr)) (?n * 512)"
    using out 1(3) load_store [of "?n * 512" "t_mem st" "tr_data_ptr r - ?hs * 512" hdr] lh hb'(3) es(3)
    by (simp add: algebra_simps)
  have u: "u32 seq" "u32 ?n" using assms(4) es by (auto simp: fresh_seq_def u32_def)
  have "\<exists>dh. read_data_hdr rd name = Inr (Some \<lparr>pd_hdr = ?h, pd_data_hdr = dh, pd_cleaned = [], pd_data_map = ?dm\<rparr>)"
    by (rule read_obj_hdr [OF rd [unfolded bs 1(2)]]) (use assms(5) hb' es u crc dmok in simp_all)
  moreover have "map (\<lambda>m. (dm_lba m, dm_len m)) ?dm = entry_ranges (tr_entries r)" using dmid by simp
  ultimately show ?case by auto
qed

definition one_obj_reader :: "byte list \<Rightarrow> reader" where
  "one_obj_reader bs = (\<lambda>name off len. (min len (int (length bs)), take (nat len) bs))"

lemma reads_one_obj: "reads_obj (one_obj_reader bs) name bs"
  by (simp add: reads_obj_def one_obj_reader_def)

theorem process_batch_header_roundtrip_witness:
  "\<exists>bs pd. read_data_hdr (one_obj_reader bs) (oname ''vol'' 1) = Inr (Some pd) \<and> h_seq (pd_hdr pd) = 1
     \<and> map (\<lambda>m. (dm_lba m, dm_len m)) (pd_data_map pd) = [(10, 4), (12, 1)]"
proof (rule process_batch_run [OF demo_ok(1-6), where zcrc = "\<lambda>_. 0"], goal_cases)
  case (1 om' del info hdr b)
  from 1(3) obtain o1 bs r' where
    out: "map_option t_out (process_batch (\<lambda>_. 0) 1 demo_req demo_state) = Some (o1 @ [Aio_write (oname ''vol'' 1) bs r'])"
    by auto
  have dm: "list_all (\<lambda>e. me_lba e < 2 ^ 36) (tr_entries demo_req)"
    by (simp add: demo_req_def mk_ckpt_mapentry_def sbf_id)
  have crc: "u32 ((\<lambda>_. 0) bs)" for bs :: "byte list" by (simp add: u32_def)
  from process_batch_header_roundtrip [OF demo_ok(1-6) dm crc out reads_one_obj]
  show ?case by (intro exI [of _ bs]) (auto simp: demo_entries split: sum.splits option.splits)
qed

end
