(* ===== verification/Translate_Trim.thy ===== *)
theory Translate_Trim
  imports Translate_Put
begin

text \<open>
  Trimming a range of the volume, and the reference counts that pin objects against deletion.
\<close>

lemma live_count_trim:
  assumes ok: "objmap_ok om" and bl: "0 \<le> b" "b < l" "l \<le> obj_amax"
    and s: "trim_del lba2obj u om b l [] = (om', D)"
  shows "live_count om' ob = live_count om ob - disc_count D ob"
proof -
  note u = om.trim_del_ok [OF ok bl s]
  from u(3) have D: "extents_ok obj_amax obj_pok D" "seq_get lba2obj D = map_slice (obj_look om) b l" by auto
  let ?C = "live_set om ob \<inter> {b..<l}"
  have "live_set om' ob = live_set om ob - ?C"
    using u(2) by (auto simp: live_set_def map_cut_def split: if_splits)
  moreover have f: "finite (live_set om ob)" by (rule finite_live_set [OF ok])
  moreover have "card (live_set om ob - ?C) = card (live_set om ob) - card ?C" "card ?C \<le> card (live_set om ob)"
    using f by (auto intro: card_Diff_subset card_mono)
  moreover have "{x. \<exists>p. seq_get lba2obj D x = Some p \<and> obj p = ob} = ?C"
    by (auto simp: D(2) map_slice_def live_set_def) (metis obj_offset.exhaust_sel)
  ultimately show ?thesis using disc_count_card [OF D(1), of ob] by (auto simp: live_count_def)
qed

lemma trim_run:
  assumes ok: "objmap_ok (t_objmap st)" "live_ok (t_object_info st) (t_objmap st)"
    and r: "0 \<le> off" "off div 512 < (off + len) div 512" "(off + len) div 512 \<le> obj_amax"
  obtains om info D where "trim_xl u st off len = Some (st\<lparr>t_objmap := om, t_object_info := info,
      t_total_live_sectors := t_total_live_sectors st - tracked_len (t_object_info st) D\<rparr>)"
    "objmap_ok om" "live_ok info om"
    "\<And>x. obj_look om x = (if off div 512 \<le> x \<and> x < (off + len) div 512 then None else obj_look (t_objmap st) x)"
    "\<And>ob. RBT.lookup info ob = map_option (\<lambda>oi. oi\<lparr>oi_live := oi_live oi - disc_count D ob\<rparr>)
          (RBT.lookup (t_object_info st) ob)"
proof -
  let ?b = "off div 512" and ?l = "(off + len) div 512"
  obtain om' D where s: "trim_del lba2obj u (t_objmap st) ?b ?l [] = (om', D)" by (metis surj_pair)
  have b0: "0 \<le> ?b" using r(1) by simp
  note t = om.trim_del_ok [OF ok(1) b0 r(2,3) s]
  note c = live_count_trim [OF ok(1) b0 r(2,3) s]
  have D: "list_all (ext_ok obj_amax obj_pok) D" using t(3) by (auto simp: extents_ok_def list_all_iff)
  have "disc_count D ob \<le> oi_live oi" if "RBT.lookup (t_object_info st) ob = Some oi" for ob oi
    using c [of ob] that ok(2) by (simp add: live_ok_def live_count_def)
  from drop_live_spec [OF D this, of "t_object_info st" "t_total_live_sectors st"] obtain info where
    i: "drop_live D (t_object_info st, t_total_live_sectors st) =
        Some (info, t_total_live_sectors st - tracked_len (t_object_info st) D)"
      "\<And>ob. RBT.lookup info ob = map_option (\<lambda>oi. oi\<lparr>oi_live := oi_live oi - disc_count D ob\<rparr>)
          (RBT.lookup (t_object_info st) ob)"
    unfolding tracked_len_def by auto
  have "live_ok info om'" using i(2) c ok(2) by (auto simp: live_ok_def)
  then show thesis by (intro that [OF _ t(1) _ _ i(2)]) (use t(2) i(1) in \<open>simp_all add: trim_xl_def s map_cut_def\<close>)
qed

text \<open>
  C33. Trimming. On a valid range \<^verbatim>\<open>trim\<close> fails no assertion, unmaps exactly the sectors of the
  range, and keeps the accounting exact: live counts agree with the map, and the total of live
  sectors stays the sum of the live counts.
\<close>

theorem trim_live:
  assumes "objmap_ok (t_objmap st)" "live_ok (t_object_info st) (t_objmap st)"
    "0 \<le> off" "off div 512 < (off + len) div 512" "(off + len) div 512 \<le> obj_amax"
    "t_total_live_sectors st = sum_live (t_object_info st)"
  shows "case trim_xl u st off len of None \<Rightarrow> False | Some st' \<Rightarrow>
    objmap_ok (t_objmap st') \<and> live_ok (t_object_info st') (t_objmap st')
    \<and> (\<forall>x. obj_look (t_objmap st') x =
          (if off div 512 \<le> x \<and> x < (off + len) div 512 then None else obj_look (t_objmap st) x))
    \<and> t_total_live_sectors st' = sum_live (t_object_info st')"
proof (rule trim_run [OF assms(1-5), where u = u], goal_cases)
  case (1 om info D)
  then show ?case using sum_live_drop [OF 1(5)] assms(6) by (simp add: tracked_len_sum)
qed

theorem trim_live_witness:
  "\<exists>st'. trim_xl (Obj_offset 0 0) demo_state 5120 1024 = Some st' \<and> objmap_ok (t_objmap st')
     \<and> t_total_live_sectors st' = sum_live (t_object_info st')"
  using trim_live [OF demo_ok(1,2) _ _ _ demo_ok(8), of 5120 1024 "Obj_offset 0 0"]
  by (auto simp: obj_amax_def split: option.splits)

text \<open>
  Read pins. Take a pair of \<^verbatim>\<open>object_read_start\<close> and \<^verbatim>\<open>object_read_end\<close> on an object that is
  not pinned: the first start stores a count of 0, not of 1, so that a matching end leaves the
  object in the table, with a count of -1, for ever after; the two calls do not undo each other.
\<close>

theorem read_pin_leak:
  assumes "RBT.lookup (t_obj_read_refcount st) ob = None"
  shows "RBT.lookup (t_obj_read_refcount (object_read_end (object_read_start st ob) ob)) ob = Some (- 1)"
  using assms by (simp add: object_read_start_def object_read_end_def Let_def)

theorem read_pin_leak_witness:
  "RBT.lookup (t_obj_read_refcount (object_read_end (object_read_start demo_state 1) 1)) 1 = Some (- 1)"
  by (rule read_pin_leak) (simp add: demo_state_def make_translate_def)

end
