(* ===== verification/Image_Open.thy ===== *)
theory Image_Open
  imports Translate
begin

text \<open>
  Opening an image (\<^verbatim>\<open>src/src/image.cc\<close>): the constructor reads the superblock and the last checkpoint,
  rolls the log forward from there, and starts the translation layer. A C++ exception is a value
  \<open>Inl\<close>.
\<close>

section \<open>The image\<close>

record image =
  i_name :: string
  i_cfg :: lsvd_config
  i_size :: int
  i_uuid :: "byte list"
  i_clones :: "clone_base list"
  i_checkpoints :: "int list"
  i_obj_info :: "(int, data_obj_info) rbt"
  i_objmap :: objmap
  i_deletes :: "string list"

definition new_image :: "string \<Rightarrow> lsvd_config \<Rightarrow> image" where
  "new_image name cfg =
     \<lparr>i_name = name, i_cfg = cfg, i_size = 0, i_uuid = replicate 16 0, i_clones = [], i_checkpoints = [],
      i_obj_info = RBT.empty, i_objmap = extmap_empty, i_deletes = []\<rparr>"

section \<open>Recovery\<close>

text \<open>\<^verbatim>\<open>std::string(ci->name, ci->name_len)\<close> keeps all \<open>name_len\<close> bytes.\<close>

definition load_superblock :: "(string \<Rightarrow> byte list option) \<Rightarrow> image \<Rightarrow> exn + image" where
  "load_superblock whole img =
     (case read_superblock whole (i_name img) of
        None \<Rightarrow> Inl (Msg ''Failed to read superblock'')
      | Some sb \<Rightarrow>
          Inr (img\<lparr>i_size := ps_vol_size sb, i_uuid := ps_uuid sb,
                   i_checkpoints := i_checkpoints img @ ps_ckpts sb,
                   i_clones := i_clones img @
                     map (\<lambda>ci. \<lparr>cb_name = bytes_str (ci_name ci), cb_last_seq = ci_last_seq ci,
                       cb_first_seq = ubf 32 (ci_last_seq ci + 1)\<rparr>)
                       (ps_clones sb)\<rparr>))"

definition read_from_checkpoint :: "reader \<Rightarrow> int \<Rightarrow> image \<Rightarrow> exn + image" where
  "read_from_checkpoint rd seq img =
     (case read_checkpoint rd (oname (i_name img) seq) of
        Inl e \<Rightarrow> Inl e
      | Inr None \<Rightarrow> Inl (Msg ''Failed to read checkpoint'')
      | Inr (Some p) \<Rightarrow>
          Inr (img\<lparr>i_obj_info := foldl (\<lambda>info c. RBT.insert (co_seq c)
                       \<lparr>oi_hdr = co_hdr_sectors c, oi_data = co_data_sectors c, oi_live = co_live_sectors c\<rparr> info)
                     (i_obj_info img) (pc_objects p),
                   i_objmap := foldl (\<lambda>m e. update lba2obj m (me_lba e) (me_lba e + me_len e)
                       (mk_obj_offset (me_obj e) (me_offset e)))
                     (i_objmap img) (pc_dmap p)\<rparr>))"

text \<open>The loop over the discarded extents of \<^verbatim>\<open>apply_log\<close>, with its check on the live counter.\<close>

fun release_live :: "obj_offset extent list \<Rightarrow> (int, data_obj_info) rbt \<Rightarrow> exn + (int, data_obj_info) rbt" where
  "release_live [] info = Inr info"
| "release_live (d # ds) info =
     (let (base, lim, ptr) = vals d;
          oi = (case RBT.lookup info (obj ptr) of None \<Rightarrow> \<lparr>oi_hdr = 0, oi_data = 0, oi_live = 0\<rparr> | Some oi \<Rightarrow> oi);
          live = oi_live oi - (lim - base)
      in if live \<ge> 0 then Inl (Msg ''Negative live sectors.'')
         else release_live ds (RBT.insert (obj ptr) (oi\<lparr>oi_live := live\<rparr>) info))"

definition apply_log :: "reader \<Rightarrow> int \<Rightarrow> image \<Rightarrow> exn + (bool \<times> image)" where
  "apply_log rd seq img =
     (case read_data_hdr rd (oname (i_name img) seq) of
        Inl e \<Rightarrow> Inl e
      | Inr None \<Rightarrow> Inr (False, img)
      | Inr (Some dh) \<Rightarrow>
          if h_type (pd_hdr dh) = OBJ_CHECKPOINT
          then Inr (True, img\<lparr>i_checkpoints := i_checkpoints img @ [seq]\<rparr>)
          else
            let hdr = h_hdr_sectors (pd_hdr dh); dat = h_data_sectors (pd_hdr dh);
                info = RBT.insert seq \<lparr>oi_hdr = hdr, oi_data = dat, oi_live = dat\<rparr> (i_obj_info img);
                (om, deleted) = map_entries seq hdr (map (\<lambda>d. (dm_lba d, dm_len d)) (pd_data_map dh)) (i_objmap img) []
            in case release_live deleted info of
                 Inl e \<Rightarrow> Inl e
               | Inr info' \<Rightarrow> Inr (True, img\<lparr>i_obj_info := info', i_objmap := om\<rparr>))"

text \<open>
  The loop of \<^verbatim>\<open>roll_forward_from_last_checkpoint\<close> ends at the first missing object; \<open>None\<close> stands
  for fuel that ran out.
\<close>

fun roll_loop :: "nat \<Rightarrow> reader \<Rightarrow> int \<Rightarrow> image \<Rightarrow> (exn + (int \<times> image)) option" where
  "roll_loop 0 rd seq img = None"
| "roll_loop (Suc n) rd seq img =
     (case apply_log rd seq img of
        Inl e \<Rightarrow> Some (Inl e)
      | Inr (go, img') \<Rightarrow> if go then roll_loop n rd (ubf 32 (seq + 1)) img' else Some (Inr (seq, img')))"

definition roll_forward :: "nat \<Rightarrow> reader \<Rightarrow> image \<Rightarrow> (exn + (int \<times> image)) option" where
  "roll_forward fuel rd img =
     (if i_checkpoints img = [] then Some (Inr (0, img))
      else case roll_loop fuel rd (ubf 32 (last (i_checkpoints img) + 1)) img of
             None \<Rightarrow> None
           | Some (Inl e) \<Rightarrow> Some (Inl e)
           | Some (Inr (seq', img')) \<Rightarrow>
               let seq = ubf 32 (seq' - 1)
               in Some (Inr (seq, img'\<lparr>i_deletes := i_deletes img' @
                    map (\<lambda>i. oname (i_name img') (ubf 32 (seq + i))) [1..backend_write_window (i_cfg img') * 4 - 1]\<rparr>)))"

text \<open>
  The constructor \<^verbatim>\<open>lsvd_image(name, io, cfg)\<close> up to the start of the translation layer. \<open>p\<close> is the
  address of the first batch buffer; the buffer map is empty.
\<close>

definition open_image ::
  "nat \<Rightarrow> (string \<Rightarrow> byte list option) \<Rightarrow> reader \<Rightarrow> string \<Rightarrow> lsvd_config \<Rightarrow> memory \<Rightarrow> int \<Rightarrow> (exn + (image \<times> tstate)) option" where
  "open_image fuel whole rd name cfg mem p =
     (case load_superblock whole (new_image name cfg) of
        Inl e \<Rightarrow> Some (Inl e)
      | Inr img1 \<Rightarrow>
          case (if i_checkpoints img1 \<noteq> [] then read_from_checkpoint rd (last (i_checkpoints img1)) img1 else Inr img1) of
            Inl e \<Rightarrow> Some (Inl e)
          | Inr img2 \<Rightarrow>
              case roll_forward fuel rd img2 of
                None \<Rightarrow> None
              | Some (Inl e) \<Rightarrow> Some (Inl e)
              | Some (Inr (seq, img)) \<Rightarrow>
                  Some (Inr (img, make_translate name cfg (i_size img) (i_uuid img) mem (i_objmap img) extmap_empty
                    seq (i_clones img) (i_obj_info img) (i_checkpoints img) p)))"

section \<open>Image management\<close>

text \<open>
  The object store of the management calls is a parameter: \<open>put\<close> and \<open>del\<close> stand for
  \<^verbatim>\<open>be->write\<close> and \<^verbatim>\<open>be->delete_obj\<close> on a store of any type, and return their result code.
\<close>

definition EEXIST :: int where
  "EEXIST = 17"

definition create_new ::
  "(string \<Rightarrow> byte list \<Rightarrow> 's \<Rightarrow> int \<times> 's) \<Rightarrow> string \<Rightarrow> int \<Rightarrow> byte list \<Rightarrow> 's \<Rightarrow> (int \<times> 's) option" where
  "create_new put name vol_size uuid s =
     map_option (\<lambda>buf. put name buf s) (serialise_superblock (replicate 4096 0) [] [] uuid vol_size)"

definition get_uuid :: "(string \<Rightarrow> byte list option) \<Rightarrow> string \<Rightarrow> byte list \<Rightarrow> int \<times> byte list" where
  "get_uuid whole name uuid =
     (case read_superblock whole name of None \<Rightarrow> (- EEXIST, uuid) | Some sb \<Rightarrow> (0, ps_uuid sb))"

text \<open>The loop over the checkpoints; \<open>seq\<close> is the last one that was deleted.\<close>

fun delete_ckpts :: "(string \<Rightarrow> 's \<Rightarrow> int \<times> 's) \<Rightarrow> string \<Rightarrow> int list \<Rightarrow> int \<Rightarrow> 's \<Rightarrow> int \<times> int \<times> 's" where
  "delete_ckpts del name [] seq s = (0, seq, s)"
| "delete_ckpts del name (c # cs) seq s =
     (let (rc, s') = del (oname name c) s in if rc < 0 then (rc, seq, s') else delete_ckpts del name cs c s')"

text \<open>\<^verbatim>\<open>for (int n = 0; n < 16; seq++, n++)\<close>; \<open>None\<close> stands for fuel that ran out.\<close>

fun delete_tail :: "nat \<Rightarrow> (string \<Rightarrow> 's \<Rightarrow> int \<times> 's) \<Rightarrow> string \<Rightarrow> int \<Rightarrow> nat \<Rightarrow> 's \<Rightarrow> 's option" where
  "delete_tail 0 del name seq n s = None"
| "delete_tail (Suc k) del name seq n s =
     (if n < 16
      then let (rc, s') = del (oname name seq) s
           in delete_tail k del name (ubf 32 (seq + 1)) (if 0 \<le> rc then 1 else n + 1) s'
      else Some s)"

text \<open>\<open>seq0\<close> is the value of the variable \<^verbatim>\<open>seq\<close>, which the source does not initialise.\<close>

definition delete_image ::
  "nat \<Rightarrow> (string \<Rightarrow> 's \<Rightarrow> int \<times> 's) \<Rightarrow> (string \<Rightarrow> byte list option) \<Rightarrow> int \<Rightarrow> string \<Rightarrow> 's \<Rightarrow> (int \<times> 's) option" where
  "delete_image fuel del whole seq0 name s =
     (case read_superblock whole name of
        None \<Rightarrow> Some (- EEXIST, s)
      | Some sb \<Rightarrow>
          case delete_ckpts del name (ps_ckpts sb) seq0 s of
            (rc, seq, s') \<Rightarrow>
              if rc < 0 then Some (rc, s')
              else map_option (del name) (delete_tail fuel del name seq 0 s'))"

end
