(* ===== verification/Checkpoint.thy ===== *)
theory Checkpoint
  imports Image_Open Translate_Put
begin

text \<open>
  Checkpoints: what \<^verbatim>\<open>write_checkpoint\<close> writes, \<^verbatim>\<open>read_from_checkpoint\<close> restores. The object map is
  the same function from sectors to object locations, and the table of objects has the same entries.
\<close>

section \<open>The bytes of a checkpoint\<close>

lemma put_zeros:
  "length pre = p \<Longrightarrow> length bs \<le> n \<Longrightarrow>
   put_bytes (pre @ replicate n 0) p bs = pre @ bs @ replicate (n - length bs) 0"
  by (simp add: put_bytes_def)

lemma length_encs: "length (concat (map enc_ckpt_obj objs)) = 16 * length objs"
  "length (concat (map enc_ckpt_mapentry ents)) = 16 * length ents"
  by (simp_all add: length_concat comp_def sum_list_triv)

definition ckpt_sectors :: "ckpt_obj list \<Rightarrow> ckpt_mapentry list \<Rightarrow> int" where
  "ckpt_sectors objs ents = (84 + 16 * int (length objs) + 16 * int (length ents) + 511) div 512"

definition ckpt_common :: "byte list \<Rightarrow> int \<Rightarrow> ckpt_obj list \<Rightarrow> ckpt_mapentry list \<Rightarrow> common_obj_hdr" where
  "ckpt_common uuid seq objs ents =
     \<lparr>h_magic = LSVD_MAGIC, h_version = 1, h_vol_uuid = uuid, h_type = OBJ_CHECKPOINT, h_seq = seq,
      h_hdr_sectors = ckpt_sectors objs ents, h_data_sectors = 0, h_crc = 0\<rparr>"

definition ckpt_header :: "int \<Rightarrow> ckpt_obj list \<Rightarrow> ckpt_mapentry list \<Rightarrow> obj_ckpt_hdr" where
  "ckpt_header cs objs ents =
     \<lparr>c_cache_seq = cs, c_ckpts_offset = 0, c_ckpts_len = 0, c_objs_offset = 84, c_objs_len = 16 * int (length objs),
      c_deletes_offset = 0, c_deletes_len = 0, c_map_offset = 84 + 16 * int (length objs),
      c_map_len = 16 * int (length ents)\<rparr>"

definition ckpt_small :: "ckpt_obj list \<Rightarrow> ckpt_mapentry list \<Rightarrow> bool" where
  "ckpt_small objs ents \<longleftrightarrow> length objs < 2 ^ 25 \<and> length ents < 2 ^ 25"

lemma ckpt_sectors_bounds:
  assumes "ckpt_small objs ents"
  shows "84 + 16 * int (length objs) + 16 * int (length ents) \<le> ckpt_sectors objs ents * 512"
    "0 < ckpt_sectors objs ents" "ckpt_sectors objs ents * 512 < 2 ^ 32"
    "div_round_up (84 + int (length ents) * 16 + int (length objs) * 16) 512 = ckpt_sectors objs ents"
proof -
  let ?n = "84 + 16 * int (length objs) + 16 * int (length ents)"
  have n: "?n < 2 ^ 31 - 512" "0 \<le> ?n" using assms by (simp_all add: ckpt_small_def)
  then show "?n \<le> ckpt_sectors objs ents * 512" "0 < ckpt_sectors objs ents"
    unfolding ckpt_sectors_def by linarith+
  have "ckpt_sectors objs ents * 512 \<le> ?n + 511" unfolding ckpt_sectors_def by linarith
  then show "ckpt_sectors objs ents * 512 < 2 ^ 32" using n by simp
  have "div_round_up ?n 512 = (?n + 511) div 512"
    by (subst div_round_up_eq) (use n in simp_all)
  then show "div_round_up (84 + int (length ents) * 16 + int (length objs) * 16) 512 = ckpt_sectors objs ents"
    by (simp add: ckpt_sectors_def algebra_simps)
qed

lemma ckpt_bytes_layout:
  assumes uuid: "length uuid = 16" and small: "ckpt_small objs ents"
  shows "ckpt_bytes uuid cs seq objs ents =
    enc_common_obj_hdr (ckpt_common uuid seq objs ents) @ enc_obj_ckpt_hdr (ckpt_header cs objs ents)
    @ concat (map enc_ckpt_obj objs) @ concat (map enc_ckpt_mapentry ents)
    @ replicate (nat (ckpt_sectors objs ents * 512) - (84 + 16 * length objs + 16 * length ents)) 0"
proof -
  let ?N = "nat (ckpt_sectors objs ents * 512)"
  let ?a = "enc_common_obj_hdr (ckpt_common uuid seq objs ents)" and ?b = "enc_obj_ckpt_hdr (ckpt_header cs objs ents)"
  note s = ckpt_sectors_bounds [OF small]
  have N: "84 + 16 * length objs + 16 * length ents \<le> ?N" using s(1) by linarith
  have l: "length ?a = 44" using uuid by (simp add: ckpt_common_def)
  have 1: "serialise_common_hdr (replicate ?N 0) OBJ_CHECKPOINT seq (ckpt_sectors objs ents) 0 uuid = ?a @ replicate (?N - 44) 0"
    using put_zeros [of "[]" 0 ?a ?N] N l by (simp add: serialise_common_hdr_eq ckpt_common_def)
  have 2: "put_bytes (?a @ replicate (?N - 44) 0) 44 ?b = (?a @ ?b) @ replicate (?N - 84) 0"
    using put_zeros [of ?a 44 ?b "?N - 44"] N l by simp
  have 3: "put_bytes ((?a @ ?b) @ replicate (?N - 84) 0) 84 (concat (map enc_ckpt_obj objs))
      = (?a @ ?b @ concat (map enc_ckpt_obj objs)) @ replicate (?N - (84 + 16 * length objs)) 0"
    by (subst put_zeros) (use N l length_encs(1) [of objs] in simp_all)
  have 4: "put_bytes ((?a @ ?b @ concat (map enc_ckpt_obj objs)) @ replicate (?N - (84 + 16 * length objs)) 0)
        (84 + 16 * length objs) (concat (map enc_ckpt_mapentry ents))
      = ?a @ ?b @ concat (map enc_ckpt_obj objs) @ concat (map enc_ckpt_mapentry ents)
        @ replicate (?N - (84 + 16 * length objs + 16 * length ents)) 0"
    by (subst put_zeros) (use N l length_encs(1) [of objs] length_encs(2) [of ents] in simp_all)
  have h: "enc_obj_ckpt_hdr \<lparr>c_cache_seq = cs, c_ckpts_offset = 0, c_ckpts_len = 0, c_objs_offset = 84,
      c_objs_len = 84 + int (length objs) * 16 - 84, c_deletes_offset = 0, c_deletes_len = 0,
      c_map_offset = 84 + int (length objs) * 16, c_map_len = int (length ents) * 16\<rparr> = ?b"
    by (simp add: ckpt_header_def mult.commute)
  have o: "nat (84 + int (length objs) * 16) = 84 + 16 * length objs" "nat 84 = 84" by simp_all
  have sz: "sizeof_common_obj_hdr = 44" "sizeof_obj_ckpt_hdr = 40" and 84: "int (44 + 40) = 84"
    by (simp_all add: sizeof_common_obj_hdr_def sizeof_obj_ckpt_hdr_def)
  show ?thesis unfolding ckpt_bytes_def Let_def sz 84 s(4) 1 h 2 o 3 4 ..
qed

section \<open>Reading it back\<close>

lemma dec_common_prefix: "44 \<le> length bs \<Longrightarrow> dec_common_obj_hdr (bs @ z) 0 = dec_common_obj_hdr bs 0"
  by (simp add: dec_common_obj_hdr_def get_le_def get_bytes_def)

text \<open>An object that is all header is fetched whole, followed by zeros when it is short.\<close>

lemma fetch_whole_header:
  assumes rd: "reads_obj rd name bs" and h: "dec_common_obj_hdr bs 0 = h" "h_magic h = LSVD_MAGIC" "h_version h = 1"
    "0 < h_hdr_sectors h" "512 * h_hdr_sectors h = int (length bs)" and len: "int (length bs) < 2 ^ 32"
  shows "\<exists>z. fetch_object_header rd name = Inr (Some (bs @ z))"
proof (cases "h_hdr_sectors h \<le> 8")
  case True
  then have l: "length bs \<le> 4096" "512 \<le> length bs" using h(4,5) by linarith+
  have r: "rd name 0 4096 = (int (length bs), bs)" using rd l by (simp add: reads_obj_def)
  have b: "put_bytes (replicate 4096 0) 0 bs = bs @ replicate (4096 - length bs) 0" using l by (simp add: put_bytes_def)
  have d: "dec_common_obj_hdr (bs @ replicate (4096 - length bs) 0) 0 = h" using dec_common_prefix h(1) l by simp
  have "fetch_object_header rd name = Inr (Some (bs @ replicate (4096 - length bs) 0))"
    using l h(2,3) True unfolding fetch_object_header_def r prod.case Let_def b d by (simp add: ENOENT_def)
  then show ?thesis by blast
next
  case False
  then have l: "4096 < length bs" using h(5) by linarith
  have "fetch_object_header rd name = Inr (Some (take (nat (512 * max 8 (h_hdr_sectors h))) bs))"
    by (rule fetch_header_bytes [OF rd _ h(1-3)]) (use l h len in simp_all)
  moreover have "take (nat (512 * max 8 (h_hdr_sectors h))) bs = bs" using False h(5) by (simp add: max_def)
  ultimately show ?thesis by (intro exI [of _ "[]"]) simp
qed

lemma parse_ckpt_bytes:
  assumes uuid: "length uuid = 16" and small: "ckpt_small objs ents" and u: "u32 seq" "u64 cs"
    and ok: "list_all ckpt_obj_ok objs" "list_all mapentry_ok ents"
  shows "dec_common_obj_hdr (ckpt_bytes uuid cs seq objs ents) 0 = ckpt_common uuid seq objs ents"
    "length (ckpt_bytes uuid cs seq objs ents) = nat (512 * ckpt_sectors objs ents)"
    "parse_checkpoint (ckpt_bytes uuid cs seq objs ents @ z) =
       Some \<lparr>pc_hdr = ckpt_common uuid seq objs ents, pc_ckpt_hdr = ckpt_header cs objs ents, pc_ckpts = [],
             pc_objects = objs, pc_deletes = [], pc_dmap = ents\<rparr>"
proof -
  let ?B = "ckpt_bytes uuid cs seq objs ents" and ?h = "ckpt_common uuid seq objs ents" and ?ch = "ckpt_header cs objs ents"
  let ?a = "enc_common_obj_hdr ?h" and ?b = "enc_obj_ckpt_hdr ?ch"
  let ?zs = "replicate (nat (ckpt_sectors objs ents * 512) - (84 + 16 * length objs + 16 * length ents)) (0 :: byte)"
  note s = ckpt_sectors_bounds [OF small]
  note B = ckpt_bytes_layout [OF uuid small, of cs seq]
  have la: "length ?a = 44" using uuid by (simp add: ckpt_common_def)
  have hok: "common_ok ?h"
    using uuid u s by (simp add: ckpt_common_def common_ok_def u32_def LSVD_MAGIC_def OBJ_CHECKPOINT_def)
  have chok: "ckpt_hdr_ok ?ch" using u small by (simp add: ckpt_header_def ckpt_hdr_ok_def u32_def ckpt_small_def)
  show 1: "dec_common_obj_hdr ?B 0 = ?h" unfolding B using dec_enc_common [OF hok, of "[]"] by simp
  show l: "length ?B = nat (512 * ckpt_sectors objs ents)"
    unfolding B using la length_encs(1) [of objs] length_encs(2) [of ents] s(1) by (simp add: mult.commute nat_le_iff)
  have 2: "dec_obj_ckpt_hdr (?B @ z) 44 = ?ch"
    unfolding B using dec_enc_ckpt_hdr [OF chok, of ?a] la by simp
  have 3: "get_array dec_ckpt_obj 16 (?B @ z) 84 (length objs * 16) = objs"
    by (rule get_array_at [where enc = enc_ckpt_obj and pre = "?a @ ?b" and post = "concat (map enc_ckpt_mapentry ents) @ ?zs @ z"])
      (use B la ok in \<open>simp_all add: dec_enc_ckpt_obj list_all_iff\<close>)
  have 4: "get_array dec_ckpt_mapentry 16 (?B @ z) (84 + 16 * length objs) (length ents * 16) = ents"
    by (rule get_array_at [where enc = enc_ckpt_mapentry and pre = "?a @ ?b @ concat (map enc_ckpt_obj objs)" and post = "?zs @ z"])
      (use B la ok length_encs(1) [of objs] in \<open>simp_all add: dec_enc_mapentry list_all_iff\<close>)
  have n: "nat (16 * int (length objs)) = length objs * 16" "nat (16 * int (length ents)) = length ents * 16"
    "nat (84 + 16 * int (length objs)) = 84 + 16 * length objs" by simp_all
  have c: "dec_common_obj_hdr (?B @ z) 0 = ?h"
    by (subst dec_common_prefix) (use l s(1) 1 in \<open>simp_all add: nat_le_iff\<close>)
  show "parse_checkpoint (?B @ z) = Some \<lparr>pc_hdr = ?h, pc_ckpt_hdr = ?ch, pc_ckpts = [], pc_objects = objs,
      pc_deletes = [], pc_dmap = ents\<rparr>"
    using 3 4 n unfolding parse_checkpoint_def Let_def c sizeof_common_obj_hdr_def 2
    by (simp add: ckpt_common_def ckpt_header_def deserialise_array_def get_array_def)
qed

lemma read_checkpoint_bytes:
  assumes "length uuid = 16" "ckpt_small objs ents" "u32 seq" "u64 cs" "list_all ckpt_obj_ok objs" "list_all mapentry_ok ents"
    and rd: "reads_obj rd name (ckpt_bytes uuid cs seq objs ents)"
  shows "\<exists>p. read_checkpoint rd name = Inr (Some p) \<and> pc_objects p = objs \<and> pc_dmap p = ents"
proof -
  note p = parse_ckpt_bytes [OF assms(1-6)] and s = ckpt_sectors_bounds [OF assms(2)]
  have "\<exists>z. fetch_object_header rd name = Inr (Some (ckpt_bytes uuid cs seq objs ents @ z))"
    by (rule fetch_whole_header [OF rd p(1)]) (use s p(2) in \<open>simp_all add: ckpt_common_def mult.commute\<close>)
  then show ?thesis using p(3) by (auto simp: read_checkpoint_def)
qed

section \<open>Restoring the maps\<close>

lemma foldl_insert_lookup:
  "RBT.lookup (foldl (\<lambda>t c. RBT.insert (f c) (g c) t) t0 cs) k =
     (case map_of (rev (map (\<lambda>c. (f c, g c)) cs)) k of Some v \<Rightarrow> Some v | None \<Rightarrow> RBT.lookup t0 k)"
  by (induction cs rule: rev_induct) auto

lemma map_of_rev_distinct: "distinct (map fst xs) \<Longrightarrow> map_of (rev xs) = map_of xs"
  by (rule map_of_inject_set [THEN iffD2]) (simp_all add: rev_map [symmetric])

text \<open>Updating an empty map with ordered extents gives the function they represent.\<close>

lemma foldl_seq_get:
  assumes "extents_ok amax pok es"
  shows "foldl (\<lambda>r (b, l, p). if b \<le> x \<and> x < l then Some (ptr_plus T p (x - b)) else r) None
      (map (\<lambda>e. (s_base e, limit e, s_ptr e)) es) = seq_get T es x"
  using assms
proof (induction es rule: rev_induct)
  case (snoc e es)
  have "seq_get T es x = None" if "s_base e \<le> x" "x < limit e"
    by (rule seq_get_None) (use snoc.prems that in force)
  then show ?case using snoc by (auto simp: seq_get_append ext_get_def split: option.split)
qed simp

lemma restore_objmap:
  assumes ok: "objmap_ok om"
  shows "objmap_ok (foldl (\<lambda>m (b, l, p). update lba2obj m b l p) extmap_empty (map (\<lambda>e. (s_base e, limit e, s_ptr e)) (flat om)))"
    "obj_look (foldl (\<lambda>m (b, l, p). update lba2obj m b l p) extmap_empty (map (\<lambda>e. (s_base e, limit e, s_ptr e)) (flat om))) = obj_look om"
proof -
  let ?us = "map (\<lambda>e. (s_base e, limit e, s_ptr e)) (flat om)"
  have es: "extents_ok obj_amax obj_pok (flat om)" using ok by (simp add: map_ok_def)
  have us: "\<forall>(b, l, p)\<in>set ?us. 0 \<le> b \<and> b < l \<and> l \<le> obj_amax \<and> obj_pok p (l - b)"
    using extents_ok_mem [OF es] by (auto simp: ext_ok_def limit_def)
  note r = os.upds_look [OF map_ok_empty us]
  show "objmap_ok (foldl (\<lambda>m (b, l, p). update lba2obj m b l p) extmap_empty ?us)" by (rule r(1))
  show "obj_look (foldl (\<lambda>m (b, l, p). update lba2obj m b l p) extmap_empty ?us) = obj_look om"
  proof
    fix x
    show "obj_look (foldl (\<lambda>m (b, l, p). update lba2obj m b l p) extmap_empty ?us) x = obj_look om x"
      using r(2) [of x] foldl_seq_get [OF es, of x lba2obj, unfolded ptr_plus_sel] by (simp add: lookup_fun_empty lookup_fun_def [of lba2obj om])
  qed
qed

section \<open>Checkpoint and restore\<close>

text \<open>Maps and tables whose values fit the fields of a checkpoint.\<close>

definition map_fits :: "objmap \<Rightarrow> bool" where
  "map_fits om \<longleftrightarrow> length (flat om) < 2 ^ 25
     \<and> (\<forall>e\<in>set (flat om). limit e \<le> 2 ^ 35 \<and> 0 \<le> obj (s_ptr e) \<and> obj (s_ptr e) < 2 ^ 31)"

definition info_fits :: "(int, data_obj_info) rbt \<Rightarrow> bool" where
  "info_fits info \<longleftrightarrow> length (RBT.entries info) < 2 ^ 25
     \<and> (\<forall>(n, oi)\<in>set (RBT.entries info). u32 n \<and> u32 (oi_hdr oi) \<and> u32 (oi_data oi) \<and> u32 (oi_live oi))"

lemma ckpt_entries_restore:
  assumes ok: "objmap_ok om" and fits: "map_fits om"
  shows "list_all mapentry_ok (ckpt_entries om)"
    "foldl (\<lambda>m e. update lba2obj m (me_lba e) (me_lba e + me_len e) (mk_obj_offset (me_obj e) (me_offset e))) m0 (ckpt_entries om)
      = foldl (\<lambda>m (b, l, p). update lba2obj m b l p) m0 (map (\<lambda>e. (s_base e, limit e, s_ptr e)) (flat om))"
proof -
  have f: "me_lba (mk_ckpt_mapentry (s_base e) (s_len e) (obj (s_ptr e)) (offset (s_ptr e))) = s_base e"
    "me_len (mk_ckpt_mapentry (s_base e) (s_len e) (obj (s_ptr e)) (offset (s_ptr e))) = s_len e"
    "me_obj (mk_ckpt_mapentry (s_base e) (s_len e) (obj (s_ptr e)) (offset (s_ptr e))) = obj (s_ptr e)"
    "me_offset (mk_ckpt_mapentry (s_base e) (s_len e) (obj (s_ptr e)) (offset (s_ptr e))) = offset (s_ptr e)"
    "mk_obj_offset (obj (s_ptr e)) (offset (s_ptr e)) = s_ptr e"
    "mapentry_ok (mk_ckpt_mapentry (s_base e) (s_len e) (obj (s_ptr e)) (offset (s_ptr e)))"
    if "e \<in> set (flat om)" for e
  proof -
    have "ext_ok obj_amax obj_pok e" using ok that extents_ok_mem by (auto simp: map_ok_def)
    then have r: "0 \<le> s_base e" "s_base e < 2 ^ 35" "0 < s_len e" "s_len e < 2 ^ 23" "0 \<le> offset (s_ptr e)" "offset (s_ptr e) < 2 ^ 23"
      "0 \<le> obj (s_ptr e)" "obj (s_ptr e) < 2 ^ 31"
      using fits that by (auto simp: ext_ok_def obj_pok_def map_fits_def limit_def)
    then show "me_lba (mk_ckpt_mapentry (s_base e) (s_len e) (obj (s_ptr e)) (offset (s_ptr e))) = s_base e"
      "me_len (mk_ckpt_mapentry (s_base e) (s_len e) (obj (s_ptr e)) (offset (s_ptr e))) = s_len e"
      "me_obj (mk_ckpt_mapentry (s_base e) (s_len e) (obj (s_ptr e)) (offset (s_ptr e))) = obj (s_ptr e)"
      "me_offset (mk_ckpt_mapentry (s_base e) (s_len e) (obj (s_ptr e)) (offset (s_ptr e))) = offset (s_ptr e)"
      "mapentry_ok (mk_ckpt_mapentry (s_base e) (s_len e) (obj (s_ptr e)) (offset (s_ptr e)))"
      "mk_obj_offset (obj (s_ptr e)) (offset (s_ptr e)) = s_ptr e"
      by (simp_all add: mk_ckpt_mapentry_def sbf_id mapentry_ok_def mk_obj_offset_def)
  qed
  have ce: "ckpt_entries om = map (\<lambda>e. mk_ckpt_mapentry (s_base e) (s_len e) (obj (s_ptr e)) (offset (s_ptr e))) (flat om)"
    using all_extents_flat [OF ok] by (simp add: ckpt_entries_def vals_def)
  show "list_all mapentry_ok (ckpt_entries om)" using f(6) by (simp add: ce list_all_iff)
  show "foldl (\<lambda>m e. update lba2obj m (me_lba e) (me_lba e + me_len e) (mk_obj_offset (me_obj e) (me_offset e))) m0 (ckpt_entries om)
      = foldl (\<lambda>m (b, l, p). update lba2obj m b l p) m0 (map (\<lambda>e. (s_base e, limit e, s_ptr e)) (flat om))"
    unfolding ce foldl_map by (rule foldl_cong) (simp_all add: f limit_def)
qed

lemma ckpt_objects_restore:
  assumes "info_fits info"
  shows "list_all ckpt_obj_ok (ckpt_objects info)"
    "RBT.lookup (foldl (\<lambda>t c. RBT.insert (co_seq c) \<lparr>oi_hdr = co_hdr_sectors c, oi_data = co_data_sectors c,
       oi_live = co_live_sectors c\<rparr> t) RBT.empty (ckpt_objects info)) = RBT.lookup info"
proof -
  have u: "ubf 32 v = v" if "u32 v" for v using that by (intro ubf_id) (simp_all add: u32_def)
  have e: "u32 n" "u32 (oi_hdr oi)" "u32 (oi_data oi)" "u32 (oi_live oi)" if "(n, oi) \<in> set (RBT.entries info)" for n oi
    using assms that by (auto simp: info_fits_def)
  show "list_all ckpt_obj_ok (ckpt_objects info)"
    by (auto simp: ckpt_objects_def list_all_iff ckpt_obj_ok_def u e)
  have m: "map (\<lambda>c. (co_seq c, \<lparr>oi_hdr = co_hdr_sectors c, oi_data = co_data_sectors c, oi_live = co_live_sectors c\<rparr>))
      (ckpt_objects info) = RBT.entries info"
    unfolding ckpt_objects_def map_map by (rule map_idI) (auto simp: u e)
  show "RBT.lookup (foldl (\<lambda>t c. RBT.insert (co_seq c) \<lparr>oi_hdr = co_hdr_sectors c, oi_data = co_data_sectors c,
       oi_live = co_live_sectors c\<rparr> t) RBT.empty (ckpt_objects info)) = RBT.lookup info"
    by (rule ext) (simp add: foldl_insert_lookup m map_of_rev_distinct RBT.distinct_entries RBT.map_of_entries split: option.split)
qed

end
