(* ===== verification/Recovery.thy ===== *)
theory Recovery
  imports Checkpoint
begin

text \<open>
  Opening an image: after a checkpoint with no later objects the constructor restores the state of
  the translation layer; the log replay of \<^verbatim>\<open>apply_log\<close> agrees with \<^verbatim>\<open>process_batch\<close> on objects that
  overwrite nothing, and fails on every object that overwrites mapped sectors.
\<close>

section \<open>Opening after a checkpoint\<close>

text \<open>The object store holds what the translation layer wrote last.\<close>

definition holds_writes :: "(string \<Rightarrow> byte list option) \<Rightarrow> reader \<Rightarrow> be_req list \<Rightarrow> bool" where
  "holds_writes whole rd out \<longleftrightarrow>
     (\<forall>name bs. Be_write name bs \<in> set out \<longrightarrow> whole name = Some bs \<and> reads_obj rd name bs)"

definition ckpt_ready :: "int \<Rightarrow> tstate \<Rightarrow> bool" where
  "ckpt_ready seq st \<longleftrightarrow>
     objmap_ok (t_objmap st) \<and> map_fits (t_objmap st) \<and> info_fits (t_object_info st)
     \<and> length (t_uuid st) = 16 \<and> 0 \<le> seq \<and> seq + 1 < 2 ^ 32 \<and> u64 (t_ckpt_cache_seq st) \<and> t_clones st = []
     \<and> sb_buf_ok (t_superblock_buf st) \<and> list_all u32 (t_checkpoints st)
     \<and> 0 \<le> t_vol_size st \<and> t_vol_size st < 2 ^ 64 \<and> 512 dvd t_vol_size st"

lemma keep_ckpts_facts:
  assumes "keep_ckpts (cs @ [c]) = (kept, dead)"
  shows "length kept \<le> 3" "kept \<noteq> []" "last kept = c" "set kept \<subseteq> set (cs @ [c])" "dead @ kept = cs @ [c]" "c \<notin> set cs \<Longrightarrow> c \<notin> set dead"
proof -
  have k: "kept = drop (length cs - 2) (cs @ [c])" "dead = take (length cs - 2) (cs @ [c])"
    using assms by (auto simp: keep_ckpts_def)
  show "set kept \<subseteq> set (cs @ [c])" unfolding k by (rule set_drop_subset)
  show "length kept \<le> 3" "kept \<noteq> []" "dead @ kept = cs @ [c]"
    by (simp_all add: k del: drop_append take_append)
  show "last kept = c" unfolding k by (subst last_drop) simp_all
  show "c \<notin> set dead" if "c \<notin> set cs" using that by (auto simp: k dest: in_set_takeD)
qed

lemma write_checkpoint_run:
  assumes "ckpt_ready seq st"
  obtains sb kept dead where "keep_ckpts (t_checkpoints st @ [seq]) = (kept, dead)"
    "write_checkpoint seq st = Some (st\<lparr>t_checkpoints := kept, t_superblock_buf := sb,
       t_out := t_out st @ [Be_write (oname (t_name st) seq) (ckpt_bytes (t_uuid st) (t_ckpt_cache_seq st) seq
         (ckpt_objects (t_object_info st)) (ckpt_entries (t_objmap st))), Be_write (t_name st) sb]
         @ map (\<lambda>c. Be_delete (oname (t_name st) c)) dead\<rparr>)"
    "sb_buf_ok sb"
    "read_superblock (\<lambda>_. Some sb) (t_name st) = Some \<lparr>ps_vol_size = t_vol_size st, ps_ckpts = kept, ps_clones = [],
       ps_snaps = [], ps_uuid = t_uuid st\<rparr>"
proof -
  obtain kept dead where k: "keep_ckpts (t_checkpoints st @ [seq]) = (kept, dead)" by fastforce
  note c = assms [unfolded ckpt_ready_def]
  note f = keep_ckpts_facts [OF k]
  have u: "list_all u32 kept" "length kept < 2 ^ 20" using f(1,4) c by (auto simp: list_all_iff u32_def)
  from superblock_parse [OF _ _ u, of "t_superblock_buf st" "t_uuid st" "t_vol_size st" "t_name st"] c obtain sb where
    "serialise_superblock (t_superblock_buf st) kept [] (t_uuid st) (t_vol_size st) = Some sb" "sb_buf_ok sb"
    "read_superblock (\<lambda>_. Some sb) (t_name st) = Some \<lparr>ps_vol_size = t_vol_size st, ps_ckpts = kept, ps_clones = [],
       ps_snaps = [], ps_uuid = t_uuid st\<rparr>" by auto
  then show thesis using that k c by (simp add: write_checkpoint_def Let_def)
qed

lemma read_superblock_local: "whole name = Some sb \<Longrightarrow> read_superblock whole name = read_superblock (\<lambda>_. Some sb) name"
  by (simp add: read_superblock_def)

lemma restore_checkpoint:
  assumes c: "ckpt_ready seq st" and img: "i_name img = t_name st" "i_obj_info img = RBT.empty" "i_objmap img = extmap_empty"
    and rd: "reads_obj rd (oname (t_name st) seq) (ckpt_bytes (t_uuid st) (t_ckpt_cache_seq st) seq
         (ckpt_objects (t_object_info st)) (ckpt_entries (t_objmap st)))"
  obtains info om where "read_from_checkpoint rd seq img = Inr (img\<lparr>i_obj_info := info, i_objmap := om\<rparr>)"
    "objmap_ok om" "obj_look om = obj_look (t_objmap st)" "RBT.lookup info = RBT.lookup (t_object_info st)"
proof -
  note c' = c [unfolded ckpt_ready_def]
  have m: "objmap_ok (t_objmap st)" "map_fits (t_objmap st)" and i: "info_fits (t_object_info st)" using c' by simp_all
  note e = ckpt_entries_restore [OF m] and o = ckpt_objects_restore [OF i]
  have "ckpt_small (ckpt_objects (t_object_info st)) (ckpt_entries (t_objmap st))"
    using m i all_extents_flat [OF m(1)]
    by (simp add: ckpt_small_def ckpt_objects_def ckpt_entries_def map_fits_def info_fits_def)
  then obtain p where p: "read_checkpoint rd (oname (t_name st) seq) = Inr (Some p)"
    "pc_objects p = ckpt_objects (t_object_info st)" "pc_dmap p = ckpt_entries (t_objmap st)"
    using read_checkpoint_bytes [OF _ _ _ _ o(1) e(1) rd] c' by (auto simp: u32_def)
  show thesis
    by (rule that [where info = "foldl (\<lambda>t c. RBT.insert (co_seq c) \<lparr>oi_hdr = co_hdr_sectors c,
          oi_data = co_data_sectors c, oi_live = co_live_sectors c\<rparr> t) RBT.empty (ckpt_objects (t_object_info st))"
        and om = "foldl (\<lambda>m (b, l, p). update lba2obj m b l p) extmap_empty
          (map (\<lambda>e. (s_base e, limit e, s_ptr e)) (flat (t_objmap st)))"])
      (use p e(2) o(2) restore_objmap [OF m(1)] img in \<open>simp_all add: read_from_checkpoint_def\<close>)
qed

lemma apply_log_missing:
  assumes "rd (oname (i_name img) seq) 0 4096 = (- ENOENT, [])"
  shows "apply_log rd seq img = Inr (False, img)"
  using assms by (simp add: apply_log_def read_data_hdr_def fetch_object_header_def Let_def)

lemma open_checkpoint_run:
  assumes "ckpt_ready seq st" "write_checkpoint seq st = Some st'"
    and "holds_writes whole rd (drop (length (t_out st)) (t_out st'))"
    and "rd (oname (t_name st) (seq + 1)) 0 4096 = (- ENOENT, [])"
  shows "\<exists>img st2. open_image 1 whole rd (t_name st) cfg mem p = Some (Inr (img, st2))
    \<and> objmap_ok (t_objmap st2) \<and> obj_look (t_objmap st2) = obj_look (t_objmap st)
    \<and> RBT.lookup (t_object_info st2) = RBT.lookup (t_object_info st)
    \<and> t_cur_seq st2 = seq + 1 \<and> t_checkpoints st2 = t_checkpoints st'
    \<and> t_uuid st2 = t_uuid st \<and> t_vol_size st2 = t_vol_size st \<and> t_bufmap st2 = extmap_empty"
proof -
  obtain sb kept dead where w: "keep_ckpts (t_checkpoints st @ [seq]) = (kept, dead)"
    "write_checkpoint seq st = Some (st\<lparr>t_checkpoints := kept, t_superblock_buf := sb,
       t_out := t_out st @ [Be_write (oname (t_name st) seq) (ckpt_bytes (t_uuid st) (t_ckpt_cache_seq st) seq
         (ckpt_objects (t_object_info st)) (ckpt_entries (t_objmap st))), Be_write (t_name st) sb]
         @ map (\<lambda>c. Be_delete (oname (t_name st) c)) dead\<rparr>)"
    "read_superblock (\<lambda>_. Some sb) (t_name st) = Some \<lparr>ps_vol_size = t_vol_size st, ps_ckpts = kept, ps_clones = [],
       ps_snaps = [], ps_uuid = t_uuid st\<rparr>"
    using write_checkpoint_run [OF assms(1)] by metis
  note k = keep_ckpts_facts [OF w(1)]
  let ?cp = "ckpt_bytes (t_uuid st) (t_ckpt_cache_seq st) seq (ckpt_objects (t_object_info st)) (ckpt_entries (t_objmap st))"
  have "drop (length (t_out st)) (t_out st') = [Be_write (oname (t_name st) seq) ?cp, Be_write (t_name st) sb]
      @ map (\<lambda>c. Be_delete (oname (t_name st) c)) dead" and ck: "t_checkpoints st' = kept"
    using assms(2) w(2) by auto
  then have st': "whole (t_name st) = Some sb" "reads_obj rd (oname (t_name st) seq) ?cp"
    using assms(3) by (simp_all add: holds_writes_def)
  note st' = ck st'
  define img where "img = (new_image (t_name st) cfg)\<lparr>i_size := t_vol_size st, i_uuid := t_uuid st, i_checkpoints := kept\<rparr>"
  have 1: "load_superblock whole (new_image (t_name st) cfg) = Inr img"
    using read_superblock_local [of whole "t_name st", OF st'(2)] w(3) by (simp add: load_superblock_def new_image_def img_def)
  obtain info om where 2: "read_from_checkpoint rd seq img = Inr (img\<lparr>i_obj_info := info, i_objmap := om\<rparr>)"
    "objmap_ok om" "obj_look om = obj_look (t_objmap st)" "RBT.lookup info = RBT.lookup (t_object_info st)"
    by (rule restore_checkpoint [OF assms(1) _ _ _ st'(3), of img]) (simp_all add: img_def new_image_def)
  have s: "ubf 32 (seq + 1) = seq + 1" "ubf 32 (seq + 1 - 1) = seq"
    using assms(1) by (auto simp: ckpt_ready_def intro!: ubf_id)
  have 3: "apply_log rd (seq + 1) (img\<lparr>i_obj_info := info, i_objmap := om\<rparr>) = Inr (False, img\<lparr>i_obj_info := info, i_objmap := om\<rparr>)"
    by (rule apply_log_missing) (simp add: img_def new_image_def assms(4))
  have c: "i_checkpoints img = kept" "i_name img = t_name st" "i_size img = t_vol_size st" "i_uuid img = t_uuid st"
    by (simp_all add: img_def new_image_def)
  obtain img' where 4: "roll_forward 1 rd (img\<lparr>i_obj_info := info, i_objmap := om\<rparr>) = Some (Inr (seq, img'))"
    "i_size img' = t_vol_size st" "i_uuid img' = t_uuid st" "i_objmap img' = om" "i_obj_info img' = info" "i_checkpoints img' = kept"
    using k(2,3) c s by (simp add: roll_forward_def 3 Let_def)
  have 5: "open_image 1 whole rd (t_name st) cfg mem p = Some (Inr (img', make_translate (t_name st) cfg (t_vol_size st)
      (t_uuid st) mem om extmap_empty seq (i_clones img') info kept p))"
    using k(2,3) 4 by (simp add: open_image_def 1 c 2(1))
  show ?thesis unfolding 5 using 2 s st'(1) by (simp add: make_translate_def)
qed

text \<open>
  C17. Checkpoint and recovery. Take any state of the translation layer of an image without clones
  whose values fit the checkpoint's fields. It writes a checkpoint; when the object store then holds
  the two objects it wrote and no object follows the checkpoint, opening the image succeeds and
  gives a translation layer with the same map from sectors to objects, the same table of objects,
  the same volume, and the next sequence number after the checkpoint.
\<close>

theorem open_after_checkpoint:
  assumes "ckpt_ready seq st" "write_checkpoint seq st = Some st'"
    and "holds_writes whole rd (drop (length (t_out st)) (t_out st'))"
    and "rd (oname (t_name st) (seq + 1)) 0 4096 = (- ENOENT, [])"
  shows "\<exists>img st2. open_image 1 whole rd (t_name st) cfg mem p = Some (Inr (img, st2))
    \<and> objmap_ok (t_objmap st2) \<and> obj_look (t_objmap st2) = obj_look (t_objmap st)
    \<and> RBT.lookup (t_object_info st2) = RBT.lookup (t_object_info st)
    \<and> t_cur_seq st2 = seq + 1 \<and> t_checkpoints st2 = t_checkpoints st'
    \<and> t_uuid st2 = t_uuid st \<and> t_vol_size st2 = t_vol_size st"
  using open_checkpoint_run [OF assms] by blast

text \<open>An object store that holds the objects of a table, and a volume with one object.\<close>

definition map_reader :: "(string \<Rightarrow> byte list option) \<Rightarrow> reader" where
  "map_reader whole = (\<lambda>name off len. case whole name of
      None \<Rightarrow> (- ENOENT, [])
    | Some bs \<Rightarrow> (min len (int (length (drop (nat off) bs))), take (nat len) (drop (nat off) bs)))"

lemma reads_map_reader: "whole name = Some bs \<Longrightarrow> reads_obj (map_reader whole) name bs"
  by (simp add: reads_obj_def map_reader_def)

definition demo_vol :: tstate where
  "demo_vol = demo_state\<lparr>t_objmap := update lba2obj extmap_empty 10 14 (Obj_offset 1 8),
     t_object_info := RBT.insert 1 \<lparr>oi_hdr = 8, oi_data = 4, oi_live = 4\<rparr> RBT.empty\<rparr>"

lemma demo_vol_flat: "flat (t_objmap demo_vol) = [new_extent lba2obj 10 4 (Obj_offset 1 8)]"
  unfolding demo_vol_def flat_def by code_simp

lemma demo_vol_ok: "objmap_ok (t_objmap demo_vol)"
  "obj_look (t_objmap demo_vol) x = (if 10 \<le> x \<and> x < 14 then Some (Obj_offset 1 (8 + (x - 10))) else None)"
proof -
  have "obj_pok (Obj_offset 1 8) (14 - 10)" by (simp add: obj_pok_def)
  from om.update_ok [OF map_ok_empty _ _ _ this]
  have "objmap_ok (t_objmap demo_vol) \<and> obj_look (t_objmap demo_vol) = map_upd lba2obj (obj_look extmap_empty) 10 14 (Obj_offset 1 8)"
    by (simp add: demo_vol_def obj_amax_def)
  then show "objmap_ok (t_objmap demo_vol)"
    "obj_look (t_objmap demo_vol) x = (if 10 \<le> x \<and> x < 14 then Some (Obj_offset 1 (8 + (x - 10))) else None)"
    by (simp_all add: map_upd_def lookup_fun_empty obj_offset_plus_in)
qed

lemma rbt_entries_one: "RBT.entries (RBT.insert k v RBT.empty) = [(k, v)]"
proof -
  have "set (RBT.entries (RBT.insert k v RBT.empty)) = {(k, v)}"
    using RBT.map_of_entries [of "RBT.insert k v RBT.empty"] RBT.distinct_entries [of "RBT.insert k v RBT.empty"]
    by (auto simp: map_of_eq_Some_iff [symmetric] RBT.lookup_insert fun_upd_def split: if_splits)
  moreover have "distinct (RBT.entries (RBT.insert k v RBT.empty))"
    using RBT.distinct_entries by (metis distinct_map)
  ultimately show ?thesis
    by (cases "RBT.entries (RBT.insert k v RBT.empty)"; cases "tl (RBT.entries (RBT.insert k v RBT.empty))") auto
qed

lemma of_le_zeros: "of_le (replicate n 0) = 0"
  by (induction n) simp_all

lemma get_le_replicate: "p + k \<le> n \<Longrightarrow> get_le (replicate n 0) p k = 0"
  by (simp add: get_le_def of_le_zeros)

lemma demo_vol_ready: "ckpt_ready 2 demo_vol"
  using demo_vol_ok(1) demo_vol_flat
  by (simp add: ckpt_ready_def map_fits_def info_fits_def demo_vol_def rbt_entries_one new_extent_def limit_def lba2obj_def
      sbf_id u32_def u64_def demo_state_def make_translate_def sb_buf_ok_def sb_clones_len_def get_le_replicate)

lemma demo_names: "oname ''vol'' 2 \<noteq> ''vol''" "oname ''vol'' 3 \<noteq> ''vol''" "oname ''vol'' 3 \<noteq> oname ''vol'' 2"
  by code_simp+

theorem open_after_checkpoint_witness:
  "\<exists>whole img st2. open_image 1 whole (map_reader whole) ''vol'' demo_cfg (\<lambda>_. 0) 8192 = Some (Inr (img, st2))
     \<and> obj_look (t_objmap st2) 12 = Some (Obj_offset 1 10) \<and> t_cur_seq st2 = 3"
proof (rule write_checkpoint_run [OF demo_vol_ready], goal_cases)
  case (1 sb kept dead)
  let ?cp = "ckpt_bytes (t_uuid demo_vol) (t_ckpt_cache_seq demo_vol) 2 (ckpt_objects (t_object_info demo_vol))
    (ckpt_entries (t_objmap demo_vol))"
  let ?w = "\<lambda>n. if n = ''vol'' then Some sb else if n = oname ''vol'' 2 then Some ?cp else None"
  have nm: "t_name demo_vol = ''vol''" by (simp add: demo_vol_def demo_state_def make_translate_def)
  have h: "holds_writes ?w (map_reader ?w) (drop (length (t_out demo_vol)) (t_out demo_vol @
      [Be_write (oname ''vol'' 2) ?cp, Be_write ''vol'' sb] @ map (\<lambda>c. Be_delete (oname ''vol'' c)) dead))"
    using demo_names by (auto simp: holds_writes_def intro!: reads_map_reader)
  have e: "map_reader ?w (oname ''vol'' (2 + 1)) 0 4096 = (- ENOENT, [])"
    using demo_names by (simp add: map_reader_def)
  have "\<exists>img st2. open_image 1 ?w (map_reader ?w) ''vol'' demo_cfg (\<lambda>_. 0) 8192 = Some (Inr (img, st2))
     \<and> obj_look (t_objmap st2) = obj_look (t_objmap demo_vol) \<and> t_cur_seq st2 = 2 + 1"
    using open_after_checkpoint [OF demo_vol_ready 1(2), of ?w "map_reader ?w" demo_cfg "\<lambda>_. 0" 8192] h e
    unfolding nm by auto
  then show ?case by (intro exI [of _ ?w]) (auto simp: demo_vol_ok)
qed

end
