(* ===== verification/Log_Replay.thy ===== *)
theory Log_Replay
  imports Recovery
begin

text \<open>
  The log replay of \<^verbatim>\<open>apply_log\<close>: it maps the ranges of a data object the way \<^verbatim>\<open>process_batch\<close> did when
  the object overwrites nothing, and throws for every object that overwrites a mapped sector, since
  its check of the live counter is inverted.
\<close>

section \<open>What a replayed object discards\<close>

definition tracked :: "(int, data_obj_info) rbt \<Rightarrow> objmap \<Rightarrow> bool" where
  "tracked info om \<longleftrightarrow> (\<forall>x p. obj_look om x = Some p \<longrightarrow> RBT.lookup info (obj p) \<noteq> None)"

definition covered :: "(int \<times> int) list \<Rightarrow> int set" where
  "covered es = {x. \<exists>(lba, len)\<in>set es. lba \<le> x \<and> x < lba + len}"

lemma batch_pos_covered: "batch_pos es off x = None \<longleftrightarrow> x \<notin> covered es"
proof (induction es arbitrary: off)
  case (Cons e es)
  obtain lba len where e: "e = (lba, len)" by (metis surj_pair)
  have c: "x \<in> covered ((lba, len) # es) \<longleftrightarrow> lba \<le> x \<and> x < lba + len \<or> x \<in> covered es"
    by (auto simp: covered_def)
  show ?case
  proof (cases "batch_pos es (off + len) x")
    case None
    then show ?thesis using Cons.IH [of "off + len"] c by (simp add: e)
  next
    case (Some i)
    then show ?thesis using Cons.IH [of "off + len"] c by (simp add: e)
  qed
qed (simp add: covered_def)

lemma disc_count_pos: "list_all (ext_ok obj_amax obj_pok) D \<Longrightarrow> d \<in> set D \<Longrightarrow> s_len d \<le> disc_count D (obj (s_ptr d)) \<and> 0 < s_len d"
proof (induction D)
  case (Cons e D)
  then have "0 \<le> disc_count D (obj (s_ptr d))" "ext_ok obj_amax obj_pok e" using disc_count_nonneg by simp_all
  then have "0 \<le> disc_count D (obj (s_ptr d))" "0 < s_len e" by (simp_all add: ext_ok_def)
  then show ?case using Cons by auto
qed simp

lemma finite_covered: "ranges_ok es \<Longrightarrow> finite (covered es)"
  by (rule finite_subset [of _ "{0..obj_amax}"]) (auto simp: covered_def ranges_ok_def list_all_iff)

lemma live_set_after:
  assumes fresh: "fresh_seq seq om"
    and look: "\<And>x. obj_look om' x = (case batch_pos es off x of Some i \<Rightarrow> Some (Obj_offset seq i) | None \<Rightarrow> obj_look om x)"
  shows "live_set om' ob = (if ob = seq then covered es else live_set om ob - covered es)"
proof -
  have "x \<in> live_set om' ob \<longleftrightarrow> x \<in> (if ob = seq then covered es else live_set om ob - covered es)" for x
  proof (cases "batch_pos es off x")
    case None
    then show ?thesis using batch_pos_covered [of es off x] look [of x] fresh by (auto simp: live_set_def fresh_seq_def)
  next
    case (Some i)
    then show ?thesis using batch_pos_covered [of es off x] look [of x] by (auto simp: live_set_def)
  qed
  then show ?thesis by blast
qed

lemma deleted_nothing:
  assumes om: "objmap_ok om" "fresh_seq seq om" "ranges_ok es" "0 \<le> off" "off + total_len es < 2 ^ 23"
    and me: "map_entries seq off es om [] = (om', D)"
  shows "(\<forall>x\<in>covered es. obj_look om x = None) \<and> int (card (covered es)) = total_len es \<longleftrightarrow> D = []"
    "objmap_ok om'" "list_all (ext_ok obj_amax obj_pok) D"
    "\<And>x. obj_look om' x = (case batch_pos es off x of Some i \<Rightarrow> Some (Obj_offset seq i) | None \<Rightarrow> obj_look om x)"
    "\<And>ob. live_count om' ob = live_count om ob - disc_count D ob + (if ob = seq then total_len es else 0)"
proof -
  have seq: "0 \<le> seq" "seq < 2 ^ 32" using om(2) by (simp_all add: fresh_seq_def)
  note ms = map_entries_spec [OF om(1,3) seq om(4,5) me]
  show l: "\<And>x. obj_look om' x = (case batch_pos es off x of Some i \<Rightarrow> Some (Obj_offset seq i) | None \<Rightarrow> obj_look om x)"
    and o: "objmap_ok om'" and D: "list_all (ext_ok obj_amax obj_pok) D"
    and c: "\<And>ob. live_count om' ob = live_count om ob - disc_count D ob + (if ob = seq then total_len es else 0)"
    using ms by auto
  note ls = live_set_after [OF om(2) l]
  show "(\<forall>x\<in>covered es. obj_look om x = None) \<and> int (card (covered es)) = total_len es \<longleftrightarrow> D = []"
  proof
    assume n: "(\<forall>x\<in>covered es. obj_look om x = None) \<and> int (card (covered es)) = total_len es"
    have "live_set om ob - covered es = live_set om ob" for ob using n by (auto simp: live_set_def)
    then have "disc_count D ob = 0" for ob
      using c [of ob] n ls [of ob] fresh_live_count [OF om(2)] by (cases "ob = seq") (auto simp: live_count_def)
    then show "D = []" using disc_count_pos [OF D, of "hd D"] by (cases "D = []") auto
  next
    assume "D = []"
    then have c': "live_count om' ob = live_count om ob + (if ob = seq then total_len es else 0)" for ob using c by simp
    have "int (card (covered es)) = total_len es"
      using c' [of seq] ls [of seq] fresh_live_count [OF om(2)] by (simp add: live_count_def)
    moreover have "obj_look om x = None" if "x \<in> covered es" for x
    proof (rule ccontr)
      assume "obj_look om x \<noteq> None"
      then obtain ob i where x: "obj_look om x = Some (Obj_offset ob i)" by (metis obj_offset.exhaust_sel option.exhaust)
      then have "ob \<noteq> seq" using om(2) by (auto simp: fresh_seq_def)
      moreover have "x \<in> live_set om ob" using x by (simp add: live_set_def)
      then have "card (live_set om ob - covered es) < card (live_set om ob)"
        using that finite_live_set [OF om(1)] by (intro psubset_card_mono) auto
      ultimately show False using c' [of ob] ls [of ob] by (simp add: live_count_def)
    qed
    ultimately show "(\<forall>x\<in>covered es. obj_look om x = None) \<and> int (card (covered es)) = total_len es" by blast
  qed
qed

section \<open>Replaying an object\<close>

text \<open>
  C18. Log replay. Let the image's object map be well formed and its object table track every mapped
  object with an exact live counter, and let the object with the next sequence number have a data
  header with valid ranges. If its ranges overlap neither a mapped sector nor each other,
  \<^verbatim>\<open>apply_log\<close> succeeds, maps the ranges to consecutive sectors behind the header, and keeps the
  counters exact. If they do, it throws "Negative live sectors" although no counter is negative:
  recovery of any log with an overwrite fails.
\<close>

theorem apply_log_replay:
  assumes "objmap_ok (i_objmap img)" "live_ok (i_obj_info img) (i_objmap img)" "tracked (i_obj_info img) (i_objmap img)"
    "fresh_seq seq (i_objmap img)"
    and dh: "read_data_hdr rd (oname (i_name img) seq) = Inr (Some dh)"
    and h: "h_hdr_sectors (pd_hdr dh) = hs" "h_data_sectors (pd_hdr dh) = total_len es" "0 \<le> hs" "hs + total_len es < 2 ^ 23"
    and es: "map (\<lambda>d. (dm_lba d, dm_len d)) (pd_data_map dh) = es" "ranges_ok es"
  shows "if (\<forall>x\<in>covered es. obj_look (i_objmap img) x = None) \<and> int (card (covered es)) = total_len es
    then \<exists>img'. apply_log rd seq img = Inr (True, img')
      \<and> objmap_ok (i_objmap img') \<and> live_ok (i_obj_info img') (i_objmap img')
      \<and> (\<forall>x. obj_look (i_objmap img') x =
           (case batch_pos es hs x of Some i \<Rightarrow> Some (Obj_offset seq i) | None \<Rightarrow> obj_look (i_objmap img) x))
    else apply_log rd seq img = Inl (Msg ''Negative live sectors.'')"
proof -
  let ?info = "RBT.insert seq \<lparr>oi_hdr = hs, oi_data = total_len es, oi_live = total_len es\<rparr> (i_obj_info img)"
  obtain om' D where me: "map_entries seq hs es (i_objmap img) [] = (om', D)" by (metis surj_pair)
  note d = deleted_nothing [OF assms(1,4) es(2) h(3,4) me]
  have ty: "h_type (pd_hdr dh) \<noteq> OBJ_CHECKPOINT"
    using dh by (auto simp: read_data_hdr_def parse_data_hdr_def Let_def OBJ_LOGDATA_def OBJ_CHECKPOINT_def
        split: sum.splits option.splits if_splits)
  have run: "apply_log rd seq img = (case release_live D ?info of Inl e \<Rightarrow> Inl e
      | Inr info' \<Rightarrow> Inr (True, img\<lparr>i_obj_info := info', i_objmap := om'\<rparr>))"
    using dh ty h es(1) me by (simp add: apply_log_def Let_def)
  show ?thesis
  proof (cases D)
    case Nil
    have "live_ok ?info om'"
      using d(5) assms(2) fresh_live_count [OF assms(4)] Nil by (auto simp: live_ok_def)
    then show ?thesis using d run Nil by simp
  next
    case (Cons e D')
    have p: "s_len e \<le> disc_count D (obj (s_ptr e))" "0 < s_len e" using disc_count_pos [OF d(3), of e] Cons by auto
    have n: "0 \<le> live_count om' (obj (s_ptr e))" by (simp add: live_count_def)
    obtain oi where oi: "RBT.lookup ?info (obj (s_ptr e)) = Some oi" "s_len e \<le> oi_live oi"
    proof (cases "obj (s_ptr e) = seq")
      case True
      then show thesis using that d(5) [of seq] fresh_live_count [OF assms(4)] p n by simp
    next
      case False
      then have l: "s_len e \<le> live_count (i_objmap img) (obj (s_ptr e))" using d(5) [of "obj (s_ptr e)"] p n by simp
      then have "live_set (i_objmap img) (obj (s_ptr e)) \<noteq> {}" using p by (auto simp: live_count_def)
      then obtain oi where "RBT.lookup (i_obj_info img) (obj (s_ptr e)) = Some oi"
        using assms(3) by (fastforce simp: tracked_def live_set_def)
      then show thesis using that l False assms(2) by (simp add: live_ok_def)
    qed
    have "release_live D ?info = Inl (Msg ''Negative live sectors.'')"
      using oi Cons by (simp add: vals_def Let_def)
    then show ?thesis using run d(1) Cons by auto
  qed
qed

text \<open>An object that writes sector 12 of the small volume again.\<close>

definition demo_image :: image where
  "demo_image = (new_image ''vol'' demo_cfg)\<lparr>i_objmap := t_objmap demo_vol, i_obj_info := t_object_info demo_vol\<rparr>"

definition demo_log :: "byte list" where
  "demo_log = obj_hdr_bytes (replicate 16 7) 2 8 1 [\<lparr>dm_lba = 12, dm_len = 1\<rparr>] False 0 @ replicate 512 9"

lemma demo_log_read: "\<exists>dh. read_data_hdr (one_obj_reader demo_log) name = Inr (Some dh)
    \<and> h_hdr_sectors (pd_hdr dh) = 8 \<and> h_data_sectors (pd_hdr dh) = 1 \<and> pd_data_map dh = [\<lparr>dm_lba = 12, dm_len = 1\<rparr>]"
proof -
  have "reads_obj (one_obj_reader demo_log) name
      (obj_hdr_bytes (replicate 16 7) 2 8 1 [\<lparr>dm_lba = 12, dm_len = 1\<rparr>] False 0 @ replicate 512 9)"
    using reads_one_obj by (simp add: demo_log_def)
  from read_obj_hdr [OF this] show ?thesis by (force simp: u32_def dm_ok_def)
qed

lemma demo_vol_live: "live_set (t_objmap demo_vol) 1 = {10..<14}" "ob \<noteq> 1 \<Longrightarrow> live_set (t_objmap demo_vol) ob = {}"
  by (auto simp: live_set_def demo_vol_ok split: if_splits)

theorem apply_log_replay_witness:
  "apply_log (one_obj_reader demo_log) 2 demo_image = Inl (Msg ''Negative live sectors.'')"
proof -
  obtain dh where d: "read_data_hdr (one_obj_reader demo_log) (oname (i_name demo_image) 2) = Inr (Some dh)"
    "h_hdr_sectors (pd_hdr dh) = 8" "h_data_sectors (pd_hdr dh) = total_len [(12, 1)]"
    "map (\<lambda>d. (dm_lba d, dm_len d)) (pd_data_map dh) = [(12, 1)]"
    using demo_log_read by force
  have i: "objmap_ok (i_objmap demo_image)" "live_ok (i_obj_info demo_image) (i_objmap demo_image)"
    "tracked (i_obj_info demo_image) (i_objmap demo_image)" "fresh_seq 2 (i_objmap demo_image)"
    using demo_vol_ok demo_vol_live(1)
    by (auto simp: demo_image_def live_ok_def tracked_def fresh_seq_def live_count_def demo_vol_def split: if_splits)
  have "12 \<in> covered [(12, 1)]" "obj_look (i_objmap demo_image) 12 \<noteq> None"
    by (auto simp: covered_def demo_image_def demo_vol_ok)
  then show ?thesis
    using apply_log_replay [OF i d(1-3) _ _ d(4)] by (auto simp: obj_amax_def split: if_splits)
qed

end
