(* ===== verification/Image_Manage.thy ===== *)
theory Image_Manage
  imports Recovery
begin

text \<open>
  Image management: names of objects are unique, a new image opens as an empty volume, and deleting an
  image reaches only the objects from its last checkpoint on.
\<close>

section \<open>Object names\<close>

lemma hex_digit_inj:
  assumes "0 \<le> a" "a < 16" "0 \<le> b" "b < 16" "hex_digit a = hex_digit b"
  shows "a = b"
proof -
  have "of_char (hex_digit v) = nat (if v < 10 then 48 + v else 87 + v)" if "0 \<le> v" "v < 16" for v
    using that by (auto simp: hex_digit_def)
  from this [of a] this [of b] assms show ?thesis by (auto split: if_splits)
qed

lemma hex_digits_inj:
  "0 \<le> a \<Longrightarrow> a < 16 ^ n \<Longrightarrow> 0 \<le> b \<Longrightarrow> b < 16 ^ n \<Longrightarrow> hex_digits n a = hex_digits n b \<Longrightarrow> a = b"
proof (induction n arbitrary: a b)
  case (Suc n)
  have "a div 16 = b div 16"
    by (rule Suc.IH) (use Suc.prems in \<open>auto simp: pos_imp_zdiv_nonneg_iff\<close>)
  moreover have "a mod 16 = b mod 16" by (rule hex_digit_inj) (use Suc.prems in auto)
  ultimately show ?case by (metis div_mult_mod_eq)
qed simp

lemma oname_inj: "u32 a \<Longrightarrow> u32 b \<Longrightarrow> oname n a = oname n b \<longleftrightarrow> a = b"
proof -
  assume u: "u32 a" "u32 b"
  then have "ubf 32 a = a" "ubf 32 b = b" by (auto simp: u32_def intro: ubf_id)
  then show ?thesis using hex_digits_inj [of a 8 b] u by (auto simp: oname_def u32_def)
qed

lemma oname_neq [simp]: "oname n a \<noteq> n"
proof
  assume "oname n a = n"
  then have "length (oname n a) = length n" by simp
  then show False by (simp add: oname_def)
qed

section \<open>Creating an image\<close>

text \<open>
  C19. A new image. Creating an image of a whole number of sectors writes a superblock; opening it
  gives the volume's size and identifier and a map in which no sector is mapped. No
  other object is read: with no checkpoint in the superblock, data objects that are already in the
  store are not replayed.
\<close>

theorem create_then_open:
  assumes "length uuid = 16" "0 \<le> vol_size" "vol_size < 2 ^ 64" "512 dvd vol_size"
  shows "\<exists>buf. create_new put name vol_size uuid s = Some (put name buf s)
    \<and> (\<forall>whole rd. whole name = Some buf \<longrightarrow>
        (\<exists>img st. open_image 0 whole rd name cfg mem p = Some (Inr (img, st))
          \<and> t_vol_size st = vol_size \<and> t_uuid st = uuid \<and> t_cur_seq st = 1
          \<and> objmap_ok (t_objmap st) \<and> (\<forall>x. obj_look (t_objmap st) x = None)))"
proof -
  have "sb_buf_ok (replicate 4096 0)" by (simp add: sb_buf_ok_def sb_clones_len_def get_le_replicate)
  from superblock_parse [OF this assms(1) _ _ assms(2-4), of "[]" name] obtain buf where
    b: "serialise_superblock (replicate 4096 0) [] [] uuid vol_size = Some buf"
    "read_superblock (\<lambda>_. Some buf) name = Some \<lparr>ps_vol_size = vol_size, ps_ckpts = [], ps_clones = [], ps_snaps = [], ps_uuid = uuid\<rparr>"
    by auto
  have "\<exists>img st. open_image 0 whole rd name cfg mem p = Some (Inr (img, st))
          \<and> t_vol_size st = vol_size \<and> t_uuid st = uuid \<and> t_cur_seq st = 1
          \<and> objmap_ok (t_objmap st) \<and> (\<forall>x. obj_look (t_objmap st) x = None)" if "whole name = Some buf" for whole rd
  proof -
    have "read_superblock whole name = read_superblock (\<lambda>_. Some buf) name" 
      using read_superblock_local [of whole name, OF that] .
    then have l: "load_superblock whole (new_image name cfg) = Inr ((new_image name cfg)\<lparr>i_size := vol_size, i_uuid := uuid\<rparr>)"
      using b(2) by (simp add: load_superblock_def new_image_def)
    show ?thesis
      unfolding open_image_def l sum.case
      by (simp add: roll_forward_def new_image_def make_translate_def map_ok_empty lookup_fun_empty ubf_id)
  qed
  then show ?thesis using b(1) by (auto simp: create_new_def)
qed

definition demo_put :: "string \<Rightarrow> byte list \<Rightarrow> (string \<rightharpoonup> byte list) \<Rightarrow> int \<times> (string \<rightharpoonup> byte list)" where
  "demo_put n b s = (0, s(n \<mapsto> b))"

theorem create_then_open_witness:
  "\<exists>buf img st. create_new demo_put ''vol'' (2 ^ 30) (replicate 16 7) Map.empty = Some (demo_put ''vol'' buf Map.empty)
     \<and> open_image 0 [''vol'' \<mapsto> buf] (map_reader [''vol'' \<mapsto> buf]) ''vol'' demo_cfg (\<lambda>_. 0) 8192 = Some (Inr (img, st))
     \<and> t_vol_size st = 2 ^ 30 \<and> obj_look (t_objmap st) 5 = None"
proof -
  have "length (replicate 16 7 :: byte list) = 16" "0 \<le> (2 ^ 30 :: int)" "(2 ^ 30 :: int) < 2 ^ 64" "512 dvd (2 ^ 30 :: int)"
    by simp_all
  from create_then_open [OF this, of demo_put "''vol''" Map.empty demo_cfg "\<lambda>_. 0" 8192]
  obtain buf where b: "create_new demo_put ''vol'' (2 ^ 30) (replicate 16 7) Map.empty = Some (demo_put ''vol'' buf Map.empty)"
    and o: "\<forall>whole rd. whole ''vol'' = Some buf \<longrightarrow>
        (\<exists>img st. open_image 0 whole rd ''vol'' demo_cfg (\<lambda>_. 0) 8192 = Some (Inr (img, st))
          \<and> t_vol_size st = 2 ^ 30 \<and> t_uuid st = replicate 16 7 \<and> t_cur_seq st = 1
          \<and> objmap_ok (t_objmap st) \<and> (\<forall>x. obj_look (t_objmap st) x = None))"
    by (elim exE conjE)
  have "[''vol'' \<mapsto> buf] ''vol'' = Some buf" by simp
  from o [THEN spec, of "[''vol'' \<mapsto> buf]", THEN spec, of "map_reader [''vol'' \<mapsto> buf]", THEN mp, OF this] b
  show ?thesis by (elim exE conjE) (intro exI conjI, assumption+, rule spec)
qed

section \<open>Deleting an image\<close>

lemma delete_ckpts_keeps:
  assumes del: "\<And>n s rc s'. del n s = (rc, s') \<Longrightarrow> \<forall>m. m \<noteq> n \<longrightarrow> has s' m = has s m"
    and m: "\<forall>c\<in>set cs. m \<noteq> oname name c"
    and run: "delete_ckpts del name cs seq s = (rc, seq', s')"
  shows "has s' m = has s m \<and> (0 \<le> rc \<longrightarrow> seq' = last (seq # cs))"
  using m run
proof (induction cs arbitrary: seq s)
  case (Cons c cs)
  obtain r s1 where d: "del (oname name c) s = (r, s1)" by fastforce
  have k: "has s1 m = has s m" using del [OF d] Cons.prems(1) by simp
  show ?case
  proof (cases "r < 0")
    case True
    then show ?thesis using Cons.prems(2) d k by simp
  next
    case False
    then show ?thesis using Cons.IH [of c s1] Cons.prems d k by simp
  qed
qed simp

lemma delete_tail_keeps:
  assumes del: "\<And>n s rc s'. del n s = (rc, s') \<Longrightarrow> \<forall>m. m \<noteq> n \<longrightarrow> has s' m = has s m"
    and q: "0 \<le> q" "q < seq" and run: "delete_tail k del name seq n s = Some s'" "seq + int k < 2 ^ 32"
  shows "has s' (oname name q) = has s (oname name q)"
  using q run
proof (induction k arbitrary: seq n s)
  case (Suc k)
  show ?case
  proof (cases "n < 16")
    case True
    obtain r s1 where d: "del (oname name seq) s = (r, s1)" by fastforce
    have "oname name q \<noteq> oname name seq" using oname_inj [of q seq name] Suc.prems by (simp add: u32_def)
    then have h: "has s1 (oname name q) = has s (oname name q)" using del [OF d] by simp
    have u: "ubf 32 (seq + 1) = seq + 1" using Suc.prems by (intro ubf_id) simp_all
    have r: "delete_tail k del name (seq + 1) (if 0 \<le> r then 1 else n + 1) s1 = Some s'"
      using Suc.prems(3) True d u by simp
    have "has s' (oname name q) = has s1 (oname name q)"
      by (rule Suc.IH [OF _ _ r]) (use Suc.prems in simp_all)
    then show ?thesis using h by simp
  qed (use Suc.prems in simp)
qed simp


text \<open>Sixteen missing objects in a row end the scan.\<close>

lemma delete_tail_misses:
  assumes "\<forall>i. seq \<le> i \<longrightarrow> i < 2 ^ 32 \<longrightarrow> fst (del (oname name i) s) < 0 \<and> snd (del (oname name i) s) = s"
    "0 \<le> seq" "seq + int k < 2 ^ 32" "n + k = 16"
  shows "delete_tail (Suc k) del name seq n s = Some s"
  using assms
proof (induction k arbitrary: seq n)
  case (Suc k)
  obtain r s1 where d: "del (oname name seq) s = (r, s1)" by fastforce
  moreover have "seq < 2 ^ 32" using Suc.prems(3) by simp
  ultimately have r: "r < 0" "s1 = s" using Suc.prems(1) by (metis order_refl fst_conv snd_conv)+
  have u: "ubf 32 (seq + 1) = seq + 1" using Suc.prems by (intro ubf_id) simp_all
  have "delete_tail (Suc k) del name (seq + 1) (n + 1) s = Some s"
    by (rule Suc.IH) (use Suc.prems in auto)
  then show ?case using d r u Suc.prems(4) by simp
qed simp

definition demo_del :: "string \<Rightarrow> (string \<rightharpoonup> byte list) \<Rightarrow> int \<times> (string \<rightharpoonup> byte list)" where
  "demo_del n s = (if s n = None then (- ENOENT, s) else (0, s(n := None)))"


end
