(* ===== verification/Read_Cache.thy ===== *)
theory Read_Cache
  imports Translate Image_Read "HOL-Library.Multiset"
begin

text \<open>
  The shared read cache (\<^verbatim>\<open>src/src/shared_read_cache.cc\<close>): one shard with its chunk table, clock
  eviction, the requests that read and fill chunks, and the sharded front. The chunk file is a byte
  memory, a buffer that a request owns is its list of bytes. An operation gives \<open>None\<close> when a loop
  of it has not ended within its fuel and \<open>Abort\<close> when an assertion fails.
\<close>

section \<open>State\<close>

type_synonym chunk_key = "string \<times> int \<times> int"

datatype entry_status = EMPTY | FETCHING | FILLING | VALID

text \<open>A pending read: its key, its offset in the chunk and its buffers.\<close>

type_synonym pending_read = "chunk_key \<times> int \<times> smartiov"

record entry_state =
  e_status :: entry_status
  e_accessed :: bool
  e_refcount :: int
  e_fill :: "byte list option"
  e_pending :: "pending_read list"
  e_key :: chunk_key

record rcache =
  rc_state :: "entry_state list"
  rc_map :: "chunk_key \<rightharpoonup> nat"
  rc_clock :: nat
  rc_total :: int
  rc_hitrate :: "int list"
  rc_user :: "int list"
  rc_backend :: "int list"

datatype 'a outcome = Done 'a | Abort

definition CACHE_HEADER_SIZE :: int where
  "CACHE_HEADER_SIZE = 4096"

definition CACHE_STATS_WINDOW :: nat where
  "CACHE_STATS_WINDOW = 10000"

definition new_entry :: entry_state where
  "new_entry = \<lparr>e_status = EMPTY, e_accessed = False, e_refcount = 0, e_fill = None, e_pending = [], e_key = ([], 0, 0)\<rparr>"

definition new_cache :: "nat \<Rightarrow> rcache" where
  "new_cache n = \<lparr>rc_state = replicate n new_entry, rc_map = Map.empty, rc_clock = 0, rc_total = 0,
     rc_hitrate = [], rc_user = [], rc_backend = []\<rparr>"

definition size_in_chunks :: "rcache \<Rightarrow> nat" where
  "size_in_chunks c = length (rc_state c)"

definition upd_entry :: "nat \<Rightarrow> entry_state \<Rightarrow> rcache \<Rightarrow> rcache" where
  "upd_entry i e c = c\<lparr>rc_state := (rc_state c)[i := e]\<rparr>"

text \<open>The rolling windows of the statistics.\<close>

definition roll_stat :: "int \<Rightarrow> int list \<Rightarrow> int list" where
  "roll_stat v xs = (let ys = xs @ [v] in drop (length ys - CACHE_STATS_WINDOW) ys)"

definition count_request :: "int \<Rightarrow> int \<Rightarrow> int \<Rightarrow> rcache \<Rightarrow> rcache" where
  "count_request user backend hit c =
     c\<lparr>rc_user := roll_stat user (rc_user c), rc_backend := roll_stat backend (rc_backend c),
       rc_hitrate := roll_stat hit (rc_hitrate c)\<rparr>"

definition get_store_offset_for_chunk :: "nat \<Rightarrow> int" where
  "get_store_offset_for_chunk i = int i * CACHE_CHUNK_SIZE + CACHE_HEADER_SIZE"

section \<open>Buffers\<close>

text \<open>\<^verbatim>\<open>dest.copy_in(buf)\<close> for a buffer with the bytes \<open>bs\<close>.\<close>

fun copy_buf :: "memory \<Rightarrow> smartiov \<Rightarrow> byte list \<Rightarrow> memory" where
  "copy_buf mem [] bs = mem"
| "copy_buf mem (v # vs) bs =
     copy_buf (store_bytes mem (iov_base v) (take (nat (iov_len v)) bs)) vs (drop (nat (iov_len v)) bs)"

section \<open>Chunks\<close>

definition evictable :: "entry_state \<Rightarrow> bool" where
  "evictable e \<longleftrightarrow> e_status e = EMPTY \<or> (e_refcount e = 0 \<and> \<not> e_accessed e)"

text \<open>The search loop of \<^verbatim>\<open>allocate_chunk\<close>.\<close>

fun clock_search :: "nat \<Rightarrow> rcache \<Rightarrow> rcache option" where
  "clock_search 0 c = None"
| "clock_search (Suc n) c =
     (let e = rc_state c ! rc_clock c
      in if evictable e then Some c
         else clock_search n
           ((if e_refcount e = 0 then upd_entry (rc_clock c) (e\<lparr>e_accessed := False\<rparr>) c else c)
              \<lparr>rc_clock := (rc_clock c + 1) mod size_in_chunks c\<rparr>))"

definition allocate_chunk :: "nat \<Rightarrow> rcache \<Rightarrow> (nat \<times> rcache) outcome option" where
  "allocate_chunk fuel c0 =
     map_option (\<lambda>c.
       let i = rc_clock c; e = rc_state c ! i
       in if e_fill e = None \<and> e_pending e = []
          then Done (i, (upd_entry i (e\<lparr>e_status := EMPTY\<rparr>) c)
                 \<lparr>rc_map := (rc_map c)(e_key e := None), rc_clock := (i + 1) mod size_in_chunks c\<rparr>)
          else Abort) (clock_search fuel c0)"

definition dec_chunk_refcount :: "nat \<Rightarrow> rcache \<Rightarrow> rcache outcome" where
  "dec_chunk_refcount i c =
     (let e = rc_state c ! i
      in if 0 < e_refcount e then Done (upd_entry i (e\<lparr>e_refcount := e_refcount e - 1\<rparr>) c) else Abort)"

definition get_chunk_status :: "nat \<Rightarrow> rcache \<Rightarrow> entry_status" where
  "get_chunk_status i c = e_status (rc_state c ! i)"

definition set_chunk_status :: "nat \<Rightarrow> entry_status \<Rightarrow> rcache \<Rightarrow> rcache" where
  "set_chunk_status i st c = upd_entry i ((rc_state c ! i)\<lparr>e_status := st\<rparr>) c"

definition on_store_done :: "nat \<Rightarrow> rcache \<Rightarrow> rcache" where
  "on_store_done i c =
     (let e = rc_state c ! i
      in upd_entry i (e\<lparr>e_status := VALID, e_fill := None, e_refcount := e_refcount e - 1\<rparr>) c)"

text \<open>The part of \<^verbatim>\<open>cache_miss_request::on_backend_done\<close> under the lock; it takes the pending reads.\<close>

definition on_backend_done :: "nat \<Rightarrow> byte list \<Rightarrow> rcache \<Rightarrow> pending_read list \<times> rcache" where
  "on_backend_done i data c =
     (let e = rc_state c ! i
      in (e_pending e, upd_entry i (e\<lparr>e_status := FILLING, e_fill := Some data, e_pending := []\<rparr>) c))"

section \<open>Reading and inserting\<close>

text \<open>
  The result of \<^verbatim>\<open>make_read_req\<close>: a request on the chunk file, \<^verbatim>\<open>nullptr\<close> because the data has been
  copied, a read that waits for the backend, or a miss that fetches.
\<close>

datatype read_result = Rd_hit nat | Rd_now | Rd_pending nat | Rd_miss nat

definition make_read_req ::
  "nat \<Rightarrow> chunk_key \<Rightarrow> int \<Rightarrow> smartiov \<Rightarrow> byte list \<Rightarrow> memory \<Rightarrow> rcache \<Rightarrow> (read_result \<times> memory \<times> rcache) outcome option" where
  "make_read_req fuel key adjust dest junk mem c0 =
     (if snd (snd key) mod CACHE_CHUNK_SIZE \<noteq> 0 \<or> CACHE_CHUNK_SIZE < adjust + bytes dest then Some Abort
      else
        let c = c0\<lparr>rc_total := rc_total c0 + 1\<rparr>
        in case rc_map c key of
             Some i \<Rightarrow>
               let c1 = count_request (bytes dest) 0 1 c;
                   e = rc_state c1 ! i;
                   e1 = e\<lparr>e_refcount := e_refcount e + 1, e_accessed := True\<rparr>
               in Some (case e_status e of
                    EMPTY \<Rightarrow> Abort
                  | VALID \<Rightarrow> Done (Rd_hit i, mem, upd_entry i e1 c1)
                  | FILLING \<Rightarrow>
                      (case e_fill e of
                         None \<Rightarrow> Abort
                       | Some data \<Rightarrow> Done (Rd_now, copy_buf mem dest (drop (nat adjust) data),
                           upd_entry i (e1\<lparr>e_refcount := e_refcount e1 - 1\<rparr>) c1))
                  | FETCHING \<Rightarrow>
                      Done (Rd_pending i, mem, upd_entry i (e1\<lparr>e_pending := e_pending e1 @ [(key, adjust, dest)]\<rparr>) c1))
           | None \<Rightarrow>
               map_option (\<lambda>r. case r of
                   Abort \<Rightarrow> Abort
                 | Done (i, c1) \<Rightarrow>
                     let e = rc_state c1 ! i
                     in Done (Rd_miss i, mem,
                          (upd_entry i (e\<lparr>e_fill := Some junk, e_refcount := e_refcount e + 1, e_status := FETCHING, e_key := key\<rparr>) c1)
                            \<lparr>rc_map := (rc_map c1)(key \<mapsto> i)\<rparr>))
                 (allocate_chunk fuel (count_request (bytes dest) CACHE_CHUNK_SIZE 0 c)))"

definition insert_object :: "nat \<Rightarrow> chunk_key \<Rightarrow> byte list \<Rightarrow> rcache \<Rightarrow> (nat \<times> rcache) outcome option" where
  "insert_object fuel key dat c =
     map_option (\<lambda>r. case r of
         Abort \<Rightarrow> Abort
       | Done (i, c1) \<Rightarrow>
           let e = rc_state c1 ! i
           in Done (i, (upd_entry i (e\<lparr>e_refcount := e_refcount e + 1, e_accessed := False, e_status := FILLING,
                           e_fill := Some dat, e_key := key\<rparr>) c1)
                \<lparr>rc_map := (if rc_map c1 key = None then (rc_map c1)(key \<mapsto> i) else rc_map c1)\<rparr>))
       (allocate_chunk fuel c)"

section \<open>Bypassing\<close>

text \<open>
  The read amplification is compared as a quotient of doubles; both sums are below \<^verbatim>\<open>2^52\<close>, where the
  comparison with 2 is exact.
\<close>

definition should_bypass_cache :: "rcache \<Rightarrow> bool" where
  "should_bypass_cache c \<longleftrightarrow>
     (let frontend = sum_list (rc_user c); backend = sum_list (rc_backend c)
      in frontend \<noteq> 0 \<and> 2 * frontend < backend)"

definition served_bypass_request :: "int \<Rightarrow> rcache \<Rightarrow> rcache" where
  "served_bypass_request n c = count_request n n 0 (c\<lparr>rc_total := rc_total c + 1\<rparr>)"

definition get_stats :: "rcache \<Rightarrow> int \<times> int \<times> int \<times> nat \<times> int" where
  "get_stats c = (sum_list (rc_user c), sum_list (rc_backend c), sum_list (rc_hitrate c), length (rc_hitrate c), rc_total c)"

section \<open>Shards\<close>

definition num_shards :: nat where
  "num_shards = 16"

definition new_sharded_cache :: "int \<Rightarrow> rcache list outcome" where
  "new_sharded_cache cache_bytes =
     (if cache_bytes mod (int num_shards * CACHE_CHUNK_SIZE) = 0
      then Done (replicate num_shards (new_cache (nat (cache_bytes div int num_shards div CACHE_CHUNK_SIZE))))
      else Abort)"

text \<open>The hash of a key is a parameter.\<close>

definition get_shard :: "(chunk_key \<Rightarrow> nat) \<Rightarrow> chunk_key \<Rightarrow> nat" where
  "get_shard h key = h key mod num_shards"

definition sharded_should_bypass :: "(chunk_key \<Rightarrow> nat) \<Rightarrow> chunk_key \<Rightarrow> rcache list \<Rightarrow> bool" where
  "sharded_should_bypass h key cs = should_bypass_cache (cs ! get_shard h key)"

definition sharded_served_bypass :: "(chunk_key \<Rightarrow> nat) \<Rightarrow> chunk_key \<Rightarrow> int \<Rightarrow> rcache list \<Rightarrow> rcache list" where
  "sharded_served_bypass h key n cs = cs[get_shard h key := served_bypass_request n (cs ! get_shard h key)]"

text \<open>
  \<^verbatim>\<open>sharded_cache::insert_object\<close> cuts an object into chunks. The last chunk keeps what its
  \<^verbatim>\<open>malloc\<close>ed memory held behind the end of the object, here \<open>junk\<close>.
\<close>

function object_chunks :: "byte list \<Rightarrow> string \<Rightarrow> int \<Rightarrow> byte list \<Rightarrow> int \<Rightarrow> (chunk_key \<times> byte list) list" where
  "object_chunks junk pf seqnum dat pos =
     (if pos < int (length dat)
      then
        let to_copy = min (int (length dat) - pos) CACHE_CHUNK_SIZE;
            piece = take (nat to_copy) (drop (nat pos) dat)
        in ((pf, seqnum, pos), piece @ drop (nat to_copy) junk) # object_chunks junk pf seqnum dat (pos + to_copy)
      else [])"
  by pat_completeness auto
termination
  by (relation "measure (\<lambda>(junk, pf, seqnum, dat, pos). nat (int (length dat) - pos))") (auto simp: CACHE_CHUNK_SIZE_def)

declare object_chunks.simps [simp del]

fun insert_chunks :: "nat \<Rightarrow> (chunk_key \<Rightarrow> nat) \<Rightarrow> (chunk_key \<times> byte list) list \<Rightarrow> rcache list \<Rightarrow> rcache list outcome option" where
  "insert_chunks fuel h [] cs = Some (Done cs)"
| "insert_chunks fuel h ((key, dat) # ks) cs =
     (case insert_object fuel key dat (cs ! get_shard h key) of
        None \<Rightarrow> None
      | Some Abort \<Rightarrow> Some Abort
      | Some (Done (i, c)) \<Rightarrow> insert_chunks fuel h ks (cs[get_shard h key := c]))"

definition sharded_insert_object ::
  "nat \<Rightarrow> (chunk_key \<Rightarrow> nat) \<Rightarrow> byte list \<Rightarrow> string \<Rightarrow> int \<Rightarrow> byte list \<Rightarrow> rcache list \<Rightarrow> rcache list outcome option" where
  "sharded_insert_object fuel h junk pf seqnum obj_data cs = insert_chunks fuel h (object_chunks junk pf seqnum obj_data 0) cs"

definition sharded_read_req ::
  "nat \<Rightarrow> (chunk_key \<Rightarrow> nat) \<Rightarrow> chunk_key \<Rightarrow> int \<Rightarrow> smartiov \<Rightarrow> byte list \<Rightarrow> memory \<Rightarrow> rcache list
    \<Rightarrow> (read_result \<times> memory \<times> rcache list) outcome option" where
  "sharded_read_req fuel h key adjust dest junk mem cs =
     map_option (\<lambda>r. case r of Abort \<Rightarrow> Abort | Done (res, mem', c) \<Rightarrow> Done (res, mem', cs[get_shard h key := c]))
       (make_read_req fuel key adjust dest junk mem (cs ! get_shard h key))"

section \<open>Requests in flight\<close>

text \<open>
  A miss has been created; its backend read is running; it is delivering the buffer to the reads
  that waited for it; it is writing the chunk file. A hit reads the chunk file. An insert writes it.
\<close>

datatype miss_phase = Created | Fetch | Deliver "byte list" "pending_read list" | Store "byte list"

datatype rreq =
    Hit nat chunk_key int smartiov
  | Miss nat chunk_key int smartiov miss_phase
  | Insert nat chunk_key "byte list"

primrec req_chunk :: "rreq \<Rightarrow> nat" where
  "req_chunk (Hit i k a d) = i"
| "req_chunk (Miss i k a d p) = i"
| "req_chunk (Insert i k b) = i"

text \<open>
  \<^verbatim>\<open>pending_read_request::on_backend_done\<close> copies the buffer of the fetch and drops its reference;
  \<^verbatim>\<open>cache_hit_request::notify\<close> runs when the chunk file has been read into the buffers of the read; a
  chunk has been written to the file when \<^verbatim>\<open>cache_insert_request::notify\<close> and
  \<^verbatim>\<open>cache_miss_request::on_store_done\<close> run.
\<close>

definition pending_on_backend_done :: "nat \<Rightarrow> int \<Rightarrow> smartiov \<Rightarrow> byte list \<Rightarrow> memory \<Rightarrow> rcache \<Rightarrow> (memory \<times> rcache) outcome" where
  "pending_on_backend_done i a d bs mem c =
     (case dec_chunk_refcount i c of
        Abort \<Rightarrow> Abort
      | Done c' \<Rightarrow> Done (copy_buf mem d (drop (nat a) bs), c'))"

definition hit_notify :: "nat \<Rightarrow> int \<Rightarrow> smartiov \<Rightarrow> memory \<Rightarrow> memory \<Rightarrow> rcache \<Rightarrow> (memory \<times> rcache) outcome" where
  "hit_notify i a d file mem c =
     (case dec_chunk_refcount i c of
        Abort \<Rightarrow> Abort
      | Done c' \<Rightarrow> Done (copy_buf mem d (load_bytes file (get_store_offset_for_chunk i + a) (bytes d)), c'))"

definition insert_notify :: "nat \<Rightarrow> byte list \<Rightarrow> memory \<Rightarrow> rcache \<Rightarrow> memory \<times> rcache" where
  "insert_notify i bs file c = (store_bytes file (get_store_offset_for_chunk i) bs, on_store_done i c)"

definition miss_on_store_done :: "nat \<Rightarrow> byte list \<Rightarrow> memory \<Rightarrow> rcache \<Rightarrow> memory \<times> rcache" where
  "miss_on_store_done i bs file c = (store_bytes file (get_store_offset_for_chunk i) bs, on_store_done i c)"

record rsys =
  s_cache :: rcache
  s_file :: memory
  s_mem :: memory
  s_reqs :: "rreq multiset"

fun new_reqs :: "chunk_key \<Rightarrow> int \<Rightarrow> smartiov \<Rightarrow> read_result \<Rightarrow> rreq multiset" where
  "new_reqs k a d (Rd_hit i) = {#Hit i k a d#}"
| "new_reqs k a d (Rd_miss i) = {#Miss i k a d Created#}"
| "new_reqs k a d (Rd_pending i) = {#}"
| "new_reqs k a d Rd_now = {#}"

text \<open>Offsets are unsigned and the buffers of a read do not overlap.\<close>

definition rd_ok :: "chunk_key \<Rightarrow> int \<Rightarrow> smartiov \<Rightarrow> bool" where
  "rd_ok k a d \<longleftrightarrow> 0 \<le> snd (snd k) \<and> 0 \<le> a \<and> iov_ok d \<and> distinct (addrs d)"

text \<open>
  One step of the cache, with the reads that it accepts and the reads that it completes. \<open>resp k\<close> is the set of answers of the
  object store to a read of the chunk \<open>k\<close>, \<open>ins k\<close> the data that may be inserted for it.
\<close>

inductive rc_step ::
  "(chunk_key \<Rightarrow> byte list set) \<Rightarrow> (chunk_key \<Rightarrow> byte list set) \<Rightarrow> rsys \<Rightarrow> pending_read list \<Rightarrow> pending_read list \<Rightarrow> rsys \<Rightarrow> bool"
  for resp ins where
  read: "make_read_req fuel k a d junk (s_mem s) (s_cache s) = Some (Done (res, mem, c)) \<Longrightarrow> rd_ok k a d \<Longrightarrow>
    rc_step resp ins s [(k, a, d)] (if res = Rd_now then [(k, a, d)] else [])
      (s\<lparr>s_cache := c, s_mem := mem, s_reqs := s_reqs s + new_reqs k a d res\<rparr>)"
| run_miss: "Miss i k a d Created \<in># s_reqs s \<Longrightarrow>
    rc_step resp ins s [] []
      (s\<lparr>s_cache := set_chunk_status i FETCHING (s_cache s),
         s_reqs := s_reqs s - {#Miss i k a d Created#} + {#Miss i k a d Fetch#}\<rparr>)"
| backend_done: "Miss i k a d Fetch \<in># s_reqs s \<Longrightarrow> bs \<in> resp k \<Longrightarrow> on_backend_done i bs (s_cache s) = (q, c) \<Longrightarrow>
    rc_step resp ins s [] [] (s\<lparr>s_cache := c, s_reqs := s_reqs s - {#Miss i k a d Fetch#} + {#Miss i k a d (Deliver bs q)#}\<rparr>)"
| deliver_pending: "Miss i k a d (Deliver bs ((k', a', d') # q)) \<in># s_reqs s \<Longrightarrow>
    pending_on_backend_done i a' d' bs (s_mem s) (s_cache s) = Done (m, c) \<Longrightarrow>
    rc_step resp ins s [] [(k', a', d')]
      (s\<lparr>s_cache := c, s_mem := m,
         s_reqs := s_reqs s - {#Miss i k a d (Deliver bs ((k', a', d') # q))#} + {#Miss i k a d (Deliver bs q)#}\<rparr>)"
| deliver_self: "Miss i k a d (Deliver bs []) \<in># s_reqs s \<Longrightarrow>
    rc_step resp ins s [] [(k, a, d)]
      (s\<lparr>s_mem := copy_buf (s_mem s) d (drop (nat a) bs),
         s_reqs := s_reqs s - {#Miss i k a d (Deliver bs [])#} + {#Miss i k a d (Store bs)#}\<rparr>)"
| store_done: "Miss i k a d (Store bs) \<in># s_reqs s \<Longrightarrow> miss_on_store_done i bs (s_file s) (s_cache s) = (f, c) \<Longrightarrow>
    rc_step resp ins s [] [] (s\<lparr>s_cache := c, s_file := f, s_reqs := s_reqs s - {#Miss i k a d (Store bs)#}\<rparr>)"
| hit_done: "Hit i k a d \<in># s_reqs s \<Longrightarrow> hit_notify i a d (s_file s) (s_mem s) (s_cache s) = Done (m, c) \<Longrightarrow>
    rc_step resp ins s [] [(k, a, d)] (s\<lparr>s_cache := c, s_mem := m, s_reqs := s_reqs s - {#Hit i k a d#}\<rparr>)"
| insert: "insert_object fuel k bs (s_cache s) = Some (Done (i, c)) \<Longrightarrow> bs \<in> ins k \<Longrightarrow>
    rc_step resp ins s [] [] (s\<lparr>s_cache := c, s_reqs := s_reqs s + {#Insert i k bs#}\<rparr>)"
| insert_done: "Insert i k bs \<in># s_reqs s \<Longrightarrow> insert_notify i bs (s_file s) (s_cache s) = (f, c) \<Longrightarrow>
    rc_step resp ins s [] [] (s\<lparr>s_cache := c, s_file := f, s_reqs := s_reqs s - {#Insert i k bs#}\<rparr>)"

text \<open>A cache with \<open>n\<close> chunks, its chunk file and the memory of its users.\<close>

definition start_sys :: "nat \<Rightarrow> memory \<Rightarrow> memory \<Rightarrow> rsys" where
  "start_sys n file mem = \<lparr>s_cache = new_cache n, s_file = file, s_mem = mem, s_reqs = {#}\<rparr>"

text \<open>The reachable states, with all reads accepted and all reads completed so far.\<close>

inductive rc_reach ::
  "(chunk_key \<Rightarrow> byte list set) \<Rightarrow> (chunk_key \<Rightarrow> byte list set) \<Rightarrow> nat \<Rightarrow> rsys \<Rightarrow> pending_read list \<Rightarrow> pending_read list \<Rightarrow> bool"
  for resp ins n where
  rc_start: "rc_reach resp ins n (start_sys n file mem) [] []"
| rc_next: "rc_reach resp ins n s as ds \<Longrightarrow> rc_step resp ins s a d s' \<Longrightarrow> rc_reach resp ins n s' (as @ a) (ds @ d)"

end
