(* ===== verification/Read_Cache_Alloc.thy ===== *)
theory Read_Cache_Alloc
  imports Read_Cache
begin

text \<open>
  Clock eviction: the search of \<^verbatim>\<open>allocate_chunk\<close> changes nothing but access bits and the clock hand,
  ends within two turns of the clock when some chunk is free of references, and never ends when
  every chunk is in use.
\<close>

section \<open>What the search changes\<close>

definition abits_only :: "rcache \<Rightarrow> rcache \<Rightarrow> bool" where
  "abits_only c c' \<longleftrightarrow> rc_map c' = rc_map c \<and> size_in_chunks c' = size_in_chunks c
     \<and> (\<forall>i < size_in_chunks c. \<exists>b. rc_state c' ! i = (rc_state c ! i)\<lparr>e_accessed := b\<rparr>)"

lemma upd_entry_sel [simp]:
  "size_in_chunks (upd_entry i e c) = size_in_chunks c" "rc_map (upd_entry i e c) = rc_map c"
  "rc_clock (upd_entry i e c) = rc_clock c"
  "i < size_in_chunks c \<Longrightarrow> rc_state (upd_entry i e c) ! i = e"
  "j \<noteq> i \<Longrightarrow> rc_state (upd_entry i e c) ! j = rc_state c ! j"
  by (simp_all add: upd_entry_def size_in_chunks_def)

lemma size_in_chunks_upd [simp]:
  "size_in_chunks (c\<lparr>rc_clock := k\<rparr>) = size_in_chunks c" "size_in_chunks (c\<lparr>rc_map := m\<rparr>) = size_in_chunks c"
  "size_in_chunks (c\<lparr>rc_total := t\<rparr>) = size_in_chunks c"
  by (simp_all add: size_in_chunks_def)

lemma abits_refl: "abits_only c c"
proof -
  have "rc_state c ! i = (rc_state c ! i)\<lparr>e_accessed := e_accessed (rc_state c ! i)\<rparr>" for i by simp
  then show ?thesis unfolding abits_only_def by blast
qed

lemma abits_trans:
  assumes "abits_only c c1" "abits_only c1 c2"
  shows "abits_only c c2"
proof -
  have "\<exists>b. rc_state c2 ! i = (rc_state c ! i)\<lparr>e_accessed := b\<rparr>" if i: "i < size_in_chunks c" for i
  proof -
    obtain b where b: "rc_state c1 ! i = (rc_state c ! i)\<lparr>e_accessed := b\<rparr>" using assms(1) i by (auto simp: abits_only_def)
    obtain b' where "rc_state c2 ! i = (rc_state c1 ! i)\<lparr>e_accessed := b'\<rparr>" using assms i by (auto simp: abits_only_def)
    then show ?thesis using b by (intro exI [of _ b']) simp
  qed
  then show ?thesis using assms by (simp add: abits_only_def)
qed

definition clock_next :: "rcache \<Rightarrow> rcache" where
  "clock_next c =
     (if e_refcount (rc_state c ! rc_clock c) = 0
      then upd_entry (rc_clock c) ((rc_state c ! rc_clock c)\<lparr>e_accessed := False\<rparr>) c else c)
       \<lparr>rc_clock := (rc_clock c + 1) mod size_in_chunks c\<rparr>"

lemma clock_search_step:
  "clock_search (Suc n) c = (if evictable (rc_state c ! rc_clock c) then Some c else clock_search n (clock_next c))"
  by (simp add: clock_next_def Let_def)

declare clock_search.simps(2) [simp del]

lemma abits_clock_next:
  assumes "rc_clock c < size_in_chunks c"
  shows "abits_only c (clock_next c)" "rc_clock (clock_next c) = (rc_clock c + 1) mod size_in_chunks c"
    "rc_clock (clock_next c) < size_in_chunks (clock_next c)" "size_in_chunks (clock_next c) = size_in_chunks c"
proof -
  have "\<exists>b. rc_state (clock_next c) ! i = (rc_state c ! i)\<lparr>e_accessed := b\<rparr>" if "i < size_in_chunks c" for i
  proof (cases "i = rc_clock c \<and> e_refcount (rc_state c ! rc_clock c) = 0")
    case True
    then show ?thesis using assms by (intro exI [of _ False]) (simp add: clock_next_def)
  next
    case False
    then show ?thesis by (intro exI [of _ "e_accessed (rc_state c ! i)"]) (auto simp: clock_next_def)
  qed
  then show "abits_only c (clock_next c)" by (simp add: abits_only_def clock_next_def)
  show "rc_clock (clock_next c) = (rc_clock c + 1) mod size_in_chunks c"
    "rc_clock (clock_next c) < size_in_chunks (clock_next c)" "size_in_chunks (clock_next c) = size_in_chunks c"
    using assms by (simp_all add: clock_next_def)
qed

lemma clock_search_spec:
  "rc_clock c < size_in_chunks c \<Longrightarrow> clock_search n c = Some c' \<Longrightarrow>
   abits_only c c' \<and> rc_clock c' < size_in_chunks c' \<and> evictable (rc_state c' ! rc_clock c')"
proof (induction n arbitrary: c)
  case (Suc n)
  show ?case
  proof (cases "evictable (rc_state c ! rc_clock c)")
    case True
    then show ?thesis using Suc.prems by (simp add: clock_search_step abits_refl)
  next
    case False
    note a = abits_clock_next [OF Suc.prems(1)]
    then show ?thesis
      using Suc.IH [of "clock_next c"] Suc.prems(2) False abits_trans by (auto simp: clock_search_step)
  qed
qed simp

section \<open>Termination\<close>

lemma clock_next_entry:
  assumes "rc_clock c < size_in_chunks c"
  shows "i \<noteq> rc_clock c \<Longrightarrow> rc_state (clock_next c) ! i = rc_state c ! i"
    "e_refcount (rc_state c ! rc_clock c) = 0 \<Longrightarrow> evictable (rc_state (clock_next c) ! rc_clock c)"
  using assms by (auto simp: clock_next_def evictable_def)

lemma mod_step: "(Suc k mod n + d) mod n = Suc (k + d) mod n"
  by (metis add_Suc mod_add_left_eq)

lemma search_finds_evictable:
  assumes "rc_clock c < size_in_chunks c" "evictable (rc_state c ! i)" "(rc_clock c + d) mod size_in_chunks c = i" "d < fuel"
  shows "clock_search fuel c \<noteq> None"
  using assms
proof (induction d arbitrary: c fuel)
  case 0
  then obtain f where "fuel = Suc f" by (cases fuel) auto
  then show ?case using 0 by (simp add: clock_search_step)
next
  case (Suc d)
  then obtain f where f: "fuel = Suc f" "d < f" by (cases fuel) auto
  note a = abits_clock_next [OF Suc.prems(1)]
  show ?case
  proof (cases "evictable (rc_state c ! rc_clock c)")
    case False
    then have "i \<noteq> rc_clock c" using Suc.prems(2) by blast
    then have "clock_search f (clock_next c) \<noteq> None"
      using Suc.prems a f(2) clock_next_entry(1) [OF Suc.prems(1)]
      by (intro Suc.IH) (simp_all add: mod_step)
    then show ?thesis using f False by (simp add: clock_search_step)
  qed (use f in \<open>simp add: clock_search_step\<close>)
qed

lemma search_after_clear:
  assumes "rc_clock c < size_in_chunks c" "e_refcount (rc_state c ! rc_clock c) = 0" "size_in_chunks c < fuel"
  shows "clock_search fuel c \<noteq> None"
proof -
  obtain f where f: "fuel = Suc f" "size_in_chunks c - 1 < f" using assms(1,3) by (cases fuel) auto
  note a = abits_clock_next [OF assms(1)]
  have "(rc_clock (clock_next c) + (size_in_chunks c - 1)) mod size_in_chunks c = rc_clock c"
    unfolding a(2) Suc_eq_plus1 [symmetric] mod_step using assms(1) by simp
  then have "clock_search f (clock_next c) \<noteq> None"
    using a f(2) clock_next_entry(2) [OF assms(1,2)]
    by (intro search_finds_evictable [of _ "rc_clock c" "size_in_chunks c - 1"]) simp_all
  then show ?thesis using f by (simp add: clock_search_step)
qed

lemma search_clears_then_finds:
  assumes "rc_clock c < size_in_chunks c" "e_refcount (rc_state c ! i) = 0" "(rc_clock c + d) mod size_in_chunks c = i"
    "d + size_in_chunks c < fuel"
  shows "clock_search fuel c \<noteq> None"
  using assms
proof (induction d arbitrary: c fuel)
  case 0
  then show ?case using search_after_clear [of c fuel] by simp
next
  case (Suc d)
  then obtain f where f: "fuel = Suc f" "d + size_in_chunks c < f" by (cases fuel) auto
  note a = abits_clock_next [OF Suc.prems(1)]
  show ?case
  proof (cases "i = rc_clock c")
    case True
    then show ?thesis using search_after_clear [of c fuel] Suc.prems by simp
  next
    case False
    then have "clock_search f (clock_next c) \<noteq> None"
      using Suc.prems a f(2) clock_next_entry(1) [OF Suc.prems(1)] by (intro Suc.IH) (simp_all add: mod_step)
    then show ?thesis using f by (simp add: clock_search_step)
  qed
qed

lemma clock_distance:
  assumes "k < n" "i < (n :: nat)"
  obtains d where "d < n" "(k + d) mod n = i"
proof (cases "k \<le> i")
  case True
  then show thesis using that [of "i - k"] assms by simp
next
  case False
  then show thesis using that [of "n - k + i"] assms by simp
qed

lemma search_stuck:
  "rc_clock c < size_in_chunks c \<Longrightarrow>
   \<forall>i < size_in_chunks c. e_status (rc_state c ! i) \<noteq> EMPTY \<and> e_refcount (rc_state c ! i) \<noteq> 0 \<Longrightarrow> clock_search n c = None"
proof (induction n arbitrary: c)
  case (Suc n)
  have "clock_next c = c\<lparr>rc_clock := (rc_clock c + 1) mod size_in_chunks c\<rparr>"
    using Suc.prems by (simp add: clock_next_def)
  then have "clock_search n (clock_next c) = None"
    using Suc.prems abits_clock_next(3,4) [OF Suc.prems(1)] by (intro Suc.IH) simp_all
  then show ?case using Suc.prems by (simp add: clock_search_step evictable_def)
qed simp

text \<open>
  C32. Termination of clock eviction. Let the clock hand be inside the table. If some chunk is empty
  or has no reference, the search of \<^verbatim>\<open>allocate_chunk\<close> ends within two turns of the clock. If every
  chunk is in use, it never ends; the caller holds the cache lock, without which no reference can be
  dropped.
\<close>

theorem allocate_chunk_terminates:
  assumes "rc_clock c < size_in_chunks c"
  shows "if \<exists>i < size_in_chunks c. e_status (rc_state c ! i) = EMPTY \<or> e_refcount (rc_state c ! i) = 0
    then allocate_chunk (2 * size_in_chunks c) c \<noteq> None
    else \<forall>fuel. allocate_chunk fuel c = None"
proof (cases "\<exists>i < size_in_chunks c. e_status (rc_state c ! i) = EMPTY \<or> e_refcount (rc_state c ! i) = 0")
  case True
  then obtain i where i: "i < size_in_chunks c" "e_status (rc_state c ! i) = EMPTY \<or> e_refcount (rc_state c ! i) = 0" by blast
  obtain d where d: "d < size_in_chunks c" "(rc_clock c + d) mod size_in_chunks c = i" by (rule clock_distance [OF assms i(1)])
  have "clock_search (2 * size_in_chunks c) c \<noteq> None"
    using i(2)
  proof
    assume "e_status (rc_state c ! i) = EMPTY"
    then show ?thesis using d by (intro search_finds_evictable [OF assms _ d(2)]) (simp_all add: evictable_def)
  next
    assume "e_refcount (rc_state c ! i) = 0"
    then show ?thesis using d by (intro search_clears_then_finds [OF assms _ d(2)]) simp_all
  qed
  then show ?thesis using True by (auto simp: allocate_chunk_def)
next
  case False
  then show ?thesis using search_stuck [OF assms] by (auto simp: allocate_chunk_def)
qed

definition demo_busy :: rcache where
  "demo_busy = (new_cache 2)\<lparr>rc_state := replicate 2 (new_entry\<lparr>e_status := VALID, e_refcount := 1\<rparr>)\<rparr>"

theorem allocate_chunk_terminates_witness:
  "allocate_chunk 4 (new_cache 2) \<noteq> None \<and> allocate_chunk 1000 demo_busy = None"
proof
  have sz: "size_in_chunks (new_cache 2) = 2" "size_in_chunks demo_busy = 2" by (simp_all add: size_in_chunks_def new_cache_def demo_busy_def)
  have "0 < size_in_chunks (new_cache 2) \<and> e_status (rc_state (new_cache 2) ! 0) = EMPTY"
    by (simp add: sz) (simp add: new_cache_def new_entry_def)
  then have ex: "\<exists>i < size_in_chunks (new_cache 2). e_status (rc_state (new_cache 2) ! i) = EMPTY \<or> e_refcount (rc_state (new_cache 2) ! i) = 0"
    by blast
  have "rc_clock (new_cache 2) < size_in_chunks (new_cache 2)" unfolding sz by (simp add: new_cache_def)
  from allocate_chunk_terminates [OF this] ex show "allocate_chunk 4 (new_cache 2) \<noteq> None" by (simp add: sz)
  have "rc_clock demo_busy < size_in_chunks demo_busy" unfolding sz by (simp add: new_cache_def demo_busy_def)
  from allocate_chunk_terminates [OF this] show "allocate_chunk 1000 demo_busy = None"
    unfolding sz by (auto simp: demo_busy_def split: if_splits)
qed

end
