(* ===== verification/Read_Cache_Inv.thy ===== *)
theory Read_Cache_Inv
  imports Read_Cache_Alloc
begin

text \<open>
  The invariant of the read cache: how the status, the reference count and the data of every chunk
  follow from the requests in flight. Every step of the cache keeps it.
\<close>

section \<open>Correct data\<close>

text \<open>
  \<open>objs pf n\<close> is the content of object \<open>n\<close> of the image \<open>pf\<close>. A chunk's bytes are correct where they
  lie inside the object; behind its end they are arbitrary.
\<close>

type_synonym objects = "string \<Rightarrow> int \<Rightarrow> byte list"

definition good :: "objects \<Rightarrow> chunk_key \<Rightarrow> byte list \<Rightarrow> bool" where
  "good objs k bs \<longleftrightarrow> (case k of (pf, n, off) \<Rightarrow>
     length bs = nat CACHE_CHUNK_SIZE
     \<and> (\<forall>i<length bs. off + int i < int (length (objs pf n)) \<longrightarrow> bs ! i = objs pf n ! nat (off + int i)))"

definition delivered :: "objects \<Rightarrow> memory \<Rightarrow> pending_read \<Rightarrow> bool" where
  "delivered objs mem r \<longleftrightarrow> (case r of ((pf, n, off), a, d) \<Rightarrow>
     \<forall>i<length (addrs d). off + a + int i < int (length (objs pf n)) \<longrightarrow>
       mem (addrs d ! i) = objs pf n ! nat (off + a + int i))"

definition rd_fits :: "chunk_key \<Rightarrow> int \<Rightarrow> smartiov \<Rightarrow> bool" where
  "rd_fits k a d \<longleftrightarrow> rd_ok k a d \<and> a + bytes d \<le> CACHE_CHUNK_SIZE"

lemma store_bytes_at: "i < length bs \<Longrightarrow> store_bytes mem p bs (p + int i) = bs ! i"
  by (simp add: store_bytes_def)

lemma store_bytes_other: "a < p \<or> p + int (length bs) \<le> a \<Longrightarrow> store_bytes mem p bs a = mem a"
  by (auto simp: store_bytes_def)

lemma copy_buf_spec:
  assumes "list_all (\<lambda>v. 0 \<le> iov_len v) s" "distinct (addrs s)" "length (addrs s) \<le> length bs"
  shows "(\<forall>i<length (addrs s). copy_buf mem s bs (addrs s ! i) = bs ! i)
    \<and> (\<forall>a. a \<notin> set (addrs s) \<longrightarrow> copy_buf mem s bs a = mem a)"
  using assms
proof (induction s arbitrary: mem bs)
  case (Cons v s)
  let ?n = "nat (iov_len v)"
  let ?m = "store_bytes mem (iov_base v) (take ?n bs)"
  have n: "0 \<le> iov_len v" "?n \<le> length bs" "length (addrs s) \<le> length (drop ?n bs)" using Cons.prems by auto
  note IH = Cons.IH [of "drop ?n bs" ?m] 
  have first: "[iov_base v..iov_base v + iov_len v - 1] ! i = iov_base v + int i" if "i < ?n" for i using that by (rule upto_nth)
  have out: "a \<notin> set (addrs s) \<longrightarrow> copy_buf ?m s (drop ?n bs) a = ?m a" for a using IH Cons.prems n by simp
  have "copy_buf mem (v # s) bs (addrs (v # s) ! i) = bs ! i" if i: "i < length (addrs (v # s))" for i
  proof (cases "i < ?n")
    case True
    then have a: "addrs (v # s) ! i = iov_base v + int i" using first by (simp add: nth_append)
    have "iov_base v + int i \<in> {iov_base v..iov_base v + iov_len v - 1}" using True n by simp
    then have "iov_base v + int i \<notin> set (addrs s)"
      using Cons.prems(2) unfolding addrs_simps distinct_append set_upto by blast
    then show ?thesis using out True n(2) a store_bytes_at [of i "take ?n bs"] by simp
  next
    case False
    then have "addrs (v # s) ! i = addrs s ! (i - ?n)" by (simp add: nth_append)
    moreover have "i - ?n < length (addrs s)" using i False by auto
    ultimately show ?thesis using IH Cons.prems n False by simp
  qed
  moreover have "copy_buf mem (v # s) bs a = mem a" if "a \<notin> set (addrs (v # s))" for a
  proof -
    have "a < iov_base v \<or> iov_base v + int (length (take ?n bs)) \<le> a" "a \<notin> set (addrs s)" using that n by auto
    then show ?thesis using out [of a] store_bytes_other [of a "iov_base v" "take ?n bs" mem] by simp
  qed
  ultimately show ?case by blast
qed simp

lemma copy_buf_take:
  "list_all (\<lambda>v. 0 \<le> iov_len v) s \<Longrightarrow> length (addrs s) \<le> n \<Longrightarrow> copy_buf mem s (take n bs) = copy_buf mem s bs"
proof (induction s arbitrary: mem bs n)
  case (Cons v s)
  have n: "nat (iov_len v) \<le> n" "length (addrs s) \<le> n - nat (iov_len v)" using Cons.prems by auto
  then have "copy_buf m s (take (n - nat (iov_len v)) (drop (nat (iov_len v)) bs)) = copy_buf m s (drop (nat (iov_len v)) bs)" for m
    using Cons.IH Cons.prems(1) by simp
  then show ?case using n(1) by (simp add: drop_take min_absorb1)
qed simp

lemma copy_buf_delivers:
  assumes "rd_fits k a d" "good objs k bs"
  shows "delivered objs (copy_buf mem d (drop (nat a) bs)) (k, a, d)"
proof -
  obtain pf n off where k: "k = (pf, n, off)" by (metis surj_pair)
  have r: "0 \<le> off" "0 \<le> a" "list_all (\<lambda>v. 0 \<le> iov_len v) d" "distinct (addrs d)" "a + int (length (addrs d)) \<le> CACHE_CHUNK_SIZE"
    using assms(1) bytes_addrs [of d] by (simp_all add: rd_fits_def rd_ok_def k iov_ok_def)
  have l: "length bs = nat CACHE_CHUNK_SIZE" using assms(2) by (simp add: good_def k)
  then have "length (addrs d) \<le> length (drop (nat a) bs)" using r by simp
  note c = copy_buf_spec [OF r(3,4) this, of mem]
  have "copy_buf mem d (drop (nat a) bs) (addrs d ! i) = objs pf n ! nat (off + a + int i)"
    if i: "i < length (addrs d)" "off + a + int i < int (length (objs pf n))" for i
  proof -
    have "nat a + i < length bs" using i r l by simp
    moreover have "off + int (nat a + i) = off + a + int i" using r by simp
    ultimately have "bs ! (nat a + i) = objs pf n ! nat (off + a + int i)" using assms(2) i(2) by (simp add: good_def k add.assoc)
    then show ?thesis using c i(1) l r by simp
  qed
  then show ?thesis by (simp add: delivered_def k)
qed

section \<open>The invariant\<close>

definition reqs_at :: "nat \<Rightarrow> rreq multiset \<Rightarrow> rreq multiset" where
  "reqs_at i R = filter_mset (\<lambda>r. req_chunk r = i) R"

lemma reqs_at_simps [simp]:
  "reqs_at i {#} = {#}" "reqs_at i (R + S) = reqs_at i R + reqs_at i S" "reqs_at i (R - S) = reqs_at i R - reqs_at i S"
  "reqs_at i {#r#} = (if req_chunk r = i then {#r#} else {#})"
  "reqs_at i (add_mset r R) = (if req_chunk r = i then add_mset r (reqs_at i R) else reqs_at i R)"
  by (simp_all add: reqs_at_def)

lemma reqs_at_mem: "r \<in># R \<Longrightarrow> r \<in># reqs_at (req_chunk r) R"
  by (simp add: reqs_at_def)

definition chunk_bytes :: "memory \<Rightarrow> nat \<Rightarrow> byte list" where
  "chunk_bytes file i = load_bytes file (get_store_offset_for_chunk i) CACHE_CHUNK_SIZE"

definition pend_ok :: "chunk_key \<Rightarrow> pending_read list \<Rightarrow> bool" where
  "pend_ok key q \<longleftrightarrow> list_all (\<lambda>(k, a, d). k = key \<and> rd_fits k a d) q"

definition filler_ok :: "nat \<Rightarrow> chunk_key \<Rightarrow> byte list \<Rightarrow> int \<Rightarrow> rreq \<Rightarrow> bool" where
  "filler_ok i key bs refs r \<longleftrightarrow>
     (\<exists>a d q. r = Miss i key a d (Deliver bs q) \<and> rd_fits key a d \<and> pend_ok key q \<and> refs = 1 + int (length q))
     \<or> (\<exists>a d. r = Miss i key a d (Store bs) \<and> refs = 1)
     \<or> (r = Insert i key bs \<and> refs = 1)"

definition chunk_ok :: "objects \<Rightarrow> byte list \<Rightarrow> nat \<Rightarrow> entry_state \<Rightarrow> rreq multiset \<Rightarrow> bool" where
  "chunk_ok objs stored i e R \<longleftrightarrow>
     (case e_status e of
        EMPTY \<Rightarrow> R = {#} \<and> e_refcount e = 0 \<and> e_fill e = None \<and> e_pending e = []
      | FETCHING \<Rightarrow> (\<exists>a d p. R = {#Miss i (e_key e) a d p#} \<and> p \<in> {Created, Fetch} \<and> rd_fits (e_key e) a d)
          \<and> e_refcount e = 1 + int (length (e_pending e)) \<and> pend_ok (e_key e) (e_pending e)
      | FILLING \<Rightarrow> (\<exists>bs r. e_fill e = Some bs \<and> good objs (e_key e) bs \<and> R = {#r#} \<and> filler_ok i (e_key e) bs (e_refcount e) r)
          \<and> e_pending e = []
      | VALID \<Rightarrow> e_fill e = None \<and> e_pending e = [] \<and> good objs (e_key e) stored
          \<and> (\<forall>r\<in>#R. \<exists>a d. r = Hit i (e_key e) a d \<and> rd_fits (e_key e) a d) \<and> e_refcount e = int (size R))"

definition cache_inv :: "objects \<Rightarrow> rsys \<Rightarrow> bool" where
  "cache_inv objs s \<longleftrightarrow>
     rc_clock (s_cache s) < size_in_chunks (s_cache s)
     \<and> (\<forall>k i. rc_map (s_cache s) k = Some i \<longrightarrow>
          i < size_in_chunks (s_cache s) \<and> e_key (rc_state (s_cache s) ! i) = k \<and> e_status (rc_state (s_cache s) ! i) \<noteq> EMPTY)
     \<and> (\<forall>i < size_in_chunks (s_cache s).
          chunk_ok objs (chunk_bytes (s_file s) i) i (rc_state (s_cache s) ! i) (reqs_at i (s_reqs s)))
     \<and> (\<forall>r\<in>#s_reqs s. req_chunk r < size_in_chunks (s_cache s))"

lemma cache_inv_start: "0 < n \<Longrightarrow> cache_inv objs (start_sys n file mem)"
  by (simp add: cache_inv_def start_sys_def new_cache_def size_in_chunks_def chunk_ok_def new_entry_def)

lemma chunk_ok_abit [simp]: "chunk_ok objs bs i (e\<lparr>e_accessed := b\<rparr>) R = chunk_ok objs bs i e R"
  by (cases "e_status e") (simp_all add: chunk_ok_def)

lemma chunk_bytes_store:
  assumes "length bs = nat CACHE_CHUNK_SIZE"
  shows "chunk_bytes (store_bytes file (get_store_offset_for_chunk i) bs) j = (if j = i then bs else chunk_bytes file j)"
proof -
  have c: "0 \<le> CACHE_CHUNK_SIZE" "int (length bs) = CACHE_CHUNK_SIZE" using assms by (simp_all add: CACHE_CHUNK_SIZE_def)
  show ?thesis
  proof (cases "j = i")
    case True
    have "chunk_bytes (store_bytes file (get_store_offset_for_chunk i) bs) i = bs"
      unfolding chunk_bytes_def load_bytes_def
      by (rule nth_equalityI) (use assms c in \<open>simp_all add: upto_nth store_bytes_at\<close>)
    then show ?thesis using True by simp
  next
    case False
    have "store_bytes file (get_store_offset_for_chunk i) bs a = file a"
      if "a \<in> set [get_store_offset_for_chunk j..get_store_offset_for_chunk j + CACHE_CHUNK_SIZE - 1]" for a
    proof (rule store_bytes_other)
      have "int j + 1 \<le> int i \<or> int i + 1 \<le> int j" using False by linarith
      then have "int j * CACHE_CHUNK_SIZE + CACHE_CHUNK_SIZE \<le> int i * CACHE_CHUNK_SIZE
          \<or> int i * CACHE_CHUNK_SIZE + CACHE_CHUNK_SIZE \<le> int j * CACHE_CHUNK_SIZE"
        by (auto simp: CACHE_CHUNK_SIZE_def)
      then show "a < get_store_offset_for_chunk i \<or> get_store_offset_for_chunk i + int (length bs) \<le> a"
        using that c(2) by (auto simp: get_store_offset_for_chunk_def)
    qed
    then show ?thesis using False by (simp add: chunk_bytes_def load_bytes_def)
  qed
qed

lemma cache_invD:
  assumes "cache_inv objs s"
  shows "rc_clock (s_cache s) < size_in_chunks (s_cache s)"
    "rc_map (s_cache s) k = Some i \<Longrightarrow>
       i < size_in_chunks (s_cache s) \<and> e_key (rc_state (s_cache s) ! i) = k \<and> e_status (rc_state (s_cache s) ! i) \<noteq> EMPTY"
    "i < size_in_chunks (s_cache s) \<Longrightarrow>
       chunk_ok objs (chunk_bytes (s_file s) i) i (rc_state (s_cache s) ! i) (reqs_at i (s_reqs s))"
    "r \<in># s_reqs s \<Longrightarrow> req_chunk r < size_in_chunks (s_cache s)"
  using assms unfolding cache_inv_def by blast+

text \<open>A step that touches one chunk only.\<close>

lemma cache_inv_change:
  assumes inv: "cache_inv objs s" and i: "i < size_in_chunks (s_cache s)"
    and c: "size_in_chunks c = size_in_chunks (s_cache s)" "rc_clock c < size_in_chunks c"
    and oth: "\<And>j. j < size_in_chunks c \<Longrightarrow> j \<noteq> i \<Longrightarrow> \<exists>b. rc_state c ! j = (rc_state (s_cache s) ! j)\<lparr>e_accessed := b\<rparr>"
    and map: "\<And>k j. rc_map c k = Some j \<Longrightarrow>
      (j \<noteq> i \<and> rc_map (s_cache s) k = Some j) \<or> (j = i \<and> e_key (rc_state c ! i) = k \<and> e_status (rc_state c ! i) \<noteq> EMPTY)"
    and fl: "\<And>j. j \<noteq> i \<Longrightarrow> chunk_bytes f j = chunk_bytes (s_file s) j"
    and reqs: "\<And>j. j \<noteq> i \<Longrightarrow> reqs_at j R = reqs_at j (s_reqs s)"
    and here: "chunk_ok objs (chunk_bytes f i) i (rc_state c ! i) (reqs_at i R)"
  shows "cache_inv objs (s\<lparr>s_cache := c, s_file := f, s_mem := m, s_reqs := R\<rparr>)"
proof -
  note I = cache_invD [OF inv]
  have "chunk_ok objs (chunk_bytes f j) j (rc_state c ! j) (reqs_at j R)" if j: "j < size_in_chunks c" for j
  proof (cases "j = i")
    case False
    then obtain b where "rc_state c ! j = (rc_state (s_cache s) ! j)\<lparr>e_accessed := b\<rparr>" using oth j by blast
    then show ?thesis using I(3) [of j] j False c(1) fl reqs by simp
  qed (use here in simp)
  moreover have "j < size_in_chunks c \<and> e_key (rc_state c ! j) = k \<and> e_status (rc_state c ! j) \<noteq> EMPTY" if "rc_map c k = Some j" for k j
  proof (cases "j = i")
    case True
    then show ?thesis using map [OF that] i c by auto
  next
    case False
    then have "rc_map (s_cache s) k = Some j" using map [OF that] by blast
    then have "j < size_in_chunks c \<and> e_key (rc_state (s_cache s) ! j) = k \<and> e_status (rc_state (s_cache s) ! j) \<noteq> EMPTY"
      using I(2) [of k j] c(1) by simp
    then show ?thesis using oth [of j] False by auto
  qed
  moreover have "req_chunk r < size_in_chunks c" if "r \<in># R" for r
  proof (cases "req_chunk r = i")
    case False
    then have "r \<in># reqs_at (req_chunk r) (s_reqs s)" using reqs_at_mem [OF that] reqs by simp
    then show ?thesis using I(4) c(1) by (simp add: reqs_at_def)
  qed (use i c in simp)
  ultimately show ?thesis using c(2) unfolding cache_inv_def by simp
qed

end
