(* ===== verification/Read_Cache_Steps.thy ===== *)
theory Read_Cache_Steps
  imports Read_Cache_Inv
begin

text \<open>
  Every step of the cache keeps the invariant, no assertion fails, and every read it completes has
  the bytes of its object.
\<close>

section \<open>What a request knows about its chunk\<close>

lemma chunk_ok_early:
  assumes "chunk_ok objs st i e R" "Miss i k a d p \<in># R" "p \<in> {Created, Fetch}"
  shows "e_status e = FETCHING \<and> R = {#Miss i k a d p#} \<and> e_key e = k \<and> rd_fits k a d
    \<and> e_refcount e = 1 + int (length (e_pending e)) \<and> pend_ok k (e_pending e)"
  using assms by (cases "e_status e") (auto simp: chunk_ok_def filler_ok_def)

lemma chunk_ok_deliver:
  assumes "chunk_ok objs st i e R" "Miss i k a d (Deliver bs q) \<in># R"
  shows "e_status e = FILLING \<and> R = {#Miss i k a d (Deliver bs q)#} \<and> e_key e = k \<and> e_fill e = Some bs \<and> good objs k bs
    \<and> rd_fits k a d \<and> pend_ok k q \<and> e_refcount e = 1 + int (length q) \<and> e_pending e = []"
  using assms by (cases "e_status e") (auto simp: chunk_ok_def filler_ok_def)

lemma chunk_ok_store:
  assumes "chunk_ok objs st i e R" "r \<in># R" "(\<exists>a d. r = Miss i k a d (Store bs)) \<or> r = Insert i k bs"
  shows "e_status e = FILLING \<and> R = {#r#} \<and> e_key e = k \<and> good objs k bs \<and> e_refcount e = 1 \<and> e_pending e = []"
  using assms by (cases "e_status e") (auto simp: chunk_ok_def filler_ok_def)

lemma chunk_ok_hit:
  assumes "chunk_ok objs st i e R" "Hit i k a d \<in># R"
  shows "e_status e = VALID \<and> e_key e = k \<and> rd_fits k a d \<and> good objs k st \<and> e_fill e = None \<and> e_pending e = []
    \<and> e_refcount e = int (size R) \<and> (\<forall>r\<in>#R. \<exists>a d. r = Hit i k a d \<and> rd_fits k a d)"
proof -
  have v: "e_status e = VALID" using assms by (cases "e_status e") (auto simp: chunk_ok_def filler_ok_def)
  moreover from this have "e_key e = k" "rd_fits k a d" using assms by (auto simp: chunk_ok_def)
  ultimately show ?thesis using assms(1) by (simp add: chunk_ok_def)
qed

lemma chunk_ok_free:
  assumes "chunk_ok objs st i e R" "e_status e = EMPTY \<or> e_refcount e = 0"
  shows "R = {#} \<and> e_refcount e = 0 \<and> e_fill e = None \<and> e_pending e = []"
  using assms by (cases "e_status e") (auto simp: chunk_ok_def filler_ok_def)

lemma req_at:
  assumes "cache_inv objs s" "r \<in># s_reqs s" "req_chunk r = i"
  shows "i < size_in_chunks (s_cache s)" "r \<in># reqs_at i (s_reqs s)"
    "chunk_ok objs (chunk_bytes (s_file s) i) i (rc_state (s_cache s) ! i) (reqs_at i (s_reqs s))"
proof -
  show i: "i < size_in_chunks (s_cache s)" using cache_invD(4) [OF assms(1,2)] assms(3) by simp
  show "r \<in># reqs_at i (s_reqs s)" using reqs_at_mem [OF assms(2)] assms(3) by simp
  show "chunk_ok objs (chunk_bytes (s_file s) i) i (rc_state (s_cache s) ! i) (reqs_at i (s_reqs s))"
    by (rule cache_invD(3) [OF assms(1) i])
qed

text \<open>An update of one entry that keeps its key and does not empty it.\<close>

lemma inv_upd_entry:
  assumes inv: "cache_inv objs s" and i: "i < size_in_chunks (s_cache s)"
    and e: "e_key e = e_key (rc_state (s_cache s) ! i)" "e_status e \<noteq> EMPTY"
    and fl: "\<And>j. j \<noteq> i \<Longrightarrow> chunk_bytes f j = chunk_bytes (s_file s) j"
    and reqs: "\<And>j. j \<noteq> i \<Longrightarrow> reqs_at j R = reqs_at j (s_reqs s)"
    and here: "chunk_ok objs (chunk_bytes f i) i e (reqs_at i R)"
  shows "cache_inv objs (s\<lparr>s_cache := upd_entry i e (s_cache s), s_file := f, s_mem := m, s_reqs := R\<rparr>)"
proof (rule cache_inv_change [OF inv i])
  show "\<exists>b. rc_state (upd_entry i e (s_cache s)) ! j = (rc_state (s_cache s) ! j)\<lparr>e_accessed := b\<rparr>" if "j \<noteq> i" for j
    using that by (intro exI [of _ "e_accessed (rc_state (s_cache s) ! j)"]) simp
  show "(j \<noteq> i \<and> rc_map (s_cache s) k = Some j) \<or>
      (j = i \<and> e_key (rc_state (upd_entry i e (s_cache s)) ! i) = k \<and> e_status (rc_state (upd_entry i e (s_cache s)) ! i) \<noteq> EMPTY)"
    if "rc_map (upd_entry i e (s_cache s)) k = Some j" for k j
    using that cache_invD(2) [OF inv, of k j] e i by auto
qed (use cache_invD(1) [OF inv] i fl reqs here in simp_all)

section \<open>The requests\<close>

lemma step_run_miss:
  assumes inv: "cache_inv objs s" and r: "Miss i k a d Created \<in># s_reqs s"
  shows "cache_inv objs (s\<lparr>s_cache := set_chunk_status i FETCHING (s_cache s),
    s_reqs := s_reqs s - {#Miss i k a d Created#} + {#Miss i k a d Fetch#}\<rparr>)"
proof -
  note q = req_at [OF inv r, of i, simplified]
  note c = chunk_ok_early [OF q(3,2), simplified]
  have "cache_inv objs (s\<lparr>s_cache := set_chunk_status i FETCHING (s_cache s), s_file := s_file s, s_mem := s_mem s,
      s_reqs := s_reqs s - {#Miss i k a d Created#} + {#Miss i k a d Fetch#}\<rparr>)"
    unfolding set_chunk_status_def
    by (rule inv_upd_entry [OF inv q(1)]) (use c q(3) in \<open>auto simp: chunk_ok_def\<close>)
  then show ?thesis by simp
qed

lemma step_backend_done:
  assumes inv: "cache_inv objs s" and r: "Miss i k a d Fetch \<in># s_reqs s" and bs: "good objs k bs"
    and b: "on_backend_done i bs (s_cache s) = (q, c)"
  shows "cache_inv objs (s\<lparr>s_cache := c, s_reqs := s_reqs s - {#Miss i k a d Fetch#} + {#Miss i k a d (Deliver bs q)#}\<rparr>)"
proof -
  note Q = req_at [OF inv r, of i, simplified]
  note C = chunk_ok_early [OF Q(3,2), simplified]
  let ?e = "rc_state (s_cache s) ! i"
  have b': "q = e_pending ?e" "c = upd_entry i (?e\<lparr>e_status := FILLING, e_fill := Some bs, e_pending := []\<rparr>) (s_cache s)"
    using b by (simp_all add: on_backend_done_def Let_def)
  have "cache_inv objs (s\<lparr>s_cache := c, s_file := s_file s, s_mem := s_mem s,
      s_reqs := s_reqs s - {#Miss i k a d Fetch#} + {#Miss i k a d (Deliver bs q)#}\<rparr>)"
    unfolding b'(2)
    by (rule inv_upd_entry [OF inv Q(1)]) (use C bs b' in \<open>auto simp: chunk_ok_def filler_ok_def\<close>)
  then show ?thesis by simp
qed

lemma step_deliver_pending:
  assumes inv: "cache_inv objs s" and r: "Miss i k a d (Deliver bs ((k', a', d') # q)) \<in># s_reqs s"
  shows "\<exists>c. dec_chunk_refcount i (s_cache s) = Done c \<and>
    cache_inv objs (s\<lparr>s_cache := c, s_mem := m,
      s_reqs := s_reqs s - {#Miss i k a d (Deliver bs ((k', a', d') # q))#} + {#Miss i k a d (Deliver bs q)#}\<rparr>)"
    "delivered objs (copy_buf mem d' (drop (nat a') bs)) (k', a', d')"
proof -
  note Q = req_at [OF inv r, of i, simplified]
  note C = chunk_ok_deliver [OF Q(3,2)]
  let ?e = "rc_state (s_cache s) ! i"
  have d: "dec_chunk_refcount i (s_cache s) = Done (upd_entry i (?e\<lparr>e_refcount := e_refcount ?e - 1\<rparr>) (s_cache s))"
    using C by (simp add: dec_chunk_refcount_def Let_def)
  have "cache_inv objs (s\<lparr>s_cache := upd_entry i (?e\<lparr>e_refcount := e_refcount ?e - 1\<rparr>) (s_cache s), s_file := s_file s, s_mem := m,
      s_reqs := s_reqs s - {#Miss i k a d (Deliver bs ((k', a', d') # q))#} + {#Miss i k a d (Deliver bs q)#}\<rparr>)"
    by (rule inv_upd_entry [OF inv Q(1)]) (use C in \<open>auto simp: chunk_ok_def filler_ok_def pend_ok_def\<close>)
  then show "\<exists>c. dec_chunk_refcount i (s_cache s) = Done c \<and>
    cache_inv objs (s\<lparr>s_cache := c, s_mem := m,
      s_reqs := s_reqs s - {#Miss i k a d (Deliver bs ((k', a', d') # q))#} + {#Miss i k a d (Deliver bs q)#}\<rparr>)"
    using d by simp
  show "delivered objs (copy_buf mem d' (drop (nat a') bs)) (k', a', d')"
    by (rule copy_buf_delivers) (use C in \<open>auto simp: pend_ok_def\<close>)
qed

lemma step_deliver_self:
  assumes inv: "cache_inv objs s" and r: "Miss i k a d (Deliver bs []) \<in># s_reqs s"
  shows "cache_inv objs (s\<lparr>s_mem := m, s_reqs := s_reqs s - {#Miss i k a d (Deliver bs [])#} + {#Miss i k a d (Store bs)#}\<rparr>)"
    "delivered objs (copy_buf mem d (drop (nat a) bs)) (k, a, d)"
proof -
  note Q = req_at [OF inv r, of i, simplified]
  note C = chunk_ok_deliver [OF Q(3,2)]
  let ?e = "rc_state (s_cache s) ! i"
  have u: "upd_entry i ?e (s_cache s) = s_cache s" by (simp add: upd_entry_def)
  have "cache_inv objs (s\<lparr>s_cache := upd_entry i ?e (s_cache s), s_file := s_file s, s_mem := m,
      s_reqs := s_reqs s - {#Miss i k a d (Deliver bs [])#} + {#Miss i k a d (Store bs)#}\<rparr>)"
    by (rule inv_upd_entry [OF inv Q(1)]) (use C in \<open>auto simp: chunk_ok_def filler_ok_def\<close>)
  then show "cache_inv objs (s\<lparr>s_mem := m, s_reqs := s_reqs s - {#Miss i k a d (Deliver bs [])#} + {#Miss i k a d (Store bs)#}\<rparr>)"
    unfolding u by simp
  show "delivered objs (copy_buf mem d (drop (nat a) bs)) (k, a, d)"
    by (rule copy_buf_delivers) (use C in auto)
qed

lemma step_store:
  assumes inv: "cache_inv objs s" and r: "r \<in># s_reqs s" "(\<exists>a d. r = Miss i k a d (Store bs)) \<or> r = Insert i k bs"
  shows "cache_inv objs (s\<lparr>s_cache := on_store_done i (s_cache s),
    s_file := store_bytes (s_file s) (get_store_offset_for_chunk i) bs, s_reqs := s_reqs s - {#r#}\<rparr>)"
proof -
  have ri: "req_chunk r = i" using r(2) by auto
  note Q = req_at [OF inv r(1) ri]
  note C = chunk_ok_store [OF Q(3,2) r(2)]
  have "length bs = nat CACHE_CHUNK_SIZE" using C by (auto simp: good_def split: prod.splits)
  note f = chunk_bytes_store [OF this]
  have "cache_inv objs (s\<lparr>s_cache := on_store_done i (s_cache s), s_file := store_bytes (s_file s) (get_store_offset_for_chunk i) bs,
      s_mem := s_mem s, s_reqs := s_reqs s - {#r#}\<rparr>)"
    unfolding on_store_done_def Let_def
    by (rule inv_upd_entry [OF inv Q(1)]) (use C f ri in \<open>auto simp: chunk_ok_def\<close>)
  then show ?thesis by simp
qed

lemma load_bytes_slice:
  assumes "0 \<le> a" "0 \<le> n" "a + n \<le> m"
  shows "load_bytes f (p + a) n = take (nat n) (drop (nat a) (load_bytes f p m))"
proof (rule nth_equalityI)
  fix i assume "i < length (load_bytes f (p + a) n)"
  then have i: "i < nat n" by (simp add: load_bytes_def)
  have "load_bytes f (p + a) n ! i = f (p + a + int i)" using i upto_nth [OF i, of "p + a"] by (simp add: load_bytes_def)
  moreover have "nat a + i < nat m" using i assms by linarith
  then have "load_bytes f p m ! (nat a + i) = f (p + int (nat a + i))"
    using upto_nth [of "nat a + i" m p] by (simp add: load_bytes_def)
  ultimately show "load_bytes f (p + a) n ! i = take (nat n) (drop (nat a) (load_bytes f p m)) ! i"
    using i assms \<open>nat a + i < nat m\<close> by (simp add: load_bytes_def add.assoc)
qed (use assms in \<open>simp add: load_bytes_def\<close>)

lemma step_hit_done:
  assumes inv: "cache_inv objs s" and r: "Hit i k a d \<in># s_reqs s"
  shows "\<exists>c. dec_chunk_refcount i (s_cache s) = Done c \<and> cache_inv objs (s\<lparr>s_cache := c, s_mem := m, s_reqs := s_reqs s - {#Hit i k a d#}\<rparr>)"
    "delivered objs (copy_buf mem d (load_bytes (s_file s) (get_store_offset_for_chunk i + a) (bytes d))) (k, a, d)"
proof -
  note Q = req_at [OF inv r, of i, simplified]
  note C = chunk_ok_hit [OF Q(3,2)]
  let ?e = "rc_state (s_cache s) ! i"
  have pos: "0 < size (reqs_at i (s_reqs s))" using Q(2) by (metis empty_iff set_mset_empty size_eq_0_iff_empty gr0I)
  then have d: "dec_chunk_refcount i (s_cache s) = Done (upd_entry i (?e\<lparr>e_refcount := e_refcount ?e - 1\<rparr>) (s_cache s))"
    using C by (simp add: dec_chunk_refcount_def Let_def)
  have "cache_inv objs (s\<lparr>s_cache := upd_entry i (?e\<lparr>e_refcount := e_refcount ?e - 1\<rparr>) (s_cache s), s_file := s_file s, s_mem := m,
      s_reqs := s_reqs s - {#Hit i k a d#}\<rparr>)"
    by (rule inv_upd_entry [OF inv Q(1)])
      (use C Q(2) pos in \<open>auto simp: chunk_ok_def size_Diff_singleton of_nat_diff dest: in_diffD\<close>)
  then show "\<exists>c. dec_chunk_refcount i (s_cache s) = Done c \<and> cache_inv objs (s\<lparr>s_cache := c, s_mem := m, s_reqs := s_reqs s - {#Hit i k a d#}\<rparr>)"
    using d by simp
  have fits: "0 \<le> a" "iov_ok d" "a + bytes d \<le> CACHE_CHUNK_SIZE" "list_all (\<lambda>v. 0 \<le> iov_len v) d" "distinct (addrs d)"
    using C by (simp_all add: rd_fits_def rd_ok_def iov_ok_def)
  have b: "bytes d = int (length (addrs d))" by (rule bytes_addrs [OF fits(2)])
  have sl: "load_bytes (s_file s) (get_store_offset_for_chunk i + a) (bytes d)
      = take (length (addrs d)) (drop (nat a) (chunk_bytes (s_file s) i))"
    unfolding chunk_bytes_def using load_bytes_slice [OF fits(1) _ fits(3), of "s_file s"] b by simp
  have "copy_buf mem d (take (length (addrs d)) (drop (nat a) (chunk_bytes (s_file s) i)))
      = copy_buf mem d (drop (nat a) (chunk_bytes (s_file s) i))" by (rule copy_buf_take [OF fits(4) order_refl])
  moreover have "delivered objs (copy_buf mem d (drop (nat a) (chunk_bytes (s_file s) i))) (k, a, d)"
    by (rule copy_buf_delivers) (use C in auto)
  ultimately show "delivered objs (copy_buf mem d (load_bytes (s_file s) (get_store_offset_for_chunk i + a) (bytes d))) (k, a, d)"
    unfolding sl by simp
qed

section \<open>Allocation\<close>

lemma count_request_sel [simp]:
  "rc_state (count_request u b h c) = rc_state c" "rc_map (count_request u b h c) = rc_map c"
  "rc_clock (count_request u b h c) = rc_clock c" "size_in_chunks (count_request u b h c) = size_in_chunks c"
  by (simp_all add: count_request_def size_in_chunks_def)

text \<open>Chunk \<open>i\<close> has been freed for a new key.\<close>

definition taken :: "rsys \<Rightarrow> nat \<Rightarrow> rcache \<Rightarrow> bool" where
  "taken s i c \<longleftrightarrow> i < size_in_chunks (s_cache s) \<and> size_in_chunks c = size_in_chunks (s_cache s)
     \<and> rc_clock c < size_in_chunks c \<and> reqs_at i (s_reqs s) = {#}
     \<and> e_refcount (rc_state c ! i) = 0 \<and> e_fill (rc_state c ! i) = None \<and> e_pending (rc_state c ! i) = []
     \<and> (\<forall>j < size_in_chunks c. j \<noteq> i \<longrightarrow> (\<exists>b. rc_state c ! j = (rc_state (s_cache s) ! j)\<lparr>e_accessed := b\<rparr>))
     \<and> (\<forall>k j. rc_map c k = Some j \<longrightarrow> j \<noteq> i \<and> rc_map (s_cache s) k = Some j)"

lemma takenD:
  assumes "taken s i c"
  shows "i < size_in_chunks (s_cache s)" "size_in_chunks c = size_in_chunks (s_cache s)" "rc_clock c < size_in_chunks c"
    "reqs_at i (s_reqs s) = {#}" "e_refcount (rc_state c ! i) = 0" "e_fill (rc_state c ! i) = None" "e_pending (rc_state c ! i) = []"
    "j < size_in_chunks c \<Longrightarrow> j \<noteq> i \<Longrightarrow> \<exists>b. rc_state c ! j = (rc_state (s_cache s) ! j)\<lparr>e_accessed := b\<rparr>"
    "rc_map c k = Some j \<Longrightarrow> j \<noteq> i \<and> rc_map (s_cache s) k = Some j"
  using assms unfolding taken_def by blast+

lemma allocate_inv:
  assumes inv: "cache_inv objs s" and c: "rc_state c = rc_state (s_cache s)" "rc_map c = rc_map (s_cache s)" "rc_clock c = rc_clock (s_cache s)"
    and al: "allocate_chunk fuel c = Some out"
  shows "\<exists>i c'. out = Done (i, c') \<and> taken s i c'"
proof -
  have sz: "size_in_chunks c = size_in_chunks (s_cache s)" using c(1) by (simp add: size_in_chunks_def)
  have "rc_clock c < size_in_chunks c" using cache_invD(1) [OF inv] c(3) sz by simp
  moreover obtain c1 where c1: "clock_search fuel c = Some c1" using al by (auto simp: allocate_chunk_def)
  ultimately have sp: "abits_only c c1" "rc_clock c1 < size_in_chunks c1" "evictable (rc_state c1 ! rc_clock c1)"
    using clock_search_spec by blast+
  let ?i = "rc_clock c1" and ?e = "rc_state c1 ! rc_clock c1"
  have i: "?i < size_in_chunks (s_cache s)" using sp(1,2) sz by (simp add: abits_only_def)
  have ent: "\<exists>b. rc_state c1 ! j = (rc_state (s_cache s) ! j)\<lparr>e_accessed := b\<rparr>" if "j < size_in_chunks (s_cache s)" for j
    using sp(1) that sz c(1) by (simp add: abits_only_def)
  then obtain b where b: "?e = (rc_state (s_cache s) ! ?i)\<lparr>e_accessed := b\<rparr>" using i by blast
  have "e_status (rc_state (s_cache s) ! ?i) = EMPTY \<or> e_refcount (rc_state (s_cache s) ! ?i) = 0"
    using sp(3) b by (auto simp: evictable_def)
  note free = chunk_ok_free [OF cache_invD(3) [OF inv i] this]
  let ?c = "(upd_entry ?i (?e\<lparr>e_status := EMPTY\<rparr>) c1)\<lparr>rc_map := (rc_map c1)(e_key ?e := None), rc_clock := (?i + 1) mod size_in_chunks c1\<rparr>"
  have "out = Done (?i, ?c)" using al c1 free b by (simp add: allocate_chunk_def Let_def)
  moreover have "size_in_chunks ?c = size_in_chunks (s_cache s)" "rc_clock ?c < size_in_chunks ?c"
    using sp(1,2) sz by (auto simp: abits_only_def)
  moreover have "e_refcount (rc_state ?c ! ?i) = 0" "e_fill (rc_state ?c ! ?i) = None" "e_pending (rc_state ?c ! ?i) = []"
    using free b sp(2) by simp_all
  moreover have "\<exists>b. rc_state ?c ! j = (rc_state (s_cache s) ! j)\<lparr>e_accessed := b\<rparr>" if "j < size_in_chunks ?c" "j \<noteq> ?i" for j
    using ent [of j] that calculation(2) by simp
  moreover have "j \<noteq> ?i \<and> rc_map (s_cache s) k = Some j" if "rc_map ?c k = Some j" for k j
  proof -
    have k: "k \<noteq> e_key ?e" "rc_map c1 k = Some j" using that by (auto split: if_splits)
    then have m: "rc_map (s_cache s) k = Some j" using sp(1) c(2) by (simp add: abits_only_def)
    then have "e_key (rc_state (s_cache s) ! j) = k" using cache_invD(2) [OF inv] by blast
    then show ?thesis using m k(1) b by auto
  qed
  ultimately show ?thesis unfolding taken_def using i free by blast
qed

text \<open>Giving an allocated chunk a new key.\<close>

lemma inv_take_chunk:
  assumes inv: "cache_inv objs s" and c: "taken s i c"
    and e: "e_status e \<noteq> EMPTY" "chunk_ok objs (chunk_bytes (s_file s) i) i e {#r#}" "req_chunk r = i"
    and m: "m = rc_map c \<or> m = (rc_map c)(e_key e \<mapsto> i)"
  shows "cache_inv objs (s\<lparr>s_cache := (upd_entry i e c)\<lparr>rc_map := m\<rparr>, s_file := s_file s, s_mem := mem, s_reqs := s_reqs s + {#r#}\<rparr>)"
proof (rule cache_inv_change [OF inv takenD(1) [OF c]])
  show "(j \<noteq> i \<and> rc_map (s_cache s) k = Some j) \<or>
      (j = i \<and> e_key (rc_state ((upd_entry i e c)\<lparr>rc_map := m\<rparr>) ! i) = k \<and> e_status (rc_state ((upd_entry i e c)\<lparr>rc_map := m\<rparr>) ! i) \<noteq> EMPTY)"
    if "rc_map ((upd_entry i e c)\<lparr>rc_map := m\<rparr>) k = Some j" for k j
    using that takenD(1,2) [OF c] takenD(9) [OF c, of k j] e(1) m by (cases "k = e_key e") auto
qed (use takenD [OF c] e in simp_all)

lemma step_insert:
  assumes inv: "cache_inv objs s" and ins: "insert_object fuel k bs (s_cache s) = Some out" and bs: "good objs k bs"
  shows "\<exists>i c. out = Done (i, c) \<and> cache_inv objs (s\<lparr>s_cache := c, s_reqs := s_reqs s + {#Insert i k bs#}\<rparr>)"
proof -
  obtain o1 where o1: "allocate_chunk fuel (s_cache s) = Some o1" using ins by (auto simp: insert_object_def)
  then obtain i c where a: "o1 = Done (i, c)" "taken s i c"
    using allocate_inv [OF inv refl refl refl, of fuel o1] by auto
  let ?e = "(rc_state c ! i)\<lparr>e_refcount := e_refcount (rc_state c ! i) + 1, e_accessed := False, e_status := FILLING,
    e_fill := Some bs, e_key := k\<rparr>"
  let ?m = "if rc_map c k = None then (rc_map c)(k \<mapsto> i) else rc_map c"
  have "cache_inv objs (s\<lparr>s_cache := (upd_entry i ?e c)\<lparr>rc_map := ?m\<rparr>, s_file := s_file s, s_mem := s_mem s,
      s_reqs := s_reqs s + {#Insert i k bs#}\<rparr>)"
    by (rule inv_take_chunk [OF inv a(2)]) (use bs takenD [OF a(2)] in \<open>auto simp: chunk_ok_def filler_ok_def\<close>)
  moreover have "out = Done (i, (upd_entry i ?e c)\<lparr>rc_map := ?m\<rparr>)" using ins a(1) o1 by (auto simp: insert_object_def Let_def)
  ultimately show ?thesis by simp
qed

lemma step_read:
  assumes inv: "cache_inv objs s" and rd: "make_read_req fuel k a d junk (s_mem s) (s_cache s) = Some out"
    and ok: "rd_fits k a d" "snd (snd k) mod CACHE_CHUNK_SIZE = 0"
  shows "\<exists>res mem c. out = Done (res, mem, c)
    \<and> cache_inv objs (s\<lparr>s_cache := c, s_mem := mem, s_reqs := s_reqs s + new_reqs k a d res\<rparr>)
    \<and> (res = Rd_now \<longrightarrow> delivered objs mem (k, a, d))"
proof (cases "rc_map (s_cache s) k")
  case None
  have pre: "\<not> (snd (snd k) mod CACHE_CHUNK_SIZE \<noteq> 0 \<or> CACHE_CHUNK_SIZE < a + bytes d)" using ok by (simp add: rd_fits_def)
  let ?c = "count_request (bytes d) CACHE_CHUNK_SIZE 0 ((s_cache s)\<lparr>rc_total := rc_total (s_cache s) + 1\<rparr>)"
  obtain o1 where o1: "allocate_chunk fuel ?c = Some o1" using rd None pre by (auto simp: make_read_req_def Let_def)
  then obtain i c where A: "o1 = Done (i, c)" "taken s i c"
    using allocate_inv [OF inv, of ?c fuel o1] by auto
  let ?e = "(rc_state c ! i)\<lparr>e_fill := Some junk, e_refcount := e_refcount (rc_state c ! i) + 1, e_status := FETCHING, e_key := k\<rparr>"
  have "cache_inv objs (s\<lparr>s_cache := (upd_entry i ?e c)\<lparr>rc_map := (rc_map c)(k \<mapsto> i)\<rparr>, s_file := s_file s, s_mem := s_mem s,
      s_reqs := s_reqs s + {#Miss i k a d Created#}\<rparr>)"
    by (rule inv_take_chunk [OF inv A(2)]) (use ok takenD [OF A(2)] in \<open>auto simp: chunk_ok_def pend_ok_def\<close>)
  then show ?thesis using rd None pre o1 A(1) by (auto simp: make_read_req_def Let_def)
next
  case (Some i)
  have pre: "\<not> (snd (snd k) mod CACHE_CHUNK_SIZE \<noteq> 0 \<or> CACHE_CHUNK_SIZE < a + bytes d)" using ok by (simp add: rd_fits_def)
  let ?c = "count_request (bytes d) 0 1 ((s_cache s)\<lparr>rc_total := rc_total (s_cache s) + 1\<rparr>)"
  let ?e = "rc_state (s_cache s) ! i"
  have I: "i < size_in_chunks (s_cache s)" "e_key ?e = k" "e_status ?e \<noteq> EMPTY" using cache_invD(2) [OF inv Some] by auto
  note C = cache_invD(3) [OF inv I(1)]
  have upd: "cache_inv objs (s\<lparr>s_cache := upd_entry i e ?c, s_file := s_file s, s_mem := mem, s_reqs := R\<rparr>)"
    if "e_key e = k" "e_status e \<noteq> EMPTY" "\<And>j. j \<noteq> i \<Longrightarrow> reqs_at j R = reqs_at j (s_reqs s)"
      "chunk_ok objs (chunk_bytes (s_file s) i) i e (reqs_at i R)" for e mem R
  proof (rule cache_inv_change [OF inv I(1)])
    show "\<exists>b. rc_state (upd_entry i e ?c) ! j = (rc_state (s_cache s) ! j)\<lparr>e_accessed := b\<rparr>" if "j \<noteq> i" for j
      using that by (intro exI [of _ "e_accessed (rc_state (s_cache s) ! j)"]) simp
    show "(j \<noteq> i \<and> rc_map (s_cache s) k' = Some j) \<or>
        (j = i \<and> e_key (rc_state (upd_entry i e ?c) ! i) = k' \<and> e_status (rc_state (upd_entry i e ?c) ! i) \<noteq> EMPTY)"
      if "rc_map (upd_entry i e ?c) k' = Some j" for k' j
      using that cache_invD(2) [OF inv, of k' j] I \<open>e_key e = k\<close> \<open>e_status e \<noteq> EMPTY\<close> by auto
  qed (use cache_invD(1) [OF inv] I that in simp_all)
  show ?thesis
  proof (cases "e_status ?e")
    case EMPTY
    then show ?thesis using I by simp
  next
    case FETCHING
    let ?e1 = "?e\<lparr>e_refcount := e_refcount ?e + 1, e_accessed := True, e_pending := e_pending ?e @ [(k, a, d)]\<rparr>"
    have "cache_inv objs (s\<lparr>s_cache := upd_entry i ?e1 ?c, s_file := s_file s, s_mem := s_mem s, s_reqs := s_reqs s\<rparr>)"
      by (rule upd) (use C FETCHING I ok in \<open>auto simp: chunk_ok_def pend_ok_def\<close>)
    then show ?thesis using rd Some pre FETCHING by (auto simp: make_read_req_def Let_def)
  next
    case FILLING
    then obtain bs where bs: "e_fill ?e = Some bs" "good objs k bs" using C I by (auto simp: chunk_ok_def)
    let ?e1 = "?e\<lparr>e_refcount := e_refcount ?e, e_accessed := True\<rparr>"
    have "cache_inv objs (s\<lparr>s_cache := upd_entry i ?e1 ?c, s_file := s_file s, s_mem := copy_buf (s_mem s) d (drop (nat a) bs), s_reqs := s_reqs s\<rparr>)"
      by (rule upd) (use C FILLING I in simp_all)
    then show ?thesis using rd Some pre FILLING bs copy_buf_delivers [OF ok(1) bs(2)] by (auto simp: make_read_req_def Let_def)
  next
    case VALID
    let ?e1 = "?e\<lparr>e_refcount := e_refcount ?e + 1, e_accessed := True\<rparr>"
    have "cache_inv objs (s\<lparr>s_cache := upd_entry i ?e1 ?c, s_file := s_file s, s_mem := s_mem s, s_reqs := s_reqs s + {#Hit i k a d#}\<rparr>)"
      by (rule upd) (use C VALID I ok in \<open>auto simp: chunk_ok_def\<close>)
    then show ?thesis using rd Some pre VALID by (auto simp: make_read_req_def Let_def)
  qed
qed

end
