(* ===== verification/Read_Cache_Correct.thy ===== *)
theory Read_Cache_Correct
  imports Read_Cache_Steps
begin

text \<open>
  The read cache as a whole: every run delivers the bytes of the objects, completes every read once,
  fails no assertion and drains.
\<close>

section \<open>Steps\<close>

definition data_good :: "objects \<Rightarrow> (chunk_key \<Rightarrow> byte list set) \<Rightarrow> bool" where
  "data_good objs resp \<longleftrightarrow> (\<forall>k. \<forall>bs\<in>resp k. good objs k bs)"

lemma make_read_req_pre:
  assumes "make_read_req fuel k a d junk mem c = Some (Done r)" "rd_ok k a d"
  shows "rd_fits k a d" "snd (snd k) mod CACHE_CHUNK_SIZE = 0"
  using assms by (auto simp: make_read_req_def rd_fits_def split: if_splits)

lemma notify_simps [simp]:
  "pending_on_backend_done i a d bs m c = Done (m', c') \<longleftrightarrow> dec_chunk_refcount i c = Done c' \<and> m' = copy_buf m d (drop (nat a) bs)"
  "hit_notify i a d f m c = Done (m', c') \<longleftrightarrow>
     dec_chunk_refcount i c = Done c' \<and> m' = copy_buf m d (load_bytes f (get_store_offset_for_chunk i + a) (bytes d))"
  "insert_notify i bs f c = (f', c') \<longleftrightarrow> f' = store_bytes f (get_store_offset_for_chunk i) bs \<and> c' = on_store_done i c"
  "miss_on_store_done i bs f c = (f', c') \<longleftrightarrow> f' = store_bytes f (get_store_offset_for_chunk i) bs \<and> c' = on_store_done i c"
  by (auto simp: pending_on_backend_done_def hit_notify_def insert_notify_def miss_on_store_done_def split: outcome.splits)

lemma rc_step_sound:
  assumes inv: "cache_inv objs s" and good: "data_good objs resp" "data_good objs ins" and st: "rc_step resp ins s as ds s'"
  shows "cache_inv objs s' \<and> (\<forall>r\<in>set ds. delivered objs (s_mem s') r)"
  using st inv
proof (cases rule: rc_step.cases)
  case (read fuel k a d junk res mem c)
  note p = make_read_req_pre [OF read(4,5)]
  show ?thesis using step_read [OF inv read(4) p] read by auto
next
  case (run_miss i k a d)
  then show ?thesis using step_run_miss [OF inv] by simp
next
  case (backend_done i k a d bs q c)
  have "good objs k bs" using backend_done(5) good(1) unfolding data_good_def by blast
  then show ?thesis using step_backend_done [OF inv backend_done(4) _ backend_done(6)] backend_done by simp
next
  case (deliver_pending i k a d bs k' a' d' q m c)
  then show ?thesis using step_deliver_pending [OF inv deliver_pending(4)] by auto
next
  case (deliver_self i k a d bs)
  then show ?thesis using step_deliver_self [OF inv deliver_self(4)] by simp
next
  case (store_done i k a d bs f c)
  then show ?thesis using step_store [OF inv store_done(4), of i k bs] by simp
next
  case (hit_done i k a d m c)
  then show ?thesis using step_hit_done [OF inv hit_done(4)] by auto
next
  case (insert fuel k bs i c)
  have "good objs k bs" using insert(5) good(2) unfolding data_good_def by blast
  then show ?thesis using step_insert [OF inv insert(4)] insert by auto
next
  case (insert_done i k bs f c)
  then show ?thesis using step_store [OF inv insert_done(4), of i k bs] by simp
qed

lemma rc_reach_inv:
  "rc_reach resp ins n s as ds \<Longrightarrow> 0 < n \<Longrightarrow> data_good objs resp \<Longrightarrow> data_good objs ins \<Longrightarrow> cache_inv objs s"
  by (induction rule: rc_reach.induct) (auto simp: cache_inv_start dest: rc_step_sound)

section \<open>Reads in flight\<close>

primrec phase_waiting :: "miss_phase \<Rightarrow> pending_read \<Rightarrow> pending_read multiset" where
  "phase_waiting Created r = {#r#}"
| "phase_waiting Fetch r = {#r#}"
| "phase_waiting (Deliver bs q) r = add_mset r (mset q)"
| "phase_waiting (Store bs) r = {#}"

primrec req_waiting :: "rreq \<Rightarrow> pending_read multiset" where
  "req_waiting (Hit i k a d) = {#(k, a, d)#}"
| "req_waiting (Miss i k a d p) = phase_waiting p (k, a, d)"
| "req_waiting (Insert i k bs) = {#}"

definition waiting :: "rcache \<Rightarrow> pending_read multiset" where
  "waiting c = (\<Sum>e\<leftarrow>rc_state c. mset (e_pending e))"

definition in_flight :: "rsys \<Rightarrow> pending_read multiset" where
  "in_flight s = (\<Sum>r\<in>#s_reqs s. req_waiting r) + waiting (s_cache s)"

lemma waiting_none: "\<forall>e\<in>set (rc_state c). e_pending e = [] \<Longrightarrow> waiting c = {#}"
proof -
  have "\<forall>e\<in>set es. e_pending e = [] \<Longrightarrow> (\<Sum>e\<leftarrow>es. mset (e_pending e)) = {#}" for es by (induction es) auto
  then show "\<forall>e\<in>set (rc_state c). e_pending e = [] \<Longrightarrow> waiting c = {#}" by (simp add: waiting_def)
qed

lemma waiting_upd [simp]:
  "waiting (c\<lparr>rc_map := m\<rparr>) = waiting c" "waiting (c\<lparr>rc_clock := k\<rparr>) = waiting c" "waiting (c\<lparr>rc_total := t\<rparr>) = waiting c"
  "waiting (count_request u b h c) = waiting c"
  by (simp_all add: waiting_def)

lemma waiting_upd_entry:
  assumes "i < size_in_chunks c"
  shows "waiting (upd_entry i e c) + mset (e_pending (rc_state c ! i)) = waiting c + mset (e_pending e)"
proof -
  have "(\<Sum>x\<leftarrow>xs[i := e]. mset (e_pending x)) + mset (e_pending (xs ! i)) = (\<Sum>x\<leftarrow>xs. mset (e_pending x)) + mset (e_pending e)"
    if "i < length xs" for xs :: "entry_state list"
    using that
  proof (induction xs arbitrary: i)
    case (Cons x xs)
    then show ?case by (cases i) (simp_all add: ac_simps)
  qed simp
  then show ?thesis using assms by (simp add: waiting_def upd_entry_def size_in_chunks_def)
qed

lemma waiting_same [simp]:
  assumes "i < size_in_chunks c" "e_pending e = e_pending (rc_state c ! i)"
  shows "waiting (upd_entry i e c) = waiting c"
  using waiting_upd_entry [OF assms(1), of e] assms(2) by simp

lemma waiting_snoc [simp]:
  assumes "i < size_in_chunks c" "e_pending e = e_pending (rc_state c ! i) @ [r]"
  shows "waiting (upd_entry i e c) = add_mset r (waiting c)"
  using waiting_upd_entry [OF assms(1), of e] assms(2) by simp

lemma waiting_abits:
  assumes "abits_only c c'"
  shows "waiting c' = waiting c"
proof -
  have "map e_pending (rc_state c') = map e_pending (rc_state c)"
  proof (rule nth_equalityI)
    show "length (map e_pending (rc_state c')) = length (map e_pending (rc_state c))" using assms by (simp add: abits_only_def size_in_chunks_def)
    then show "map e_pending (rc_state c') ! i = map e_pending (rc_state c) ! i" if "i < length (map e_pending (rc_state c'))" for i
      using that assms by (auto simp: abits_only_def size_in_chunks_def)
  qed
  then have "map mset (map e_pending (rc_state c')) = map mset (map e_pending (rc_state c))" by (rule arg_cong)
  then show ?thesis by (simp add: waiting_def comp_def)
qed

lemma waiting_allocate:
  assumes "rc_clock c < size_in_chunks c" "allocate_chunk fuel c = Some (Done (i, c'))"
  shows "waiting c' = waiting c" "i < size_in_chunks c'"
proof -
  obtain c1 where c1: "clock_search fuel c = Some c1" using assms(2) by (auto simp: allocate_chunk_def)
  have sp: "abits_only c c1" "rc_clock c1 < size_in_chunks c1" using clock_search_spec [OF assms(1) c1] by auto
  have c': "i = rc_clock c1" "c' = (upd_entry i ((rc_state c1 ! i)\<lparr>e_status := EMPTY\<rparr>) c1)
      \<lparr>rc_map := (rc_map c1)(e_key (rc_state c1 ! i) := None), rc_clock := (i + 1) mod size_in_chunks c1\<rparr>"
    using assms(2) c1 by (auto simp: allocate_chunk_def Let_def split: if_splits)
  show "i < size_in_chunks c'" using sp c' by simp
  show "waiting c' = waiting c" using sp(2) waiting_abits [OF sp(1)] unfolding c' by simp
qed

lemma sum_reqs_replace:
  "r \<in># R \<Longrightarrow> (\<Sum>x\<in>#(R - {#r#}). f x) + f r = (\<Sum>x\<in>#R. f x)" for f :: "rreq \<Rightarrow> 'b :: comm_monoid_add"
  by (metis insert_DiffM sum_mset.insert image_mset_add_mset add.commute)

lemma in_flight_read:
  assumes inv: "cache_inv objs s" and rd: "make_read_req fuel k a d junk (s_mem s) (s_cache s) = Some (Done (res, mem, c))"
  shows "waiting c + (\<Sum>r\<in>#new_reqs k a d res. req_waiting r) + mset (if res = Rd_now then [(k, a, d)] else [])
    = add_mset (k, a, d) (waiting (s_cache s))"
proof -
  have pre: "\<not> (snd (snd k) mod CACHE_CHUNK_SIZE \<noteq> 0 \<or> CACHE_CHUNK_SIZE < a + bytes d)"
    using rd by (auto simp: make_read_req_def split: if_splits)
  show ?thesis
  proof (cases "rc_map (s_cache s) k")
    case None
    let ?c = "count_request (bytes d) CACHE_CHUNK_SIZE 0 ((s_cache s)\<lparr>rc_total := rc_total (s_cache s) + 1\<rparr>)"
    obtain i c1 where c1: "allocate_chunk fuel ?c = Some (Done (i, c1))" "res = Rd_miss i"
      "c = (upd_entry i ((rc_state c1 ! i)\<lparr>e_fill := Some junk, e_refcount := e_refcount (rc_state c1 ! i) + 1, e_status := FETCHING, e_key := k\<rparr>) c1)
                            \<lparr>rc_map := (rc_map c1)(k \<mapsto> i)\<rparr>"
    proof -
      obtain z where z: "allocate_chunk fuel ?c = Some z" using rd None pre by (auto simp: make_read_req_def Let_def)
      then obtain i c1 where "z = Done (i, c1)" using rd None pre by (cases z) (auto simp: make_read_req_def Let_def)
      then show thesis using that rd None pre z by (simp add: make_read_req_def Let_def)
    qed
    have "waiting c1 = waiting (s_cache s)" "i < size_in_chunks c1"
      using waiting_allocate [OF _ c1(1)] cache_invD(1) [OF inv] by simp_all
    then show ?thesis using c1(2,3) by simp
  next
    case (Some i)
    let ?c = "count_request (bytes d) 0 1 ((s_cache s)\<lparr>rc_total := rc_total (s_cache s) + 1\<rparr>)"
    have i: "i < size_in_chunks ?c" using cache_invD(2) [OF inv Some] by simp
    show ?thesis using rd Some pre i
      by (cases "e_status (rc_state (s_cache s) ! i)") (auto simp: make_read_req_def Let_def split: option.splits)
  qed
qed

lemma dec_chunk_waiting:
  assumes "dec_chunk_refcount i c = Done c'" "i < size_in_chunks c"
  shows "waiting c' = waiting c"
  using assms by (auto simp: dec_chunk_refcount_def Let_def split: if_splits)

lemma in_flight_step:
  assumes inv: "cache_inv objs s" and st: "rc_step resp ins s as ds s'"
  shows "in_flight s' + mset ds = in_flight s + mset as"
  using st inv
proof (cases rule: rc_step.cases)
  case (read fuel k a d junk res mem c)
  then show ?thesis using in_flight_read [OF inv read(4)] by (simp add: in_flight_def ac_simps)
next
  case (run_miss i k a d)
  then show ?thesis using req_at(1) [OF inv run_miss(4)] sum_reqs_replace [OF run_miss(4), of req_waiting, symmetric]
    by (simp add: in_flight_def set_chunk_status_def ac_simps)
next
  case (backend_done i k a d bs q c)
  have i: "i < size_in_chunks (s_cache s)" using req_at(1) [OF inv backend_done(4)] by simp
  have "waiting c + mset q = waiting (s_cache s)"
    using backend_done(6) waiting_upd_entry [OF i] by (auto simp: on_backend_done_def Let_def)
  then have w: "waiting (s_cache s) = waiting c + mset q" by simp
  show ?thesis using backend_done(1-3) sum_reqs_replace [OF backend_done(4), of req_waiting, symmetric]
    by (simp add: in_flight_def w)
next
  case (deliver_pending i k a d bs k' a' d' q m c)
  have "waiting c = waiting (s_cache s)"
    by (rule dec_chunk_waiting [of i "s_cache s"]) (use req_at(1) [OF inv deliver_pending(4)] deliver_pending(5) in simp_all)
  then show ?thesis using deliver_pending(1-3) sum_reqs_replace [OF deliver_pending(4), of req_waiting, symmetric]
    by (simp add: in_flight_def)
next
  case (deliver_self i k a d bs)
  then show ?thesis using sum_reqs_replace [OF deliver_self(4), of req_waiting, symmetric] by (simp add: in_flight_def ac_simps)
next
  case (store_done i k a d bs f c)
  then show ?thesis using req_at(1) [OF inv store_done(4)] sum_reqs_replace [OF store_done(4), of req_waiting, symmetric]
    by (simp add: in_flight_def on_store_done_def Let_def)
next
  case (hit_done i k a d m c)
  have "waiting c = waiting (s_cache s)"
    by (rule dec_chunk_waiting [of i "s_cache s"]) (use req_at(1) [OF inv hit_done(4)] hit_done(5) in simp_all)
  then show ?thesis using hit_done(1-3) sum_reqs_replace [OF hit_done(4), of req_waiting, symmetric]
    by (simp add: in_flight_def)
next
  case (insert fuel k bs i c)
  obtain c1 where c1: "allocate_chunk fuel (s_cache s) = Some (Done (i, c1))"
    "c = (upd_entry i ((rc_state c1 ! i)\<lparr>e_refcount := e_refcount (rc_state c1 ! i) + 1, e_accessed := False, e_status := FILLING,
                           e_fill := Some bs, e_key := k\<rparr>) c1)
                \<lparr>rc_map := (if rc_map c1 k = None then (rc_map c1)(k \<mapsto> i) else rc_map c1)\<rparr>"
  proof -
    obtain z where z: "allocate_chunk fuel (s_cache s) = Some z" using insert(4) by (auto simp: insert_object_def)
    then obtain j c1 where "z = Done (j, c1)" using insert(4) by (cases z) (auto simp: insert_object_def)
    then show thesis using that [of c1] insert(4) z by (auto simp: insert_object_def Let_def)
  qed
  then show ?thesis using insert waiting_allocate [OF cache_invD(1) [OF inv] c1(1)] by (simp add: in_flight_def)
next
  case (insert_done i k bs f c)
  then show ?thesis using req_at(1) [OF inv insert_done(4)] sum_reqs_replace [OF insert_done(4), of req_waiting, symmetric]
    by (simp add: in_flight_def on_store_done_def Let_def)
qed

section \<open>Draining\<close>

text \<open>A run without new reads, with the reads that it completes.\<close>

inductive rc_run ::
  "(chunk_key \<Rightarrow> byte list set) \<Rightarrow> (chunk_key \<Rightarrow> byte list set) \<Rightarrow> rsys \<Rightarrow> pending_read list \<Rightarrow> rsys \<Rightarrow> bool" for resp ins where
  run_refl: "rc_run resp ins s [] s"
| run_step: "rc_step resp ins s [] d s1 \<Longrightarrow> rc_run resp ins s1 ds s' \<Longrightarrow> rc_run resp ins s (d @ ds) s'"

primrec phase_weight :: "miss_phase \<Rightarrow> nat" where
  "phase_weight Created = 4"
| "phase_weight Fetch = 3"
| "phase_weight (Deliver bs q) = 2 + length q"
| "phase_weight (Store bs) = 1"

primrec req_weight :: "rreq \<Rightarrow> nat" where
  "req_weight (Hit i k a d) = 1"
| "req_weight (Miss i k a d p) = phase_weight p"
| "req_weight (Insert i k bs) = 1"

definition weight :: "rsys \<Rightarrow> nat" where
  "weight s = (\<Sum>r\<in>#s_reqs s. req_weight r) + size (waiting (s_cache s))"

lemma progress:
  assumes inv: "cache_inv objs s" and resp: "\<forall>k. resp k \<noteq> {}" and r: "r \<in># s_reqs s"
  shows "\<exists>d s'. rc_step resp ins s [] d s' \<and> weight s' < weight s"
proof -
  have i: "req_chunk r < size_in_chunks (s_cache s)" by (rule cache_invD(4) [OF inv r])
  note sums = sum_reqs_replace [OF r, of req_weight, symmetric]
  show ?thesis
  proof (cases r)
    case (Hit i k a d)
    obtain c where c: "dec_chunk_refcount i (s_cache s) = Done c" using step_hit_done(1) [OF inv r [unfolded Hit]] by blast
    have n: "hit_notify i a d (s_file s) (s_mem s) (s_cache s)
        = Done (copy_buf (s_mem s) d (load_bytes (s_file s) (get_store_offset_for_chunk i + a) (bytes d)), c)" using c by simp
    show ?thesis by (intro exI conjI, rule rc_step.hit_done [OF r [unfolded Hit] n, of resp ins]) (use i sums dec_chunk_waiting [OF c] in \<open>simp add: weight_def Hit\<close>)
  next
    case (Insert i k bs)
    show ?thesis by (intro exI conjI, rule rc_step.insert_done [OF r [unfolded Insert] insert_notify_def, of resp ins])
      (use i sums in \<open>simp add: weight_def Insert on_store_done_def Let_def\<close>)
  next
    case (Miss i k a d p)
    note M = r [unfolded Miss]
    show ?thesis
    proof (cases p)
      case Created
      show ?thesis by (intro exI conjI, rule rc_step.run_miss [OF M [unfolded Created]])
        (use i sums in \<open>simp add: weight_def Miss Created set_chunk_status_def\<close>)
    next
      case Fetch
      obtain bs where bs: "bs \<in> resp k" using resp by blast
      obtain q c where b: "on_backend_done i bs (s_cache s) = (q, c)" by (metis surj_pair)
      have "waiting c + mset q = waiting (s_cache s)"
        using b i waiting_upd_entry [of i "s_cache s"] by (auto simp: on_backend_done_def Let_def Miss)
      then have "size (waiting (s_cache s)) = size (waiting c) + length q" by (metis size_union size_mset)
      note w = this
      show ?thesis by (intro exI conjI, rule rc_step.backend_done [where resp = resp, OF M [unfolded Fetch] bs b])
        (use i sums w in \<open>simp add: weight_def Miss Fetch\<close>)
    next
      case (Deliver bs q)
      show ?thesis
      proof (cases q)
        case Nil
        show ?thesis by (intro exI conjI, rule rc_step.deliver_self [OF M [unfolded Deliver Nil]])
          (use i sums in \<open>simp add: weight_def Miss Deliver Nil\<close>)
      next
        case (Cons x q')
        obtain k' a' d' where x: "x = (k', a', d')" by (metis surj_pair)
        obtain c where c: "dec_chunk_refcount i (s_cache s) = Done c"
          using step_deliver_pending(1) [OF inv M [unfolded Deliver Cons x]] by blast
        then have n: "pending_on_backend_done i a' d' bs (s_mem s) (s_cache s) = Done (copy_buf (s_mem s) d' (drop (nat a') bs), c)" by simp
        show ?thesis by (intro exI conjI, rule rc_step.deliver_pending [OF M [unfolded Deliver Cons x] n])
          (use i sums dec_chunk_waiting [OF c] in \<open>simp add: weight_def Miss Deliver Cons x\<close>)
      qed
    next
      case (Store bs)
      show ?thesis by (intro exI conjI, rule rc_step.store_done [OF M [unfolded Store] miss_on_store_done_def])
        (use i sums in \<open>simp add: weight_def Miss Store on_store_done_def Let_def\<close>)
    qed
  qed
qed

lemma drain:
  assumes "cache_inv objs s" "data_good objs resp" "data_good objs ins" "\<forall>k. resp k \<noteq> {}"
  shows "\<exists>ds s'. rc_run resp ins s ds s' \<and> s_reqs s' = {#} \<and> cache_inv objs s' \<and> in_flight s' + mset ds = in_flight s"
  using assms(1)
proof (induction "weight s" arbitrary: s rule: less_induct)
  case less
  show ?case
  proof (cases "s_reqs s = {#}")
    case True
    then show ?thesis using less.prems run_refl [of resp ins s] by (intro exI [of _ "[]"] exI [of _ s]) simp
  next
    case False
    then obtain r where "r \<in># s_reqs s" by (metis multiset_nonemptyE)
    then obtain d s1 where st: "rc_step resp ins s [] d s1" "weight s1 < weight s" using progress [OF less.prems assms(4)] by blast
    have inv1: "cache_inv objs s1" using rc_step_sound [OF less.prems assms(2,3) st(1)] by blast
    then obtain ds s' where run: "rc_run resp ins s1 ds s'" "s_reqs s' = {#}" "cache_inv objs s'" "in_flight s' + mset ds = in_flight s1"
      using less.hyps [OF st(2)] by blast
    have "in_flight s' + mset (d @ ds) = in_flight s"
      using in_flight_step [OF less.prems st(1)] run(4) [symmetric] by (simp add: ac_simps)
    then show ?thesis using rc_run.run_step [OF st(1) run(1)] run(2,3) by blast
  qed
qed

text \<open>What the invariant says of a cache without requests.\<close>

definition idle_entry :: "entry_state \<Rightarrow> bool" where
  "idle_entry e \<longleftrightarrow> e_status e \<in> {EMPTY, VALID} \<and> e_refcount e = 0 \<and> e_pending e = [] \<and> e_fill e = None"

lemma quiet_idle:
  assumes inv: "cache_inv objs s" and none: "s_reqs s = {#}"
  shows "list_all idle_entry (rc_state (s_cache s))" "in_flight s = {#}"
proof -
  have idle: "idle_entry (rc_state (s_cache s) ! i)" if "i < size_in_chunks (s_cache s)" for i
    using cache_invD(3) [OF inv that] none
    by (cases "e_status (rc_state (s_cache s) ! i)") (auto simp: chunk_ok_def idle_entry_def)
  then show "list_all idle_entry (rc_state (s_cache s))" by (simp add: list_all_length size_in_chunks_def)
  then have "waiting (s_cache s) = {#}" by (intro waiting_none) (auto simp: list_all_iff idle_entry_def)
  then show "in_flight s = {#}" using none by (simp add: in_flight_def)
qed

section \<open>Correctness of the cache\<close>

text \<open>
  C21. Read cache safety. Let the object store and every insertion supply the bytes of the objects.
  Then in every run of the cache, with any number of reads, insertions, evictions and completions in
  any order, a step that completes reads leaves in the buffers of each of them exactly the bytes of
  its object at its offset. This covers the hit, the read of a chunk that is being filled, the read
  that waited for another one's fetch, and the miss.
\<close>

theorem read_cache_delivers:
  assumes "rc_reach resp ins n s asked completed" "0 < n" "data_good objs resp" "data_good objs ins"
    and "rc_step resp ins s a d s'"
  shows "\<forall>r\<in>set d. delivered objs (s_mem s') r"
  using rc_step_sound [OF rc_reach_inv [OF assms(1-4)] assms(3-5)] by blast

text \<open>
  C22. Every read is answered exactly once. In every reachable state the reads that the cache has
  accepted are the reads that it has completed together with the reads in flight, as multisets: none
  is lost in a pending list, and none is completed twice.
\<close>

theorem read_cache_conserves:
  assumes "rc_reach resp ins n s asked completed" "0 < n" "data_good objs resp" "data_good objs ins"
  shows "mset asked = mset completed + in_flight s"
  using assms
proof (induction rule: rc_reach.induct)
  case (rc_start f m)
  have "waiting (new_cache n) = {#}" by (rule waiting_none) (simp add: new_cache_def new_entry_def)
  then show ?case by (simp add: in_flight_def start_sys_def)
next
  case (rc_next s as ds a d s')
  have inv: "cache_inv objs s" by (rule rc_reach_inv [OF rc_next.hyps(1) rc_next.prems])
  show ?case using in_flight_step [OF inv rc_next.hyps(2)] rc_next.IH [OF rc_next.prems] by (simp add: ac_simps)
qed

text \<open>
  C24. The assertions of the cache hold. In every reachable state a read that starts on a chunk
  boundary and fits into its chunk, and an insertion of correct data, end without a failed assertion
  once a chunk has been found; and a hit or a delivery that is in flight finds a positive reference
  count to drop.
\<close>

theorem read_cache_no_abort:
  assumes "rc_reach resp ins n s asked completed" "0 < n" "data_good objs resp" "data_good objs ins"
  shows "(rd_fits k a d \<and> snd (snd k) mod CACHE_CHUNK_SIZE = 0 \<longrightarrow>
      make_read_req fuel k a d junk (s_mem s) (s_cache s) \<noteq> Some Abort)
    \<and> (good objs k bs \<longrightarrow> insert_object fuel k bs (s_cache s) \<noteq> Some Abort)
    \<and> (Hit i k a d \<in># s_reqs s \<or> Miss i k a d (Deliver bs (x # q)) \<in># s_reqs s \<longrightarrow>
      dec_chunk_refcount i (s_cache s) \<noteq> Abort)"
proof (intro conjI impI)
  note inv = rc_reach_inv [OF assms]
  show "make_read_req fuel k a d junk (s_mem s) (s_cache s) \<noteq> Some Abort" if "rd_fits k a d \<and> snd (snd k) mod CACHE_CHUNK_SIZE = 0"
    using step_read [OF inv, of fuel k a d junk Abort] that by blast
  show "insert_object fuel k bs (s_cache s) \<noteq> Some Abort" if "good objs k bs"
    using step_insert [OF inv _ that] by blast
  show "dec_chunk_refcount i (s_cache s) \<noteq> Abort" if "Hit i k a d \<in># s_reqs s \<or> Miss i k a d (Deliver bs (x # q)) \<in># s_reqs s"
    using that step_hit_done(1) [OF inv, of i k a d]
      step_deliver_pending(1) [OF inv, of i k a d bs "fst x" "fst (snd x)" "snd (snd x)" q] by auto
qed

text \<open>
  C23. The cache drains. When the object store answers every read, every reachable state has a run of
  completions, with no further read, that completes all reads in flight and ends in a state without
  requests. There every chunk is empty or valid, without references, pending reads or fill data, so
  that every chunk can be evicted again.
\<close>

theorem read_cache_drains:
  assumes "rc_reach resp ins n s asked completed" "0 < n" "data_good objs resp" "data_good objs ins" "\<forall>k. resp k \<noteq> {}"
  shows "\<exists>ds s'. rc_run resp ins s ds s' \<and> s_reqs s' = {#} \<and> mset ds = in_flight s \<and> list_all idle_entry (rc_state (s_cache s'))"
proof -
  obtain ds s' where r: "rc_run resp ins s ds s'" "s_reqs s' = {#}" "cache_inv objs s'" "in_flight s' + mset ds = in_flight s"
    using drain [OF rc_reach_inv [OF assms(1-4)] assms(3-5)] by blast
  then show ?thesis using quiet_idle [OF r(3,2)] by auto
qed

section \<open>A run\<close>

definition demo_objects :: objects where
  "demo_objects pf n = replicate 65536 7"

definition demo_resp :: "chunk_key \<Rightarrow> byte list set" where
  "demo_resp k = {replicate 65536 7}"

definition demo_key :: chunk_key where
  "demo_key = (''img'', 5, 0)"

definition demo_dest :: smartiov where
  "demo_dest = [\<lparr>iov_base = 1000, iov_len = 16\<rparr>]"

definition demo_state :: "nat \<Rightarrow> rreq \<Rightarrow> rsys" where
  "demo_state st r = (start_sys 1 (\<lambda>a. 0) (\<lambda>a. 0))\<lparr>s_cache :=
     \<lparr>rc_state = [new_entry\<lparr>e_fill := Some (if st = 0 then [] else replicate 65536 7), e_refcount := 1,
        e_status := (if st = 0 then FETCHING else FILLING), e_key := demo_key\<rparr>],
      rc_map = [demo_key \<mapsto> 0], rc_clock = 0, rc_total = 1, rc_hitrate = [0], rc_user = [16], rc_backend = [65536]\<rparr>,
     s_reqs := {#r#}\<rparr>"

lemma demo_good: "data_good demo_objects demo_resp" "\<forall>k. demo_resp k \<noteq> {}"
proof -
  have "good demo_objects (pf, n, off) (replicate 65536 7)" for pf n off
    unfolding good_def demo_objects_def prod.case length_replicate
    by (intro conjI allI impI) (simp add: CACHE_CHUNK_SIZE_def, subst nth_replicate, simp_all only:, subst nth_replicate, simp_all)
  then show "data_good demo_objects demo_resp" by (simp add: data_good_def demo_resp_def)
  show "\<forall>k. demo_resp k \<noteq> {}" by (simp add: demo_resp_def)
qed

lemma demo_fits: "rd_fits demo_key 0 demo_dest"
  by (simp add: rd_fits_def rd_ok_def demo_key_def demo_dest_def iov_ok_def CACHE_CHUNK_SIZE_def bytes_def ubf_def)

lemma demo_miss:
  "make_read_req 1 demo_key 0 demo_dest [] (\<lambda>a. 0) (new_cache 1)
   = Some (Done (Rd_miss 0, \<lambda>a. 0, s_cache (demo_state 0 r)))"
  by (simp add: make_read_req_def allocate_chunk_def clock_search_step evictable_def new_cache_def new_entry_def demo_key_def
      count_request_def roll_stat_def CACHE_STATS_WINDOW_def size_in_chunks_def upd_entry_def demo_state_def start_sys_def
      Let_def CACHE_CHUNK_SIZE_def demo_dest_def bytes_def ubf_def)

lemma demo_run:
  "rc_reach demo_resp demo_resp 1 (demo_state 0 (Miss 0 demo_key 0 demo_dest Created)) [(demo_key, 0, demo_dest)] []"
  "rc_step demo_resp demo_resp (demo_state 0 (Miss 0 demo_key 0 demo_dest Created)) [] []
     (demo_state 0 (Miss 0 demo_key 0 demo_dest Fetch))"
  "rc_step demo_resp demo_resp (demo_state 0 (Miss 0 demo_key 0 demo_dest Fetch)) [] []
     (demo_state 1 (Miss 0 demo_key 0 demo_dest (Deliver (replicate 65536 7) [])))"
proof -
  let ?s = "start_sys 1 (\<lambda>a. 0) (\<lambda>a. 0)"
  have "make_read_req 1 demo_key 0 demo_dest [] (s_mem ?s) (s_cache ?s)
      = Some (Done (Rd_miss 0, \<lambda>a. 0, s_cache (demo_state 0 (Miss 0 demo_key 0 demo_dest Created))))"
    unfolding start_sys_def rsys.simps by (rule demo_miss)
  from rc_next [OF rc_start rc_step.read [OF this], of demo_resp demo_resp] demo_fits
  show "rc_reach demo_resp demo_resp 1 (demo_state 0 (Miss 0 demo_key 0 demo_dest Created)) [(demo_key, 0, demo_dest)] []"
    by (simp add: rd_fits_def) (simp add: start_sys_def demo_state_def)
  show "rc_step demo_resp demo_resp (demo_state 0 (Miss 0 demo_key 0 demo_dest Created)) [] []
     (demo_state 0 (Miss 0 demo_key 0 demo_dest Fetch))"
    using rc_step.run_miss [of 0 demo_key 0 demo_dest "demo_state 0 (Miss 0 demo_key 0 demo_dest Created)" demo_resp demo_resp]
    by (simp add: demo_state_def start_sys_def set_chunk_status_def upd_entry_def new_entry_def)
  show "rc_step demo_resp demo_resp (demo_state 0 (Miss 0 demo_key 0 demo_dest Fetch)) [] []
     (demo_state 1 (Miss 0 demo_key 0 demo_dest (Deliver (replicate 65536 7) [])))"
    using rc_step.backend_done [of 0 demo_key 0 demo_dest "demo_state 0 (Miss 0 demo_key 0 demo_dest Fetch)" "replicate 65536 7" demo_resp "[]"
        "s_cache (demo_state 1 (Miss 0 demo_key 0 demo_dest Fetch))" demo_resp]
    by (simp add: demo_resp_def demo_state_def start_sys_def on_backend_done_def Let_def upd_entry_def new_entry_def)
qed

theorem read_cache_delivers_witness:
  "\<exists>s s'. rc_reach demo_resp demo_resp 1 s [(demo_key, 0, demo_dest)] []
     \<and> rc_step demo_resp demo_resp s [] [(demo_key, 0, demo_dest)] s' \<and> delivered demo_objects (s_mem s') (demo_key, 0, demo_dest)"
proof -
  let ?s = "demo_state 1 (Miss 0 demo_key 0 demo_dest (Deliver (replicate 65536 7) []))"
  have r: "rc_reach demo_resp demo_resp 1 ?s [(demo_key, 0, demo_dest)] []"
    using rc_next [OF rc_next [OF demo_run(1,2)] demo_run(3)] by simp
  have "Miss 0 demo_key 0 demo_dest (Deliver (replicate 65536 7) []) \<in># s_reqs ?s" by (simp only: demo_state_def rsys.simps) simp
  note st = rc_step.deliver_self [OF this, of demo_resp demo_resp]
  show ?thesis using r st read_cache_delivers [OF r _ demo_good(1) demo_good(1) st] by fastforce
qed

theorem read_cache_conserves_witness:
  "in_flight (demo_state 0 (Miss 0 demo_key 0 demo_dest Created)) = {#(demo_key, 0, demo_dest)#}"
  using read_cache_conserves [OF demo_run(1) _ demo_good(1) demo_good(1)] by simp

theorem read_cache_no_abort_witness:
  "make_read_req 5 demo_key 0 demo_dest [] (\<lambda>a. 0) (s_cache (demo_state 0 (Miss 0 demo_key 0 demo_dest Created))) \<noteq> Some Abort"
proof -
  have "s_mem (demo_state 0 (Miss 0 demo_key 0 demo_dest Created)) = (\<lambda>a. 0)" by (simp add: demo_state_def start_sys_def)
  then show ?thesis using read_cache_no_abort [OF demo_run(1) _ demo_good(1) demo_good(1), of demo_key 0 demo_dest 5 "[]"] demo_fits
    by (simp add: demo_key_def)
qed

theorem read_cache_drains_witness:
  "\<exists>ds s'. rc_run demo_resp demo_resp (demo_state 0 (Miss 0 demo_key 0 demo_dest Created)) ds s' \<and> s_reqs s' = {#}
     \<and> list_all idle_entry (rc_state (s_cache s'))"
  using read_cache_drains [OF demo_run(1) _ demo_good(1) demo_good] by auto

end
