(* ===== verification/Read_Cache_Chunks.thy ===== *)
theory Read_Cache_Chunks
  imports Read_Cache_Correct
begin

text \<open>
  The sharded front of the read cache: cutting an object into chunks.
\<close>

lemma object_chunks_step:
  assumes "pos < int (length dat)"
  shows "object_chunks junk pf n dat pos =
    ((pf, n, pos), take (nat (min (int (length dat) - pos) CACHE_CHUNK_SIZE)) (drop (nat pos) dat)
        @ drop (nat (min (int (length dat) - pos) CACHE_CHUNK_SIZE)) junk)
      # object_chunks junk pf n dat (pos + min (int (length dat) - pos) CACHE_CHUNK_SIZE)"
  using assms by (subst object_chunks.simps) (simp add: Let_def)

lemma object_chunks_end: "int (length dat) \<le> pos \<Longrightarrow> object_chunks junk pf n dat pos = []"
  by (subst object_chunks.simps) simp

lemma piece_good:
  assumes "0 \<le> pos" "pos < int (length dat)" "int (length junk) = CACHE_CHUNK_SIZE" "objs pf n = dat"
  shows "good objs (pf, n, pos) (take (nat (min (int (length dat) - pos) CACHE_CHUNK_SIZE)) (drop (nat pos) dat)
        @ drop (nat (min (int (length dat) - pos) CACHE_CHUNK_SIZE)) junk)"
proof -
  define t where "t = nat (min (int (length dat) - pos) CACHE_CHUNK_SIZE)"
  have C: "0 < CACHE_CHUNK_SIZE" by (simp add: CACHE_CHUNK_SIZE_def)
  have t: "t \<le> length dat - nat pos" "t \<le> length junk" "t = length dat - nat pos \<or> t = length junk"
    using assms C by (auto simp: t_def min_def)
  have "(take t (drop (nat pos) dat) @ drop t junk) ! i = dat ! nat (pos + int i)"
    if "i < length junk" "pos + int i < int (length dat)" for i
  proof -
    have "i < t" using t(3) that assms(1) by auto
    moreover have "nat (pos + int i) = nat pos + i" using assms(1) by (simp add: nat_add_distrib)
    ultimately show ?thesis using t that assms(1,2) by (simp add: nth_append)
  qed
  then show ?thesis using t assms(3,4) by (auto simp: good_def t_def [symmetric])
qed

lemma aligned_in_chunk:
  assumes "a mod c = 0" "b mod c = 0" "a \<le> b" "b < a + (c :: int)"
  shows "b = a"
proof -
  have "c dvd b - a" using assms(1,2) by (simp add: mod_eq_0_iff_dvd)
  then show ?thesis using zdvd_imp_le [of c "b - a"] assms(3,4) by (cases "b = a") auto
qed

lemma object_chunks_aux:
  assumes "0 \<le> pos" "pos mod CACHE_CHUNK_SIZE = 0 \<or> int (length dat) \<le> pos" "int (length junk) = CACHE_CHUNK_SIZE" "objs pf n = dat"
  shows "(\<forall>x \<in> set (object_chunks junk pf n dat pos). good objs (fst x) (snd x))
    \<and> distinct (map fst (object_chunks junk pf n dat pos))
    \<and> fst ` set (object_chunks junk pf n dat pos) = {(pf, n, q) | q. pos \<le> q \<and> q < int (length dat) \<and> q mod CACHE_CHUNK_SIZE = 0}"
  using assms
proof (induction "nat (int (length dat) - pos)" arbitrary: pos rule: less_induct)
  case less
  have C: "0 < CACHE_CHUNK_SIZE" by (simp add: CACHE_CHUNK_SIZE_def)
  show ?case
  proof (cases "pos < int (length dat)")
    case False
    then show ?thesis by (auto simp: object_chunks_end)
  next
    case True
    define t where "t = min (int (length dat) - pos) CACHE_CHUNK_SIZE"
    have al: "pos mod CACHE_CHUNK_SIZE = 0" using less.prems(2) True by simp
    have t: "0 < t" "t \<le> CACHE_CHUNK_SIZE" "t = CACHE_CHUNK_SIZE \<or> pos + t = int (length dat)" using True C by (auto simp: t_def)
    have al': "(pos + t) mod CACHE_CHUNK_SIZE = 0 \<or> int (length dat) \<le> pos + t" using t(3) al by auto
    have "nat (int (length dat) - (pos + t)) < nat (int (length dat) - pos)" "0 \<le> pos + t" using t(1) True less.prems(1) by simp_all
    note IH = less.hyps [OF this al' less.prems(3,4)]
    have "{(pf, n, q) | q. pos \<le> q \<and> q < int (length dat) \<and> q mod CACHE_CHUNK_SIZE = 0}
        = insert (pf, n, pos) {(pf, n, q) | q. pos + t \<le> q \<and> q < int (length dat) \<and> q mod CACHE_CHUNK_SIZE = 0}"
      using True al t aligned_in_chunk [OF al] by (auto simp: not_le)
    then show ?thesis
      using IH t(1) piece_good [where objs = objs, OF less.prems(1) True less.prems(3,4)]
      unfolding object_chunks_step [OF True] t_def [symmetric] by auto
  qed
qed

text \<open>
  Cutting an object for the cache. The chunks that \<^verbatim>\<open>sharded_cache::insert_object\<close> makes of an
  object hold the object's bytes, whatever the memory behind its end held; they have different keys,
  and their keys are exactly the chunk-aligned offsets inside the object, so that the reads of
  \<^verbatim>\<open>make_read_req\<close> find them.
\<close>

theorem object_chunks_cover:
  assumes "int (length junk) = CACHE_CHUNK_SIZE" "objs pf n = dat"
  shows "(\<forall>x \<in> set (object_chunks junk pf n dat 0). good objs (fst x) (snd x))
    \<and> distinct (map fst (object_chunks junk pf n dat 0))
    \<and> fst ` set (object_chunks junk pf n dat 0) = {(pf, n, q) | q. 0 \<le> q \<and> q < int (length dat) \<and> q mod CACHE_CHUNK_SIZE = 0}"
  by (rule object_chunks_aux) (use assms in simp_all)

theorem object_chunks_cover_witness:
  "(''img'', 7, 65536) \<in> fst ` set (object_chunks (replicate 65536 1) ''img'' 7 (replicate 100000 2) 0)"
proof -
  have "fst ` set (object_chunks (replicate 65536 1) ''img'' 7 (replicate 100000 2) 0)
      = {(''img'', 7, q) | q. 0 \<le> q \<and> q < int (length (replicate 100000 (2 :: byte))) \<and> q mod CACHE_CHUNK_SIZE = 0}"
    using object_chunks_cover [of "replicate 65536 1" "\<lambda>_ _. replicate 100000 2" "''img''" 7 "replicate 100000 2"]
    unfolding CACHE_CHUNK_SIZE_def length_replicate by simp
  then show ?thesis unfolding length_replicate by (simp add: CACHE_CHUNK_SIZE_def)
qed

end
