(* ===== verification/Journal.thy ===== *)
theory Journal
  imports Objects_Codec
begin

text \<open>
  The formats of the write journal (\<^verbatim>\<open>journal.h\<close>): the packed structs with their encodings and
  decodings, and that a decoding gives back what was encoded.
\<close>

section \<open>Structs\<close>

definition LSVD_J_DATA :: int where
  "LSVD_J_DATA = 10"

definition LSVD_J_PAD :: int where
  "LSVD_J_PAD = 12"

definition LSVD_J_W_SUPER :: int where
  "LSVD_J_W_SUPER = 14"

record j_extent =
  je_lba :: int
  je_len :: int

definition enc_j_extent :: "j_extent \<Rightarrow> byte list" where
  "enc_j_extent e = le_bytes 8 (ubf 40 (je_lba e) + 2 ^ 40 * ubf 24 (je_len e))"

definition dec_j_extent :: "byte list \<Rightarrow> nat \<Rightarrow> j_extent" where
  "dec_j_extent buf p = (let v = get_le buf p 8 in \<lparr>je_lba = ubf 40 v, je_len = ubf 24 (v div 2 ^ 40)\<rparr>)"

record j_hdr =
  jh_magic :: int
  jh_type :: int
  jh_version :: int
  jh_len :: int
  jh_seq :: int
  jh_crc32 :: int
  jh_extent_offset :: int
  jh_extent_len :: int
  jh_prev :: int

definition sizeof_j_hdr :: nat where
  "sizeof_j_hdr = 40"

definition enc_j_hdr :: "j_hdr \<Rightarrow> byte list" where
  "enc_j_hdr h =
     le_bytes 4 (jh_magic h) @ le_bytes 4 (jh_type h) @ le_bytes 4 (jh_version h) @ le_bytes 4 (jh_len h)
     @ le_bytes 8 (jh_seq h) @ le_bytes 4 (jh_crc32 h) @ le_bytes 4 (jh_extent_offset h)
     @ le_bytes 4 (jh_extent_len h) @ le_bytes 4 (jh_prev h)"

definition dec_j_hdr :: "byte list \<Rightarrow> nat \<Rightarrow> j_hdr" where
  "dec_j_hdr buf p =
     \<lparr>jh_magic = get_le buf p 4, jh_type = get_le buf (p + 4) 4, jh_version = get_le buf (p + 8) 4,
      jh_len = sbf 32 (get_le buf (p + 12) 4), jh_seq = get_le buf (p + 16) 8, jh_crc32 = get_le buf (p + 24) 4,
      jh_extent_offset = sbf 32 (get_le buf (p + 28) 4), jh_extent_len = sbf 32 (get_le buf (p + 32) 4),
      jh_prev = sbf 32 (get_le buf (p + 36) 4)\<rparr>"

record j_write_super =
  jw_magic :: int
  jw_type :: int
  jw_version :: int
  jw_clean :: int
  jw_seq :: int
  jw_meta_base :: int
  jw_meta_limit :: int
  jw_base :: int
  jw_limit :: int
  jw_next :: int
  jw_map_start :: int
  jw_map_blocks :: int
  jw_map_entries :: int
  jw_len_start :: int
  jw_len_blocks :: int
  jw_len_entries :: int
  jw_vol_uuid :: "byte list"

definition sizeof_j_write_super :: nat where
  "sizeof_j_write_super = 84"

definition enc_j_write_super :: "j_write_super \<Rightarrow> byte list" where
  "enc_j_write_super s =
     le_bytes 4 (jw_magic s) @ le_bytes 4 (jw_type s) @ le_bytes 4 (jw_version s) @ le_bytes 4 (jw_clean s)
     @ le_bytes 8 (jw_seq s) @ le_bytes 4 (jw_meta_base s) @ le_bytes 4 (jw_meta_limit s)
     @ le_bytes 4 (jw_base s) @ le_bytes 4 (jw_limit s) @ le_bytes 4 (jw_next s)
     @ le_bytes 4 (jw_map_start s) @ le_bytes 4 (jw_map_blocks s) @ le_bytes 4 (jw_map_entries s)
     @ le_bytes 4 (jw_len_start s) @ le_bytes 4 (jw_len_blocks s) @ le_bytes 4 (jw_len_entries s)
     @ jw_vol_uuid s"

definition dec_j_write_super :: "byte list \<Rightarrow> nat \<Rightarrow> j_write_super" where
  "dec_j_write_super buf p =
     \<lparr>jw_magic = get_le buf p 4, jw_type = get_le buf (p + 4) 4, jw_version = get_le buf (p + 8) 4,
      jw_clean = get_le buf (p + 12) 4, jw_seq = get_le buf (p + 16) 8,
      jw_meta_base = sbf 32 (get_le buf (p + 24) 4), jw_meta_limit = sbf 32 (get_le buf (p + 28) 4),
      jw_base = sbf 32 (get_le buf (p + 32) 4), jw_limit = sbf 32 (get_le buf (p + 36) 4),
      jw_next = sbf 32 (get_le buf (p + 40) 4),
      jw_map_start = sbf 32 (get_le buf (p + 44) 4), jw_map_blocks = sbf 32 (get_le buf (p + 48) 4),
      jw_map_entries = sbf 32 (get_le buf (p + 52) 4),
      jw_len_start = sbf 32 (get_le buf (p + 56) 4), jw_len_blocks = sbf 32 (get_le buf (p + 60) 4),
      jw_len_entries = sbf 32 (get_le buf (p + 64) 4),
      jw_vol_uuid = get_bytes buf (p + 68) 16\<rparr>"

section \<open>Decoding\<close>

definition s32 :: "int \<Rightarrow> bool" where
  "s32 v \<longleftrightarrow> - (2 ^ 31) \<le> v \<and> v < 2 ^ 31"

lemma s32_mod: "s32 v \<Longrightarrow> sbf 32 (v mod 4294967296) = v"
  using sbf_mod [of 32 v] sbf_id [of 32 v] by (simp add: s32_def)

lemma length_enc_j_extent [simp]: "length (enc_j_extent e) = 8"
  by (simp add: enc_j_extent_def)

lemma dec_enc_j_extent:
  assumes "0 \<le> je_lba e" "je_lba e < 2 ^ 40" "0 \<le> je_len e" "je_len e < 2 ^ 24"
  shows "dec_j_extent (p @ enc_j_extent e @ q) (length p) = e"
proof -
  have "ubf 40 (je_lba e) = je_lba e" "ubf 24 (je_len e) = je_len e" using assms by (simp_all add: ubf_id)
  moreover have "ubf 40 (je_lba e + 2 ^ 40 * je_len e) = je_lba e" using assms by (simp add: ubf_def take_bit_eq_mod)
  ultimately show ?thesis
    using assms unfolding dec_j_extent_def get_skips enc_j_extent_def by (simp add: get_le_def Let_def)
qed

definition j_hdr_ok :: "j_hdr \<Rightarrow> bool" where
  "j_hdr_ok h \<longleftrightarrow> u32 (jh_magic h) \<and> u32 (jh_type h) \<and> u32 (jh_version h) \<and> s32 (jh_len h) \<and> u64 (jh_seq h)
     \<and> u32 (jh_crc32 h) \<and> s32 (jh_extent_offset h) \<and> s32 (jh_extent_len h) \<and> s32 (jh_prev h)"

lemma length_enc_j_hdr [simp]: "length (enc_j_hdr h) = 40"
  by (simp add: enc_j_hdr_def)

lemma dec_enc_j_hdr:
  assumes "j_hdr_ok h"
  shows "dec_j_hdr (p @ enc_j_hdr h @ q) (length p) = h"
  using assms unfolding dec_j_hdr_def get_skips enc_j_hdr_def
  by (simp add: get_le_def j_hdr_ok_def u32_def u64_def s32_mod)

definition j_super_ok :: "j_write_super \<Rightarrow> bool" where
  "j_super_ok s \<longleftrightarrow> u32 (jw_magic s) \<and> u32 (jw_type s) \<and> u32 (jw_version s) \<and> u32 (jw_clean s) \<and> u64 (jw_seq s)
     \<and> s32 (jw_meta_base s) \<and> s32 (jw_meta_limit s) \<and> s32 (jw_base s) \<and> s32 (jw_limit s) \<and> s32 (jw_next s)
     \<and> s32 (jw_map_start s) \<and> s32 (jw_map_blocks s) \<and> s32 (jw_map_entries s)
     \<and> s32 (jw_len_start s) \<and> s32 (jw_len_blocks s) \<and> s32 (jw_len_entries s) \<and> length (jw_vol_uuid s) = 16"

lemma length_enc_j_super [simp]: "length (jw_vol_uuid s) = 16 \<Longrightarrow> length (enc_j_write_super s) = 84"
  by (simp add: enc_j_write_super_def)

lemma dec_enc_j_super:
  assumes "j_super_ok s"
  shows "dec_j_write_super (p @ enc_j_write_super s @ q) (length p) = s"
  using assms unfolding dec_j_write_super_def get_skips enc_j_write_super_def
  by (simp add: get_le_def get_bytes_def j_super_ok_def u32_def u64_def s32_mod)

end
