(* ===== verification/Write_Cache.thy ===== *)
theory Write_Cache
  imports Journal Translate Read_Cache
begin

text \<open>
  The write cache (\<^verbatim>\<open>write_cache.cc\<close>): a journal of 4096-byte pages on a local device. Requests to
  the device are recorded as pairs of a byte offset and the bytes written. A wait on a condition
  variable makes an operation not enabled, which is \<open>None\<close>; a failed assertion is \<open>Abort\<close>.
\<close>

section \<open>State\<close>

definition SUPER_BLOCKNO :: int where
  "SUPER_BLOCKNO = 1"

text \<open>\<open>w_super\<close> and \<open>w_super_rest\<close> are the 4096 bytes behind the pointer \<^verbatim>\<open>super\<close>.\<close>

record wcache =
  w_sequence :: int
  w_total_write_pages :: int
  w_max_write_pages :: int
  w_outstanding_writes :: int
  w_write_batch :: int
  w_super :: j_write_super
  w_super_rest :: "byte list"
  w_previous_hdr :: int
  w_next_alloc :: int

type_synonym dev_write = "int \<times> byte list"

section \<open>Throttling\<close>

definition reserve_room :: "int \<Rightarrow> wcache \<Rightarrow> wcache option" where
  "reserve_room sectors w =
     (let pages = sbf 32 (cdiv sectors 8)
      in if w_max_write_pages w < w_total_write_pages w + pages then None
         else Some (w\<lparr>w_total_write_pages := w_total_write_pages w + pages\<rparr>))"

definition release_room :: "int \<Rightarrow> wcache \<Rightarrow> wcache" where
  "release_room sectors w =
     w\<lparr>w_total_write_pages := w_total_write_pages w - sbf 32 (cdiv sectors 8)\<rparr>"

definition wc_flush :: "wcache \<Rightarrow> wcache option" where
  "wc_flush w = (if 0 < w_total_write_pages w \<or> 0 < w_outstanding_writes w then None else Some w)"

section \<open>Journal records\<close>

text \<open>The result: the page of the header, the page and the length of the pad, the previous header.\<close>

definition allocate :: "int \<Rightarrow> wcache \<Rightarrow> ((int \<times> int \<times> int \<times> int) \<times> wcache) outcome" where
  "allocate n w =
     (let base = jw_base (w_super w); lim = jw_limit (w_super w); next = w_next_alloc w
      in if \<not> 0 < n \<or> \<not> (base \<le> next \<and> next < lim) then Abort
         else
           let (pad, n_pad, start) = (if lim - next < n then (next, lim - next, base) else (0, 0, next));
               next' = start + n
           in Done ((start, pad, n_pad, w_previous_hdr w),
                w\<lparr>w_previous_hdr := start, w_next_alloc := (if next' = lim then base else next')\<rparr>))"

definition mk_header :: "int \<Rightarrow> int \<Rightarrow> int \<Rightarrow> wcache \<Rightarrow> j_hdr \<times> wcache" where
  "mk_header type blks prev w =
     (\<lparr>jh_magic = LSVD_MAGIC, jh_type = type, jh_version = 1, jh_len = blks, jh_seq = w_sequence w, jh_crc32 = 0,
       jh_extent_offset = 0, jh_extent_len = 0, jh_prev = prev\<rparr>,
      w\<lparr>w_sequence := ubf 64 (w_sequence w + 1)\<rparr>)"

definition page_of :: "byte list \<Rightarrow> byte list" where
  "page_of bs = bs @ replicate (4096 - length bs) 0"

definition pad_out :: "int \<Rightarrow> byte list" where
  "pad_out pages = replicate (nat (4096 * pages)) 0"

text \<open>The bytes of a list of buffers.\<close>

definition iov_data :: "memory \<Rightarrow> smartiov \<Rightarrow> byte list" where
  "iov_data mem iov = concat (map (\<lambda>v. load_bytes mem (iov_base v) (iov_len v)) iov)"

text \<open>
  The constructor of \<^verbatim>\<open>wcache_write_req\<close>: the writes to the device in the order in which \<^verbatim>\<open>run\<close>
  issues them, and the sequence number of the record.
\<close>

definition wcache_write_req ::
  "memory \<Rightarrow> int \<Rightarrow> smartiov \<Rightarrow> int \<Rightarrow> int \<Rightarrow> int \<Rightarrow> int \<Rightarrow> int \<Rightarrow> wcache \<Rightarrow> (dev_write list \<times> int) \<times> wcache" where
  "wcache_write_req mem lba iovs n_pages page n_pad pad prev w =
     (let (pads, prev', w1) =
            (if pad \<noteq> 0
             then let (h, w') = mk_header LSVD_J_PAD (n_pad + 1) prev w
                  in ([(pad * 4096, page_of (enc_j_hdr h) @ pad_out n_pad)], pad, w')
             else ([], prev, w));
          (j, w2) = mk_header LSVD_J_DATA (1 + n_pages) prev' w1;
          extents = [\<lparr>je_lba = ubf 40 lba, je_len = ubf 24 (bytes iovs div 512)\<rparr>];
          j' = j\<lparr>jh_extent_offset := int sizeof_j_hdr, jh_extent_len := int (length extents) * 8\<rparr>;
          hdr = page_of (enc_j_hdr j' @ concat (map enc_j_extent extents))
      in ((pads @ [(page * 4096, hdr @ iov_data mem (ingest [] iovs))], jh_seq j'), w2))"

text \<open>\<^verbatim>\<open>notify\<close> of a write request that \<open>reqs\<close> device writes are still missing for.\<close>

definition write_req_notify :: "int \<Rightarrow> wcache \<Rightarrow> (int \<times> bool) \<times> wcache" where
  "write_req_notify reqs w =
     (if 0 < reqs - 1 then ((reqs - 1, False), w)
      else ((reqs - 1, True), w\<lparr>w_outstanding_writes := w_outstanding_writes w - 1\<rparr>))"

text \<open>
  \<^verbatim>\<open>writev\<close> up to the release of the lock, and then the write into the translation layer; \<open>p\<close> is
  the address of the next batch buffer.
\<close>

definition writev_journal :: "memory \<Rightarrow> int \<Rightarrow> smartiov \<Rightarrow> wcache \<Rightarrow> ((dev_write list \<times> int) \<times> wcache) outcome" where
  "writev_journal mem lba iovs w =
     (let pages = div_round_up (bytes iovs) 4096
      in case allocate (pages + 1) w of
           Abort \<Rightarrow> Abort
         | Done ((page, pad, n_pad, prev), w1) \<Rightarrow>
             let (req, w2) = wcache_write_req mem lba iovs pages page (n_pad - 1) pad prev w1
             in Done (req, w2\<lparr>w_outstanding_writes := w_outstanding_writes w2 + 1\<rparr>))"

definition wc_writev :: "int \<Rightarrow> int \<Rightarrow> smartiov \<Rightarrow> wcache \<Rightarrow> tstate \<Rightarrow> (dev_write list \<times> wcache \<times> tstate) outcome" where
  "wc_writev p lba iovs w st =
     (case writev_journal (t_mem st) lba iovs w of
        Abort \<Rightarrow> Abort
      | Done ((ws, seq), w') \<Rightarrow>
          (case writev p st (lba * 512) iovs of
             None \<Rightarrow> Abort
           | Some st' \<Rightarrow> Done (ws, w', st')))"

section \<open>The superblock of the journal\<close>

text \<open>The operations on the file and the device that can fail; \<open>fail\<close> gives the error number.\<close>

datatype io_op = Op_create | Op_pwrite | Op_ftruncate | Op_open | Op_pread | Op_read | Op_write

definition wc_checkpoint_super :: "wcache \<Rightarrow> j_write_super" where
  "wc_checkpoint_super w =
     (w_super w)\<lparr>jw_seq := w_sequence w, jw_next := 0, jw_map_start := 0, jw_map_blocks := 0, jw_map_entries := 0,
       jw_len_start := 0, jw_len_blocks := 0, jw_len_entries := 0, jw_clean := 1\<rparr>"

definition wc_write_checkpoint :: "(io_op \<Rightarrow> int option) \<Rightarrow> wcache \<Rightarrow> byte list \<Rightarrow> exn + byte list" where
  "wc_write_checkpoint fail w dev =
     (case fail Op_write of
        Some e \<Rightarrow> Inl (Errno e)
      | None \<Rightarrow> Inr (put_bytes dev 4096 (enc_j_write_super (wc_checkpoint_super w) @ w_super_rest w)))"

definition roll_log_forward :: "wcache \<Rightarrow> int \<times> wcache" where
  "roll_log_forward w = (0, w)"

definition new_write_cache :: "(io_op \<Rightarrow> int option) \<Rightarrow> lsvd_config \<Rightarrow> byte list \<Rightarrow> exn + (wcache \<times> byte list)" where
  "new_write_cache fail cfg dev =
     (case fail Op_read of
        Some e \<Rightarrow> Inl (Errno e)
      | None \<Rightarrow>
          let b = get_bytes dev 4096 4096; super = dec_j_write_super b 0
          in if length b < 4096 then Inl (Msg ''Short read on wlog header'')
             else if jw_magic super \<noteq> LSVD_MAGIC then Inl (Msg ''Invalid magic in wlog sub-hdr'')
             else
               let w0 = \<lparr>w_sequence = 1, w_total_write_pages = 0, w_max_write_pages = 0, w_outstanding_writes = 0,
                         w_write_batch = 0, w_super = super, w_super_rest = drop sizeof_j_write_super b,
                         w_previous_hdr = 0, w_next_alloc = 0\<rparr>;
                   (r, w1) = (if jw_clean super \<noteq> 0 then (0, w0\<lparr>w_sequence := jw_seq super\<rparr>) else roll_log_forward w0)
               in if r < 0 then Inl (Msg ''write log roll-forward failed'')
                  else
                    let super' = super\<lparr>jw_clean := 0\<rparr>;
                        n_pages = sbf 32 (jw_limit super - jw_base super);
                        w2 = w1\<lparr>w_super := super', w_next_alloc := jw_base super,
                               w_max_write_pages := cdiv n_pages 2 + cdiv n_pages 4,
                               w_write_batch := wlog_write_window cfg\<rparr>
                    in (case fail Op_write of
                          Some e \<Rightarrow> Inl (Errno e)
                        | None \<Rightarrow> Inr (w2, put_bytes dev 4096 (enc_j_write_super super' @ drop sizeof_j_write_super b))))"

definition init_hdr :: "int \<Rightarrow> j_hdr" where
  "init_hdr total_pages =
     \<lparr>jh_magic = LSVD_MAGIC, jh_type = LSVD_J_DATA, jh_version = 1, jh_len = total_pages, jh_seq = 0, jh_crc32 = 0,
      jh_extent_offset = 0, jh_extent_len = 0, jh_prev = 0\<rparr>"

definition init_super :: "byte list \<Rightarrow> int \<Rightarrow> j_write_super" where
  "init_super uuid total_pages =
     (let content_pages = sbf 32 (total_pages - 2);
          m = div_round_up content_pages 256;
          l = div_round_up content_pages 512;
          meta_pages = sbf 32 (2 * (m + l));
          data_pages = sbf 32 (content_pages - meta_pages)
      in \<lparr>jw_magic = LSVD_MAGIC, jw_type = LSVD_J_W_SUPER, jw_version = 1, jw_clean = 1, jw_seq = 1, jw_meta_base = 1,
          jw_meta_limit = sbf 32 (1 + meta_pages), jw_base = sbf 32 (1 + meta_pages),
          jw_limit = sbf 32 (1 + meta_pages + data_pages), jw_next = sbf 32 (1 + meta_pages),
          jw_map_start = 0, jw_map_blocks = 0, jw_map_entries = 0, jw_len_start = 0, jw_len_blocks = 0,
          jw_len_entries = 0, jw_vol_uuid = uuid\<rparr>)"

text \<open>
  The content of the new file. \<^verbatim>\<open>ftruncate\<close> gives it its length, zero bytes added; the product that
  it gets is computed in 32 bits, and it refuses a negative length.
\<close>

definition EINVAL :: int where
  "EINVAL = 22"

definition init_wcache :: "(io_op \<Rightarrow> int option) \<Rightarrow> byte list \<Rightarrow> int \<Rightarrow> int + byte list" where
  "init_wcache fail uuid cache_size =
     (let total_pages = sbf 32 (cache_size div 4096);
          b = page_of (enc_j_hdr (init_hdr total_pages)) @ page_of (enc_j_write_super (init_super uuid total_pages))
      in case fail Op_pwrite of
           Some e \<Rightarrow> Inl e
         | None \<Rightarrow>
             (case fail Op_ftruncate of
                Some e \<Rightarrow> Inl e
              | None \<Rightarrow>
                  let n = sbf 32 (4096 * total_pages)
                  in if n < 0 then Inl EINVAL else Inr (resize b (nat n))))"

text \<open>
  The file is \<open>None\<close> when it does not exist. The result is \<^verbatim>\<open>nullptr\<close> (\<open>None\<close>) or the cache with
  the new content of the file.
\<close>

definition open_wlog :: "(io_op \<Rightarrow> int option) \<Rightarrow> byte list \<Rightarrow> lsvd_config \<Rightarrow> byte list option \<Rightarrow> (wcache \<times> byte list) option" where
  "open_wlog fail uuid cfg content =
     (let dev = (case content of
            None \<Rightarrow>
              if fail Op_create \<noteq> None then None
              else (case init_wcache fail uuid (wlog_bytes cfg) of Inl e \<Rightarrow> None | Inr b \<Rightarrow> Some b)
          | Some b \<Rightarrow> if fail Op_open \<noteq> None then None else Some b)
      in case dev of
           None \<Rightarrow> None
         | Some b \<Rightarrow>
             let h = dec_j_hdr (get_bytes b 0 4096) 0
             in if fail Op_pread \<noteq> None \<or> jh_magic h \<noteq> LSVD_MAGIC \<or> jh_type h \<noteq> LSVD_J_DATA then None
                else (case new_write_cache fail cfg b of Inl e \<Rightarrow> None | Inr r \<Rightarrow> Some r))"

end
