(* ===== verification/Write_Cache_Ring.thy ===== *)
theory Write_Cache_Ring
  imports Write_Cache
begin

text \<open>
  The journal as a ring of pages: allocation stays inside the ring, and as long as the records take
  no more pages than the ring has, no record overwrites another.
\<close>

section \<open>Allocation\<close>

abbreviation jbase :: "wcache \<Rightarrow> int" where
  "jbase w \<equiv> jw_base (w_super w)"

abbreviation jlimit :: "wcache \<Rightarrow> int" where
  "jlimit w \<equiv> jw_limit (w_super w)"

definition ring_ok :: "wcache \<Rightarrow> bool" where
  "ring_ok w \<longleftrightarrow> 0 < jbase w \<and> jbase w \<le> w_next_alloc w \<and> w_next_alloc w < jlimit w \<and> jlimit w < 2 ^ 31"

text \<open>The pages of a record with its pad, in the order in which they are taken.\<close>

definition taken_pages :: "int \<Rightarrow> int \<times> int \<times> int \<times> int \<Rightarrow> int list" where
  "taken_pages n a = (case a of (start, pad, n_pad, prev) \<Rightarrow> [pad..pad + n_pad - 1] @ [start..start + n - 1])"

text \<open>The page that follows \<open>k\<close> others on an endless tape wound around the ring.\<close>

definition ring_page :: "wcache \<Rightarrow> int \<Rightarrow> int" where
  "ring_page w k = jbase w + k mod (jlimit w - jbase w)"

lemma allocate_cases:
  assumes "ring_ok w" "0 < n" "n \<le> jlimit w - jbase w"
  obtains start pad n_pad w' where "allocate n w = Done ((start, pad, n_pad, w_previous_hdr w), w')"
    "w' = w\<lparr>w_previous_hdr := start, w_next_alloc := w_next_alloc w'\<rparr>" "ring_ok w'"
    "jbase w \<le> start" "start + n \<le> jlimit w"
    "pad = 0 \<and> n_pad = 0 \<and> start = w_next_alloc w \<or> pad = w_next_alloc w \<and> pad + n_pad = jlimit w \<and> 0 < n_pad \<and> start = jbase w"
    "w_next_alloc w' = (if start + n = jlimit w then jbase w else start + n)"
proof (cases "jlimit w - w_next_alloc w < n")
  case True
  then show ?thesis
    using assms by (intro that [of "jbase w" "w_next_alloc w" "jlimit w - w_next_alloc w"
          "w\<lparr>w_previous_hdr := jbase w, w_next_alloc := (if jbase w + n = jlimit w then jbase w else jbase w + n)\<rparr>"])
      (auto simp: allocate_def ring_ok_def Let_def)
next
  case False
  then show ?thesis
    using assms by (intro that [of "w_next_alloc w" 0 0
          "w\<lparr>w_previous_hdr := w_next_alloc w, w_next_alloc := (if w_next_alloc w + n = jlimit w then jbase w else w_next_alloc w + n)\<rparr>"])
      (auto simp: allocate_def ring_ok_def Let_def)
qed

lemma upto_ring:
  assumes "0 \<le> m" "k mod N + m \<le> (N :: int)" "0 < N"
  shows "map (\<lambda>j. b + j mod N) [k..k + m - 1] = [b + k mod N..b + k mod N + m - 1]"
proof (rule nth_equalityI)
  show "length (map (\<lambda>j. b + j mod N) [k..k + m - 1]) = length [b + k mod N..b + k mod N + m - 1]" by simp
  fix i assume "i < length (map (\<lambda>j. b + j mod N) [k..k + m - 1])"
  then have i: "i < nat m" by simp
  have "(k + int i) mod N = k mod N + int i"
  proof -
    have "(k mod N + int i) mod N = k mod N + int i" using i assms by (intro mod_pos_pos_trivial) auto
    then show ?thesis by (simp add: mod_add_left_eq)
  qed
  then show "map (\<lambda>j. b + j mod N) [k..k + m - 1] ! i = [b + k mod N..b + k mod N + m - 1] ! i"
    using i by (simp add: upto_nth)
qed

lemma upto_append: "a \<le> b \<Longrightarrow> b \<le> c + 1 \<Longrightarrow> [a..b - 1] @ [b..c] = [a..c]" for a b c :: int
  by (rule nth_equalityI) (auto simp: nth_append nth_upto)

lemma allocate_tape:
  assumes ok: "ring_ok w" and n: "0 < n" "n \<le> jlimit w - jbase w" and k: "w_next_alloc w = ring_page w k"
    and al: "allocate n w = Done (a, w')"
  obtains m where "n \<le> m" "taken_pages n a = map (ring_page w) [k..k + m - 1]" "w_next_alloc w' = ring_page w (k + m)"
    "ring_ok w'" "w_super w' = w_super w"
proof -
  define N where "N = jlimit w - jbase w"
  have N: "0 < N" using ok by (simp add: N_def ring_ok_def)
  have nx: "w_next_alloc w = jbase w + k mod N" "0 \<le> k mod N" "k mod N < N" using k N by (simp_all add: ring_page_def N_def)
  obtain start pad n_pad w1 where A: "allocate n w = Done ((start, pad, n_pad, w_previous_hdr w), w1)"
    "w1 = w\<lparr>w_previous_hdr := start, w_next_alloc := w_next_alloc w1\<rparr>" "ring_ok w1"
    "jbase w \<le> start" "start + n \<le> jlimit w"
    "pad = 0 \<and> n_pad = 0 \<and> start = w_next_alloc w \<or> pad = w_next_alloc w \<and> pad + n_pad = jlimit w \<and> 0 < n_pad \<and> start = jbase w"
    "w_next_alloc w1 = (if start + n = jlimit w then jbase w else start + n)"
    by (rule allocate_cases [OF ok n])
  have a: "a = (start, pad, n_pad, w_previous_hdr w)" "w' = w1" using A(1) al by simp_all
  have sup: "w_super w1 = w_super w" by (subst A(2)) simp
  have mf: "ring_page w = (\<lambda>j. jbase w + j mod N)" by (simp add: ring_page_def N_def fun_eq_iff)
  have nxt: "w_next_alloc w1 = jbase w + (start - jbase w + n) mod N"
  proof (cases "start + n = jlimit w")
    case True
    then have "start - jbase w + n = N" by (simp add: N_def)
    then show ?thesis using A(7) True by simp
  next
    case False
    then have "(start - jbase w + n) mod N = start - jbase w + n" using A(4,5) n(1) by (intro mod_pos_pos_trivial) (simp_all add: N_def)
    then show ?thesis using A(7) False by simp
  qed
  from A(6) show thesis
  proof
    assume c: "pad = 0 \<and> n_pad = 0 \<and> start = w_next_alloc w"
    then have st: "start = jbase w + k mod N" using nx by simp
    then have "taken_pages n a = map (ring_page w) [k..k + n - 1]"
      using upto_ring [of n k N "jbase w"] N n(1) A(5) c a by (simp add: taken_pages_def mf N_def)
    moreover have "w_next_alloc w' = ring_page w (k + n)" using nxt st a by (simp add: mf mod_add_left_eq)
    ultimately show thesis using that [of n] A(3) sup a by simp
  next
    assume c: "pad = w_next_alloc w \<and> pad + n_pad = jlimit w \<and> 0 < n_pad \<and> start = jbase w"
    then have np: "n_pad = N - k mod N" using nx by (simp add: N_def)
    have "k + n_pad = N * (k div N + 1)" unfolding np using minus_mod_eq_mult_div [of k N] by (simp add: distrib_left)
    then have z: "(k + n_pad) mod N = 0" by simp
    have p: "map (ring_page w) [k..k + n_pad - 1] = [pad..pad + n_pad - 1]"
      using upto_ring [of n_pad k N "jbase w"] N nx np c by (simp add: mf)
    have q: "map (ring_page w) [k + n_pad..k + n_pad + n - 1] = [start..start + n - 1]"
      using upto_ring [of n "k + n_pad" N "jbase w"] N n z c by (simp add: mf N_def)
    have sp: "[k..k + (n_pad + n) - 1] = [k..k + n_pad - 1] @ [k + n_pad..k + n_pad + n - 1]"
      using upto_append [of k "k + n_pad" "k + n_pad + n - 1"] c n(1) by (simp add: add.assoc)
    have "taken_pages n a = map (ring_page w) [k..k + (n_pad + n) - 1]"
      unfolding sp map_append p q a by (simp add: taken_pages_def)
    moreover have "(k + (n_pad + n)) mod N = n mod N" using z by (metis add.assoc add.left_neutral mod_add_left_eq)
    then have "w_next_alloc w' = ring_page w (k + (n_pad + n))" using nxt c a by (simp add: mf)
    ultimately show thesis using that [of "n_pad + n"] A(3) sup a c by simp
  qed
qed

section \<open>Runs of writes\<close>

type_synonym wreq = "memory \<times> int \<times> smartiov"

fun journal_run :: "wreq list \<Rightarrow> wcache \<Rightarrow> ((dev_write list \<times> int) list \<times> wcache) outcome" where
  "journal_run [] w = Done ([], w)"
| "journal_run ((mem, lba, iov) # rs) w =
     (case writev_journal mem lba iov w of
        Abort \<Rightarrow> Abort
      | Done (req, w1) \<Rightarrow>
          (case journal_run rs w1 of
             Abort \<Rightarrow> Abort
           | Done (reqs, w2) \<Rightarrow> Done (req # reqs, w2)))"

definition apply_writes :: "byte list \<Rightarrow> dev_write list \<Rightarrow> byte list" where
  "apply_writes dev ws = foldl (\<lambda>d (off, bs). put_bytes d (nat off) bs) dev ws"

text \<open>The pages that a write covers.\<close>

definition write_pages :: "dev_write \<Rightarrow> int list" where
  "write_pages x = [fst x div 4096..fst x div 4096 + (int (length (snd x)) + 4095) div 4096 - 1]"

definition write_fits :: "byte list \<Rightarrow> dev_write \<Rightarrow> bool" where
  "write_fits dev x \<longleftrightarrow> 0 \<le> fst x \<and> fst x mod 4096 = 0 \<and> fst x + int (length (snd x)) \<le> int (length dev)"

lemma apply_writes_simps [simp]:
  "apply_writes dev [] = dev" "apply_writes dev (x # ws) = apply_writes (put_bytes dev (nat (fst x)) (snd x)) ws"
  by (simp_all add: apply_writes_def split: prod.splits)

lemma put_bytes_nil: "put_bytes d p [] = d"
  by (simp add: put_bytes_def)

lemma in_write_pages:
  assumes "0 \<le> fst x" "fst x mod 4096 = 0" "fst x \<le> a" "a < fst x + int (length (snd x))"
  shows "a div 4096 \<in> set (write_pages x)"
proof -
  have "fst x = 4096 * (fst x div 4096)" using assms(2) by (metis mult_div_mod_eq add.right_neutral)
  then obtain p where p: "fst x = 4096 * p" by blast
  then show ?thesis using assms(3,4) by (simp add: write_pages_def) linarith
qed

lemma length_apply_writes [simp]: "\<forall>x\<in>set ws. write_fits dev x \<Longrightarrow> length (apply_writes dev ws) = length dev"
proof (induction ws arbitrary: dev)
  case (Cons x ws)
  have l: "length (put_bytes dev (nat (fst x)) (snd x)) = length dev"
    using Cons.prems by (intro length_put_bytes) (auto simp: write_fits_def)
  then show ?case using Cons by (simp add: write_fits_def)
qed simp

text \<open>Writes to other pages leave a range of bytes alone.\<close>

lemma apply_writes_other:
  assumes "\<forall>x\<in>set ws. write_fits dev x \<and> set (write_pages x) \<inter> set (write_pages y) = {}"
    "0 \<le> fst y" "fst y mod 4096 = 0" "fst y \<le> a" "a + int n \<le> fst y + int (length (snd y))"
  shows "get_bytes (apply_writes dev ws) (nat a) n = get_bytes dev (nat a) n"
  using assms(1)
proof (induction ws arbitrary: dev)
  case (Cons x ws)
  have x: "write_fits dev x" "set (write_pages x) \<inter> set (write_pages y) = {}" using Cons.prems by simp_all
  have l: "length (put_bytes dev (nat (fst x)) (snd x)) = length dev"
    using x by (intro length_put_bytes) (auto simp: write_fits_def)
  have "nat a + n \<le> nat (fst x) \<or> nat (fst x) + length (snd x) \<le> nat a \<or> n = 0 \<or> snd x = []"
  proof (rule ccontr)
    assume "\<not> ?thesis"
    then have c: "nat (fst x) < nat a + n" "nat a < nat (fst x) + length (snd x)" "0 < n" "0 < length (snd x)" by auto
    let ?b = "max a (fst x)"
    have "fst x \<le> ?b" "?b < fst x + int (length (snd x))" "fst y \<le> ?b" "?b < fst y + int (length (snd y))"
      using c assms(2,4,5) x(1) unfolding write_fits_def by linarith+
    then have "?b div 4096 \<in> set (write_pages x)" "?b div 4096 \<in> set (write_pages y)"
      using in_write_pages x(1) assms(2,3) by (auto simp: write_fits_def)
    then show False using x(2) by blast
  qed
  then have "get_bytes (put_bytes dev (nat (fst x)) (snd x)) (nat a) n = get_bytes dev (nat a) n"
    using x(1) get_put_other [of "nat (fst x)" "snd x" dev "nat a" n] by (auto simp: write_fits_def get_bytes_def put_bytes_nil)
  then show ?case using Cons.IH [of "put_bytes dev (nat (fst x)) (snd x)"] Cons.prems l by (simp add: write_fits_def)
qed simp

lemma apply_writes_get:
  assumes "\<forall>x\<in>set ws. write_fits dev x" "distinct (concat (map write_pages ws))" "y \<in> set ws"
  shows "get_bytes (apply_writes dev ws) (nat (fst y)) (length (snd y)) = snd y"
  using assms
proof (induction ws arbitrary: dev)
  case (Cons x ws)
  have x: "write_fits dev x" using Cons.prems by simp
  have l: "length (put_bytes dev (nat (fst x)) (snd x)) = length dev"
    using x by (intro length_put_bytes) (auto simp: write_fits_def)
  have fits: "\<forall>z\<in>set ws. write_fits (put_bytes dev (nat (fst x)) (snd x)) z" using Cons.prems(1) l by (simp add: write_fits_def)
  show ?case
  proof (cases "y \<in> set ws")
    case True
    then show ?thesis using Cons.IH [OF fits _ True] Cons.prems(2) by simp
  next
    case False
    then have y: "y = x" using Cons.prems(3) by simp
    have "\<forall>z\<in>set ws. write_fits (put_bytes dev (nat (fst x)) (snd x)) z \<and> set (write_pages z) \<inter> set (write_pages y) = {}"
      using fits Cons.prems(2) y by auto
    then have "get_bytes (apply_writes (put_bytes dev (nat (fst x)) (snd x)) ws) (nat (fst y)) (length (snd y))
        = get_bytes (put_bytes dev (nat (fst x)) (snd x)) (nat (fst y)) (length (snd y))"
      by (rule apply_writes_other) (use x y in \<open>auto simp: write_fits_def\<close>)
    then show ?thesis using get_put_same [of "nat (fst x)" "snd x" dev "length (snd x)"] x y by (auto simp: write_fits_def)
  qed
qed simp

section \<open>One write\<close>

definition wreq_ok :: "wcache \<Rightarrow> wreq \<Rightarrow> bool" where
  "wreq_ok w r \<longleftrightarrow> (case r of (mem, lba, iov) \<Rightarrow>
     iov_ok iov \<and> 0 \<le> lba \<and> lba < 2 ^ 40 \<and> bytes iov < 2 ^ 30 \<and> (bytes iov + 4095) div 4096 + 1 \<le> jlimit w - jbase w)"

definition data_page :: "int \<Rightarrow> smartiov \<Rightarrow> int \<Rightarrow> int \<Rightarrow> byte list" where
  "data_page lba iov seq prev =
     page_of (enc_j_hdr \<lparr>jh_magic = LSVD_MAGIC, jh_type = LSVD_J_DATA, jh_version = 1, jh_len = (bytes iov + 4095) div 4096 + 1,
        jh_seq = seq, jh_crc32 = 0, jh_extent_offset = 40, jh_extent_len = 8, jh_prev = prev\<rparr>
      @ enc_j_extent \<lparr>je_lba = lba, je_len = bytes iov div 512\<rparr>)"

definition pad_page :: "int \<Rightarrow> int \<Rightarrow> int \<Rightarrow> byte list" where
  "pad_page n seq prev =
     page_of (enc_j_hdr \<lparr>jh_magic = LSVD_MAGIC, jh_type = LSVD_J_PAD, jh_version = 1, jh_len = n,
        jh_seq = seq, jh_crc32 = 0, jh_extent_offset = 0, jh_extent_len = 0, jh_prev = prev\<rparr>)"

lemma length_page_of [simp]: "length bs \<le> 4096 \<Longrightarrow> length (page_of bs) = 4096"
  by (simp add: page_of_def)

lemma length_pages [simp]: "length (data_page lba iov seq prev) = 4096" "length (pad_page n seq prev) = 4096"
  by (simp_all add: data_page_def pad_page_def)

lemma iov_data_addrs: "iov_data mem iov = map mem (addrs iov)"
  by (induction iov) (simp_all add: iov_data_def load_bytes_def)

lemma iov_data_ingest [simp]: "iov_data mem (ingest [] iov) = iov_data mem iov"
  by (induction iov) (simp_all add: iov_data_def load_bytes_def ingest_def)

lemma length_iov_data: "iov_ok iov \<Longrightarrow> int (length (iov_data mem iov)) = bytes iov"
  by (simp add: iov_data_addrs bytes_addrs)

lemma writev_journal_spec:
  assumes ok: "ring_ok w" and r: "wreq_ok w (mem, lba, iov)" and q: "0 \<le> w_sequence w" "w_sequence w + 2 < 2 ^ 64"
    and n: "n = (bytes iov + 4095) div 4096 + 1"
  obtains start pad n_pad w1 ws w' where "allocate n w = Done ((start, pad, n_pad, w_previous_hdr w), w1)"
    "writev_journal mem lba iov w = Done ((ws, w_sequence w' - 1), w')"
    "w_super w' = w_super w" "w_next_alloc w' = w_next_alloc w1" "w_previous_hdr w' = start" "ring_ok w1"
    "pad = 0 \<and> n_pad = 0 \<and> w_sequence w' = w_sequence w + 1
       \<and> ws = [(start * 4096, data_page lba iov (w_sequence w) (w_previous_hdr w) @ iov_data mem iov)]
     \<or> jbase w \<le> pad \<and> pad + n_pad = jlimit w \<and> 0 < n_pad \<and> w_sequence w' = w_sequence w + 2
       \<and> ws = [(pad * 4096, pad_page n_pad (w_sequence w) (w_previous_hdr w) @ pad_out (n_pad - 1)),
               (start * 4096, data_page lba iov (w_sequence w + 1) pad @ iov_data mem iov)]"
    "jbase w \<le> start" "start + n \<le> jlimit w"
proof -
  have iov: "iov_ok iov" "0 \<le> bytes iov" "bytes iov < 2 ^ 30" "0 \<le> lba" "lba < 2 ^ 40" "n \<le> jlimit w - jbase w"
    using r bytes_addrs [of iov] n by (simp_all add: wreq_ok_def)
  have n0: "0 < n" using iov(2) n by simp
  obtain start pad n_pad w1 where A: "allocate n w = Done ((start, pad, n_pad, w_previous_hdr w), w1)"
    "w1 = w\<lparr>w_previous_hdr := start, w_next_alloc := w_next_alloc w1\<rparr>" "ring_ok w1"
    "jbase w \<le> start" "start + n \<le> jlimit w"
    "pad = 0 \<and> n_pad = 0 \<and> start = w_next_alloc w \<or> pad = w_next_alloc w \<and> pad + n_pad = jlimit w \<and> 0 < n_pad \<and> start = jbase w"
    "w_next_alloc w1 = (if start + n = jlimit w then jbase w else start + n)"
    by (rule allocate_cases [OF ok n0 iov(6)])
  have d: "div_round_up (bytes iov) 4096 + 1 = n" using iov n by (subst div_round_up_eq) (simp_all add: algebra_simps)
  have e: "ubf 40 lba = lba" "ubf 24 (bytes iov div 512) = bytes iov div 512" using iov by (simp_all add: ubf_id)
  have sq: "ubf 64 (w_sequence w + 1) = w_sequence w + 1" "ubf 64 (w_sequence w + 1 + 1) = w_sequence w + 2"
    using q by (simp_all add: ubf_id)
  have w1: "w_sequence w1 = w_sequence w" "w_super w1 = w_super w" "w_previous_hdr w1 = start" by (subst A(2), simp)+
  have d': "1 + div_round_up (bytes iov) 4096 = n" using d by simp
  from A(6) show thesis
  proof
    assume c: "pad = 0 \<and> n_pad = 0 \<and> start = w_next_alloc w"
    let ?w = "(w1\<lparr>w_sequence := w_sequence w + 1\<rparr>)\<lparr>w_outstanding_writes := w_outstanding_writes w1 + 1\<rparr>"
    have "writev_journal mem lba iov w
        = Done (([(start * 4096, data_page lba iov (w_sequence w) (w_previous_hdr w) @ iov_data mem iov)], w_sequence w), ?w)"
      using A(1) c e sq w1 d
      by (simp add: writev_journal_def wcache_write_req_def mk_header_def Let_def data_page_def n sizeof_j_hdr_def ac_simps)
    then show thesis using that [OF A(1), of _ ?w] c w1 A(3-5) by simp
  next
    assume c: "pad = w_next_alloc w \<and> pad + n_pad = jlimit w \<and> 0 < n_pad \<and> start = jbase w"
    then have p0: "pad \<noteq> 0" "jbase w \<le> pad" using ok by (auto simp: ring_ok_def)
    let ?w = "(w1\<lparr>w_sequence := w_sequence w + 2\<rparr>)\<lparr>w_outstanding_writes := w_outstanding_writes w1 + 1\<rparr>"
    have "writev_journal mem lba iov w
        = Done (([(pad * 4096, pad_page n_pad (w_sequence w) (w_previous_hdr w) @ pad_out (n_pad - 1)),
               (start * 4096, data_page lba iov (w_sequence w + 1) pad @ iov_data mem iov)], w_sequence w + 1), ?w)"
      using A(1) p0 e sq w1 d
      by (simp add: writev_journal_def wcache_write_req_def mk_header_def Let_def data_page_def pad_page_def n sizeof_j_hdr_def ac_simps)
    then show thesis using that [OF A(1), of _ ?w] c p0 w1 A(3-5) by simp
  qed
qed

end
