(* ===== verification/Write_Cache_Journal.thy ===== *)
theory Write_Cache_Journal
  imports Write_Cache_Ring
begin

text \<open>
  What a run of writes leaves in the journal: every record can be read back from its page, and the
  back links and sequence numbers of the headers form one chain.
\<close>

section \<open>Headers\<close>

fun wchain :: "int \<Rightarrow> int \<Rightarrow> dev_write list \<Rightarrow> bool" where
  "wchain q prev [] = True"
| "wchain q prev (x # ws) \<longleftrightarrow>
     (let h = dec_j_hdr (take 4096 (snd x)) 0
      in jh_magic h = LSVD_MAGIC \<and> jh_type h \<in> {LSVD_J_DATA, LSVD_J_PAD} \<and> jh_seq h = q \<and> jh_prev h = prev
         \<and> jh_len h = int (length (write_pages x)))
     \<and> wchain (q + 1) (fst x div 4096) ws"

text \<open>The chain of headers as it is found on the device, at a list of offsets.\<close>

fun dev_chain :: "byte list \<Rightarrow> int \<Rightarrow> int \<Rightarrow> int list \<Rightarrow> bool" where
  "dev_chain dev q prev [] = True"
| "dev_chain dev q prev (off # offs) \<longleftrightarrow>
     (let h = dec_j_hdr (get_bytes dev (nat off) 4096) 0
      in jh_magic h = LSVD_MAGIC \<and> jh_type h \<in> {LSVD_J_DATA, LSVD_J_PAD} \<and> jh_seq h = q \<and> jh_prev h = prev)
     \<and> dev_chain dev (q + 1) (off div 4096) offs"

definition record_at :: "byte list \<Rightarrow> int \<Rightarrow> int \<Rightarrow> wreq \<Rightarrow> bool" where
  "record_at dev off seq r \<longleftrightarrow>
     (case r of (mem, lba, iov) \<Rightarrow>
        let page = get_bytes dev (nat off) 4096; h = dec_j_hdr page 0; e = dec_j_extent page (nat (jh_extent_offset h))
        in jh_magic h = LSVD_MAGIC \<and> jh_type h = LSVD_J_DATA \<and> jh_seq h = seq \<and> jh_extent_len h = 8
           \<and> je_lba e = lba \<and> je_len e = bytes iov div 512
           \<and> get_bytes dev (nat off + 4096) (nat (bytes iov)) = iov_data mem iov)"

lemma dec_data_page:
  assumes "iov_ok iov" "bytes iov < 2 ^ 30" "0 \<le> lba" "lba < 2 ^ 40" "u64 seq" "s32 prev"
  shows "dec_j_hdr (data_page lba iov seq prev) 0 =
      \<lparr>jh_magic = LSVD_MAGIC, jh_type = LSVD_J_DATA, jh_version = 1, jh_len = (bytes iov + 4095) div 4096 + 1,
       jh_seq = seq, jh_crc32 = 0, jh_extent_offset = 40, jh_extent_len = 8, jh_prev = prev\<rparr>"
    "dec_j_extent (data_page lba iov seq prev) 40 = \<lparr>je_lba = lba, je_len = bytes iov div 512\<rparr>"
proof -
  let ?h = "\<lparr>jh_magic = LSVD_MAGIC, jh_type = LSVD_J_DATA, jh_version = 1, jh_len = (bytes iov + 4095) div 4096 + 1,
       jh_seq = seq, jh_crc32 = 0, jh_extent_offset = 40, jh_extent_len = 8, jh_prev = prev\<rparr>"
  let ?e = "\<lparr>je_lba = lba, je_len = bytes iov div 512\<rparr>"
  have b: "0 \<le> bytes iov" using bytes_addrs [OF assms(1)] by simp
  have "j_hdr_ok ?h" using assms b by (simp add: j_hdr_ok_def u32_def s32_def LSVD_MAGIC_def LSVD_J_DATA_def)
  from dec_enc_j_hdr [OF this, of "[]"] show "dec_j_hdr (data_page lba iov seq prev) 0 = ?h"
    by (simp add: data_page_def page_of_def)
  show "dec_j_extent (data_page lba iov seq prev) 40 = ?e"
    using dec_enc_j_extent [of ?e "enc_j_hdr ?h"] assms b by (simp add: data_page_def page_of_def)
qed

lemma dec_pad_page:
  assumes "s32 n" "u64 seq" "s32 prev"
  shows "dec_j_hdr (pad_page n seq prev) 0 =
      \<lparr>jh_magic = LSVD_MAGIC, jh_type = LSVD_J_PAD, jh_version = 1, jh_len = n,
       jh_seq = seq, jh_crc32 = 0, jh_extent_offset = 0, jh_extent_len = 0, jh_prev = prev\<rparr>"
proof -
  let ?h = "\<lparr>jh_magic = LSVD_MAGIC, jh_type = LSVD_J_PAD, jh_version = 1, jh_len = n,
       jh_seq = seq, jh_crc32 = 0, jh_extent_offset = 0, jh_extent_len = 0, jh_prev = prev\<rparr>"
  have "j_hdr_ok ?h" using assms by (simp add: j_hdr_ok_def u32_def s32_def LSVD_MAGIC_def LSVD_J_PAD_def)
  from dec_enc_j_hdr [OF this, of "[]"] show ?thesis by (simp add: pad_page_def page_of_def)
qed

section \<open>One write\<close>

definition write_in :: "wcache \<Rightarrow> dev_write \<Rightarrow> bool" where
  "write_in w x \<longleftrightarrow> 0 \<le> fst x \<and> fst x mod 4096 = 0 \<and> 4096 * jbase w \<le> fst x
     \<and> fst x + int (length (snd x)) \<le> 4096 * jlimit w \<and> 4096 \<le> length (snd x)"

definition req_written :: "wreq \<Rightarrow> dev_write list \<times> int \<Rightarrow> bool" where
  "req_written r y \<longleftrightarrow> (case r of (mem, lba, iov) \<Rightarrow>
     fst y \<noteq> [] \<and> u64 (snd y) \<and> (\<exists>prev. s32 prev \<and> snd (last (fst y)) = data_page lba iov (snd y) prev @ iov_data mem iov))"

lemma write_pages_page [simp]: "write_pages (p * 4096, bs) = [p..p + (int (length bs) + 4095) div 4096 - 1]"
  by (simp add: write_pages_def)

lemma writev_journal_written:
  assumes ok: "ring_ok w" and r: "wreq_ok w (mem, lba, iov)" and q: "0 \<le> w_sequence w" "w_sequence w + 2 < 2 ^ 64"
    and k: "w_next_alloc w = ring_page w k" and pv: "s32 (w_previous_hdr w)"
  obtains ws w' m where "writev_journal mem lba iov w = Done ((ws, w_sequence w' - 1), w')" "ring_ok w'"
    "w_super w' = w_super w" "w_next_alloc w' = ring_page w (k + m)" "s32 (w_previous_hdr w')" "0 \<le> m"
    "concat (map write_pages ws) = map (ring_page w) [k..k + m - 1]"
    "wchain (w_sequence w) (w_previous_hdr w) ws" "w_sequence w' = w_sequence w + int (length ws)"
    "w_previous_hdr w' = fst (last ws) div 4096" "\<forall>x\<in>set ws. write_in w x" "ws \<noteq> []" "length ws \<le> 2"
    "req_written (mem, lba, iov) (ws, w_sequence w' - 1)"
proof -
  define n where "n = (bytes iov + 4095) div 4096 + 1"
  have iov: "iov_ok iov" "0 \<le> bytes iov" "bytes iov < 2 ^ 30" "0 \<le> lba" "lba < 2 ^ 40" "n \<le> jlimit w - jbase w"
    using r bytes_addrs [of iov] n_def by (simp_all add: wreq_ok_def)
  have n0: "0 < n" using iov(2) n_def by simp
  have ringb: "0 < jbase w" "jlimit w < 2 ^ 31" "jbase w < jlimit w" using ok by (simp_all add: ring_ok_def)
  obtain start pad n_pad w1 ws w' where W: "allocate n w = Done ((start, pad, n_pad, w_previous_hdr w), w1)"
    "writev_journal mem lba iov w = Done ((ws, w_sequence w' - 1), w')"
    "w_super w' = w_super w" "w_next_alloc w' = w_next_alloc w1" "w_previous_hdr w' = start" "ring_ok w1"
    "pad = 0 \<and> n_pad = 0 \<and> w_sequence w' = w_sequence w + 1
       \<and> ws = [(start * 4096, data_page lba iov (w_sequence w) (w_previous_hdr w) @ iov_data mem iov)]
     \<or> jbase w \<le> pad \<and> pad + n_pad = jlimit w \<and> 0 < n_pad \<and> w_sequence w' = w_sequence w + 2
       \<and> ws = [(pad * 4096, pad_page n_pad (w_sequence w) (w_previous_hdr w) @ pad_out (n_pad - 1)),
               (start * 4096, data_page lba iov (w_sequence w + 1) pad @ iov_data mem iov)]"
    "jbase w \<le> start" "start + n \<le> jlimit w"
    by (rule writev_journal_spec [OF ok r q n_def])
  obtain m where m: "n \<le> m" "taken_pages n (start, pad, n_pad, w_previous_hdr w) = map (ring_page w) [k..k + m - 1]"
    "w_next_alloc w1 = ring_page w (k + m)" "w_super w1 = w_super w"
    by (rule allocate_tape [OF ok n0 iov(6) k W(1)])
  have ok': "ring_ok w'" using W(3,4,6) m(4) by (simp add: ring_ok_def)
  have len: "int (length (iov_data mem iov)) = bytes iov" by (rule length_iov_data [OF iov(1)])
  have dp: "(4096 + bytes iov + 4095) div 4096 = n" unfolding n_def by simp
  have dlen: "start * 4096 + (4096 + bytes iov) \<le> 4096 * jlimit w" using W(9) unfolding n_def by linarith
  have u: "u64 (w_sequence w)" "u64 (w_sequence w + 1)" using q by (simp_all add: u64_def)
  have sp: "s32 start" using W(8,9) n0 ringb by (simp add: s32_def)
  from W(7) show thesis
  proof
    assume c: "pad = 0 \<and> n_pad = 0 \<and> w_sequence w' = w_sequence w + 1
       \<and> ws = [(start * 4096, data_page lba iov (w_sequence w) (w_previous_hdr w) @ iov_data mem iov)]"
    note dd = dec_data_page [OF iov(1,3-5) u(1) pv]
    have "concat (map write_pages ws) = taken_pages n (start, pad, n_pad, w_previous_hdr w)"
      using c len dp by (simp add: taken_pages_def)
    moreover have "wchain (w_sequence w) (w_previous_hdr w) ws" using c len dp n0 dd by (simp add: n_def)
    moreover have "\<forall>x\<in>set ws. write_in w x" using c len W(8) dlen ringb by (simp add: write_in_def)
    moreover have "req_written (mem, lba, iov) (ws, w_sequence w' - 1)"
      using c u pv by (auto simp: req_written_def)
    ultimately show thesis using that [OF W(2) ok' W(3)] W(4,5) m n0 sp c by simp
  next
    assume c: "jbase w \<le> pad \<and> pad + n_pad = jlimit w \<and> 0 < n_pad \<and> w_sequence w' = w_sequence w + 2
       \<and> ws = [(pad * 4096, pad_page n_pad (w_sequence w) (w_previous_hdr w) @ pad_out (n_pad - 1)),
               (start * 4096, data_page lba iov (w_sequence w + 1) pad @ iov_data mem iov)]"
    have s: "s32 n_pad" "s32 pad" using c ringb by (auto simp: s32_def)
    note dd = dec_data_page [OF iov(1,3-5) u(2) s(2)] dec_pad_page [OF s(1) u(1) pv]
    have pl: "int (4096 + length (pad_out (n_pad - 1))) = 4096 * n_pad" using c by (simp add: pad_out_def)
    then have pd: "(4096 + int (length (pad_out (n_pad - 1))) + 4095) div 4096 = n_pad" by simp
    have "concat (map write_pages ws) = taken_pages n (start, pad, n_pad, w_previous_hdr w)"
      using c len dp pd by (simp add: taken_pages_def)
    moreover have "wchain (w_sequence w) (w_previous_hdr w) ws" using c len dp n0 pd dd by (simp add: n_def)
    moreover have "\<forall>x\<in>set ws. write_in w x" using c len W(8) dlen ringb pl by (simp add: write_in_def)
    moreover have e: "w_sequence w' - 1 = w_sequence w + 1" using c by simp
    have "req_written (mem, lba, iov) (ws, w_sequence w' - 1)" unfolding e using c u s by (auto simp: req_written_def)
    ultimately show thesis using that [OF W(2) ok' W(3)] W(4,5) m n0 sp c by simp
  qed
qed

section \<open>A run of writes\<close>

lemma wchain_append: "ws \<noteq> [] \<Longrightarrow> wchain q prev (ws @ vs) = (wchain q prev ws \<and> wchain (q + int (length ws)) (fst (last ws) div 4096) vs)"
  by (induction ws arbitrary: q prev) (auto simp: Let_def ac_simps)

lemma wreq_ok_super: "w_super w' = w_super w \<Longrightarrow> wreq_ok w' r = wreq_ok w r"
  by (simp add: wreq_ok_def)

definition run_ok :: "wcache \<Rightarrow> wreq list \<Rightarrow> bool" where
  "run_ok w rs \<longleftrightarrow> ring_ok w \<and> (\<forall>r\<in>set rs. wreq_ok w r) \<and> 0 \<le> w_sequence w \<and> w_sequence w + 2 * int (length rs) < 2 ^ 64
     \<and> s32 (w_previous_hdr w)"

definition run_result :: "wcache \<Rightarrow> wreq list \<Rightarrow> int \<Rightarrow> (dev_write list \<times> int) list \<Rightarrow> wcache \<Rightarrow> bool" where
  "run_result w rs k outs w' \<longleftrightarrow> (let ws = concat (map fst outs) in
     ring_ok w' \<and> w_super w' = w_super w
     \<and> (\<exists>m\<ge>0. concat (map write_pages ws) = map (ring_page w) [k..k + m - 1])
     \<and> wchain (w_sequence w) (w_previous_hdr w) ws
     \<and> w_sequence w' = w_sequence w + int (length ws)
     \<and> (\<forall>x\<in>set ws. write_in w x) \<and> list_all2 req_written rs outs
     \<and> sorted_wrt (<) (map snd outs) \<and> (\<forall>y\<in>set outs. w_sequence w \<le> snd y))"

lemma journal_run_spec:
  assumes "run_ok w rs" "w_next_alloc w = ring_page w k"
  shows "\<exists>outs w'. journal_run rs w = Done (outs, w') \<and> run_result w rs k outs w'"
  using assms
proof (induction rs arbitrary: w k)
  case Nil
  then show ?case by (auto simp: run_result_def run_ok_def intro: exI [of _ 0])
next
  case (Cons r rs)
  obtain mem lba iov where r: "r = (mem, lba, iov)" by (metis surj_pair)
  have p: "ring_ok w" "wreq_ok w (mem, lba, iov)" "0 \<le> w_sequence w" "w_sequence w + 2 < 2 ^ 64" "s32 (w_previous_hdr w)"
    "w_sequence w + 2 + 2 * int (length rs) < 2 ^ 64" "\<forall>r\<in>set rs. wreq_ok w r"
    using Cons.prems(1) r by (auto simp: run_ok_def)
  obtain ws w1 m where W: "writev_journal mem lba iov w = Done ((ws, w_sequence w1 - 1), w1)" "ring_ok w1"
    "w_super w1 = w_super w" "w_next_alloc w1 = ring_page w (k + m)" "s32 (w_previous_hdr w1)" "0 \<le> m"
    "concat (map write_pages ws) = map (ring_page w) [k..k + m - 1]"
    "wchain (w_sequence w) (w_previous_hdr w) ws" "w_sequence w1 = w_sequence w + int (length ws)"
    "w_previous_hdr w1 = fst (last ws) div 4096" "\<forall>x\<in>set ws. write_in w x" "ws \<noteq> []" "length ws \<le> 2"
    "req_written (mem, lba, iov) (ws, w_sequence w1 - 1)"
    by (rule writev_journal_written [OF p(1-4) Cons.prems(2) p(5)])
  have rp: "ring_page w1 = ring_page w" using W(3) by (simp add: ring_page_def fun_eq_iff)
  have nx: "w_next_alloc w1 = ring_page w1 (k + m)" using W(4) rp by simp
  have "run_ok w1 rs" using W(2,3,5,9,13) p(3,6,7) wreq_ok_super [OF W(3)] by (simp add: run_ok_def)
  from Cons.IH [OF this nx]
  obtain outs w' where O: "journal_run rs w1 = Done (outs, w')" "run_result w1 rs (k + m) outs w'" by blast
  let ?vs = "concat (map fst outs)"
  obtain m' where m': "0 \<le> m'" "concat (map write_pages ?vs) = map (ring_page w) [k + m..k + m + m' - 1]"
    using O(2) rp by (auto simp: run_result_def Let_def)
  have sp: "[k..k + (m + m') - 1] = [k..k + m - 1] @ [k + m..k + m + m' - 1]"
    using upto_append [of k "k + m" "k + m + m' - 1"] W(6) m'(1) by (simp add: add.assoc)
  have "concat (map write_pages (ws @ ?vs)) = map (ring_page w) [k..k + (m + m') - 1]"
    unfolding sp map_append concat_append W(7) m'(2) by simp
  moreover have "wchain (w_sequence w) (w_previous_hdr w) (ws @ ?vs)"
    using O(2) W(8-10,12) by (simp add: wchain_append run_result_def Let_def)
  moreover have "\<forall>y\<in>set ((ws, w_sequence w1 - 1) # outs). w_sequence w \<le> snd y"
    using O(2) W(9,12) by (cases ws) (auto simp: run_result_def Let_def)
  moreover have "\<forall>y\<in>set outs. w_sequence w1 - 1 < snd y" using O(2) by (auto simp: run_result_def Let_def)
  ultimately have "run_result w (r # rs) k ((ws, w_sequence w1 - 1) # outs) w'"
    using O(2) W(3,9,11,14) m' W(6) r unfolding run_result_def Let_def
    by (auto simp: write_in_def intro!: exI [of _ "m + m'"])
  then show ?case using W(1) O(1) r by simp
qed

lemma ring_distinct:
  assumes "ring_ok w" "m \<le> jlimit w - jbase w"
  shows "distinct (map (ring_page w) [k..k + m - 1])"
proof -
  have N: "0 < jlimit w - jbase w" using assms(1) by (simp add: ring_ok_def)
  have "i = j" if "i \<in> {k..k + m - 1}" "j \<in> {k..k + m - 1}" "ring_page w i = ring_page w j" for i j
  proof -
    have "(jlimit w - jbase w) dvd i - j" using that(3) by (simp add: ring_page_def mod_eq_dvd_iff)
    then show ?thesis using that(1,2) assms(2) zdvd_imp_le [of "jlimit w - jbase w" "i - j"] zdvd_imp_le [of "jlimit w - jbase w" "j - i"]
      by (cases "i < j"; cases "j < i") (auto simp: dvd_diff_commute)
  qed
  then show ?thesis by (auto simp: distinct_map inj_on_def)
qed

lemma get_bytes_prefix: "n \<le> m \<Longrightarrow> get_bytes dev a m = bs \<Longrightarrow> get_bytes dev a n = take n bs"
  by (auto simp: get_bytes_def min_absorb1)

lemma get_bytes_rest: "n \<le> m \<Longrightarrow> get_bytes dev a m = bs \<Longrightarrow> get_bytes dev (a + n) (m - n) = drop n bs"
  by (auto simp: get_bytes_def drop_take add.commute)

lemma wchain_dev:
  assumes "wchain q prev ws" "\<forall>x\<in>set ws. 4096 \<le> length (snd x) \<and> get_bytes dev (nat (fst x)) (length (snd x)) = snd x"
  shows "dev_chain dev q prev (map fst ws)"
  using assms
proof (induction ws arbitrary: q prev)
  case (Cons x ws)
  have "get_bytes dev (nat (fst x)) 4096 = take 4096 (snd x)" by (rule get_bytes_prefix) (use Cons.prems(2) in auto)
  then show ?case using Cons by (simp add: Let_def)
qed simp

lemma req_written_dev:
  assumes w: "req_written r y" and r: "wreq_ok w r" and l: "last (fst y) = x"
    and dev: "get_bytes dev (nat (fst x)) (length (snd x)) = snd x"
  shows "record_at dev (fst x) (snd y) r"
proof -
  obtain mem lba iov where R: "r = (mem, lba, iov)" by (metis surj_pair)
  have iov: "iov_ok iov" "bytes iov < 2 ^ 30" "0 \<le> lba" "lba < 2 ^ 40" using r R by (simp_all add: wreq_ok_def)
  obtain prev where P: "s32 prev" "snd x = data_page lba iov (snd y) prev @ iov_data mem iov" "u64 (snd y)"
    using w l R by (auto simp: req_written_def)
  have len: "length (iov_data mem iov) = nat (bytes iov)" using length_iov_data [OF iov(1), of mem] by simp
  have "get_bytes dev (nat (fst x)) 4096 = data_page lba iov (snd y) prev"
    using get_bytes_prefix [of 4096 "length (snd x)", OF _ dev] P(2) by simp
  moreover have "get_bytes dev (nat (fst x) + 4096) (nat (bytes iov)) = iov_data mem iov"
    using get_bytes_rest [of 4096 "length (snd x)", OF _ dev] P(2) len by simp
  ultimately show ?thesis using dec_data_page [OF iov P(3,1)] R by (simp add: record_at_def Let_def)
qed

lemma run_fits:
  assumes "run_result w rs k outs w'" "4096 * jlimit w \<le> int (length dev)" "x \<in> set (concat (map fst outs))"
  shows "write_fits dev x" "4096 \<le> length (snd x)" "jbase w \<le> fst x div 4096"
proof -
  have "write_in w x" using assms(1,3) unfolding run_result_def Let_def by blast
  then show "write_fits dev x" "4096 \<le> length (snd x)" "jbase w \<le> fst x div 4096"
    using assms(2) by (auto simp: write_in_def write_fits_def)
qed

lemma run_on_device:
  assumes ok: "ring_ok w" "\<forall>r\<in>set rs. wreq_ok w r" and R: "run_result w rs k outs w'" and len: "4096 * jlimit w \<le> int (length dev)"
    and le: "int (length (concat (map write_pages (concat (map fst outs))))) \<le> jlimit w - jbase w"
  shows "list_all2 (\<lambda>r y. record_at (apply_writes dev (concat (map fst outs))) (fst (last (fst y))) (snd y) r) rs outs"
    "dev_chain (apply_writes dev (concat (map fst outs))) (w_sequence w) (w_previous_hdr w) (map fst (concat (map fst outs)))"
proof -
  let ?ws = "concat (map fst outs)" and ?dev = "apply_writes dev (concat (map fst outs))"
  have res: "wchain (w_sequence w) (w_previous_hdr w) ?ws" "list_all2 req_written rs outs" using R by (simp_all add: run_result_def Let_def)
  have d: "distinct (concat (map write_pages ?ws))" using R le ring_distinct [OF ok(1)] by (auto simp: run_result_def Let_def)
  have get: "get_bytes ?dev (nat (fst x)) (length (snd x)) = snd x" if "x \<in> set ?ws" for x
    by (rule apply_writes_get [OF _ d that]) (use run_fits(1) [OF R len] in blast)
  show "dev_chain ?dev (w_sequence w) (w_previous_hdr w) (map fst ?ws)"
    by (rule wchain_dev [OF res(1)]) (use get run_fits(2) [OF R len] in blast)
  have l: "length outs = length rs" using res(2) by (simp add: list_all2_lengthD)
  have "record_at ?dev (fst (last (fst (outs ! i)))) (snd (outs ! i)) (rs ! i)" if i: "i < length rs" for i
  proof -
    have w: "req_written (rs ! i) (outs ! i)" "wreq_ok w (rs ! i)" using res(2) ok(2) i by (simp_all add: list_all2_conv_all_nth)
    then have "last (fst (outs ! i)) \<in> set (fst (outs ! i))" by (auto simp: req_written_def split: prod.splits)
    then have "last (fst (outs ! i)) \<in> set ?ws" using i l by auto
    then show ?thesis using req_written_dev [OF w refl get] by simp
  qed
  then show "list_all2 (\<lambda>r y. record_at ?dev (fst (last (fst y))) (snd y) r) rs outs" using l by (simp add: list_all2_conv_all_nth)
qed

lemma run_keeps_front:
  assumes "run_result w rs k outs w'" "ring_ok w" "4096 * jlimit w \<le> int (length dev)"
  shows "get_bytes (apply_writes dev (concat (map fst outs))) 0 (nat (4096 * jbase w)) = get_bytes dev 0 (nat (4096 * jbase w))"
proof -
  let ?y = "(0 :: int, replicate (nat (4096 * jbase w)) (0 :: byte))"
  have b: "0 < jbase w" using assms(2) by (simp add: ring_ok_def)
  have "set (write_pages x) \<inter> set (write_pages ?y) = {}" if "x \<in> set (concat (map fst outs))" for x
  proof -
    have "(4096 * jbase w + 4095) div 4096 = jbase w" by simp
    then show ?thesis using b run_fits(3) [OF assms(1,3) that] by (auto simp: write_pages_def)
  qed
  then have "\<forall>x\<in>set (concat (map fst outs)). write_fits dev x \<and> set (write_pages x) \<inter> set (write_pages ?y) = {}"
    using run_fits(1) [OF assms(1,3)] by blast
  from apply_writes_other [OF this, of 0 "nat (4096 * jbase w)"] show ?thesis using b by simp
qed

text \<open>
  C26. Every journalled write can be read back. Take any sequence of writes, each with a buffer list
  of less than a gigabyte that fits into the ring with its header. All of them are accepted and the
  ring stays well-formed. If together they take no more pages than the ring has, then on the device,
  after all writes to it, the record of every one of them stands at its page with its sequence
  number, its address, its length and its data; the sequence numbers increase; following the back
  links of the headers visits all records and pads, newest first, with consecutive sequence numbers;
  and no byte in front of the ring, where the superblock lies, has changed.
\<close>

theorem journal_readback:
  assumes "run_ok w rs" "4096 * jlimit w \<le> int (length dev)"
  shows "\<exists>outs w'. journal_run rs w = Done (outs, w') \<and> ring_ok w' \<and>
    (let ws = concat (map fst outs); dev' = apply_writes dev ws
     in int (length (concat (map write_pages ws))) \<le> jlimit w - jbase w \<longrightarrow>
        list_all2 (\<lambda>r y. record_at dev' (fst (last (fst y))) (snd y) r) rs outs \<and> sorted_wrt (<) (map snd outs)
        \<and> dev_chain dev' (w_sequence w) (w_previous_hdr w) (map fst ws)
        \<and> get_bytes dev' 0 (nat (4096 * jbase w)) = get_bytes dev 0 (nat (4096 * jbase w)))"
proof -
  have ok: "ring_ok w" "\<forall>r\<in>set rs. wreq_ok w r" using assms(1) by (simp_all add: run_ok_def)
  have "w_next_alloc w = ring_page w (w_next_alloc w - jbase w)" using ok(1) by (simp add: ring_page_def ring_ok_def)
  from journal_run_spec [OF assms(1) this]
  obtain outs w' where R: "journal_run rs w = Done (outs, w')" "run_result w rs (w_next_alloc w - jbase w) outs w'" by blast
  have "ring_ok w'" "sorted_wrt (<) (map snd outs)" using R(2) by (simp_all add: run_result_def Let_def)
  then show ?thesis
    using R(1) run_on_device [OF ok R(2) assms(2)] run_keeps_front [OF R(2) ok(1) assms(2)]
    unfolding Let_def by (intro exI [of _ outs] exI [of _ w']) blast
qed

definition demo_wlog :: wcache where
  "demo_wlog = \<lparr>w_sequence = 1, w_total_write_pages = 0, w_max_write_pages = 6, w_outstanding_writes = 0, w_write_batch = 8,
     w_super = \<lparr>jw_magic = LSVD_MAGIC, jw_type = LSVD_J_W_SUPER, jw_version = 1, jw_clean = 0, jw_seq = 1, jw_meta_base = 1,
       jw_meta_limit = 5, jw_base = 5, jw_limit = 13, jw_next = 5, jw_map_start = 0, jw_map_blocks = 0, jw_map_entries = 0,
       jw_len_start = 0, jw_len_blocks = 0, jw_len_entries = 0, jw_vol_uuid = replicate 16 0\<rparr>,
     w_super_rest = replicate 4012 0, w_previous_hdr = 0, w_next_alloc = 5\<rparr>"

definition demo_write :: wreq where
  "demo_write = ((\<lambda>a. 7), 24, [\<lparr>iov_base = 1000, iov_len = 4\<rparr>])"

lemma demo_write_ok: "run_ok demo_wlog [demo_write]"
  by (simp add: run_ok_def ring_ok_def wreq_ok_def demo_wlog_def demo_write_def iov_ok_def bytes_def ubf_def s32_def)

theorem journal_readback_witness:
  "\<exists>off. record_at (apply_writes (replicate 53248 0) [(off, data_page 24 [\<lparr>iov_base = 1000, iov_len = 4\<rparr>] 1 0 @ replicate 4 7)]) off 1 demo_write"
proof -
  let ?iov = "[\<lparr>iov_base = 1000, iov_len = 4\<rparr>]" and ?ws = "[(5 * 4096, data_page 24 [\<lparr>iov_base = 1000, iov_len = 4\<rparr>] 1 0 @ replicate 4 7)]"
  have "iov_data (\<lambda>a. 7) ?iov = replicate 4 7" by (simp add: iov_data_def load_bytes_def map_replicate_const)
  then obtain w' where run: "journal_run [demo_write] demo_wlog = Done ([(?ws, 1)], w')"
    by (simp add: demo_write_def writev_journal_def wcache_write_req_def mk_header_def allocate_def demo_wlog_def Let_def data_page_def
        bytes_def ubf_def div_round_up_def sbf_def cdiv_def sizeof_j_hdr_def)
  have "4096 * jlimit demo_wlog \<le> int (length (replicate 53248 (0 :: byte)))" unfolding length_replicate by (simp add: demo_wlog_def)
  from journal_readback [OF demo_write_ok this] run
  have "int (length (concat (map write_pages ?ws))) \<le> jlimit demo_wlog - jbase demo_wlog \<longrightarrow>
      record_at (apply_writes (replicate 53248 0) ?ws) (5 * 4096) 1 demo_write" by (auto simp: Let_def)
  then have "record_at (apply_writes (replicate 53248 0) ?ws) (5 * 4096) 1 demo_write"
    unfolding write_pages_def fst_conv snd_conv length_append length_pages length_replicate by (simp add: demo_wlog_def write_pages_def)
  then show ?thesis by blast
qed

section \<open>The throttle and the ring\<close>

fun reserve_all :: "int list \<Rightarrow> wcache \<Rightarrow> wcache option" where
  "reserve_all [] w = Some w"
| "reserve_all (n # ns) w = (case reserve_room n w of None \<Rightarrow> None | Some w' \<Rightarrow> reserve_all ns w')"

fun allocate_all :: "int list \<Rightarrow> wcache \<Rightarrow> (int list \<times> wcache) outcome" where
  "allocate_all [] w = Done ([], w)"
| "allocate_all (n # ns) w =
     (case allocate n w of
        Abort \<Rightarrow> Abort
      | Done ((start, pad, n_pad, prev), w1) \<Rightarrow>
          (case allocate_all ns w1 of Abort \<Rightarrow> Abort | Done (ps, w2) \<Rightarrow> Done (start # ps, w2)))"

lemma reserve_page [simp]:
  "reserve_room 8 w = (if w_max_write_pages w < w_total_write_pages w + 1 then None else Some (w\<lparr>w_total_write_pages := w_total_write_pages w + 1\<rparr>))"
  by (simp add: reserve_room_def cdiv_def sbf_def Let_def)

lemma reserve_pages:
  "w_total_write_pages w + int n \<le> w_max_write_pages w \<Longrightarrow>
   reserve_all (replicate n 8) w = Some (w\<lparr>w_total_write_pages := w_total_write_pages w + int n\<rparr>)"
  by (induction n arbitrary: w) simp_all

lemma allocate_pairs:
  assumes "ring_ok w" "jlimit w - w_next_alloc w = 2 * int n" "0 < n"
  shows "\<exists>w'. allocate_all (replicate n 2) w = Done (map (\<lambda>i. w_next_alloc w + 2 * int i) [0..<n], w')
    \<and> w_next_alloc w' = jbase w \<and> w_super w' = w_super w"
  using assms
proof (induction n arbitrary: w)
  case (Suc n)
  let ?w = "w\<lparr>w_previous_hdr := w_next_alloc w, w_next_alloc := (if n = 0 then jbase w else w_next_alloc w + 2)\<rparr>"
  have al: "allocate 2 w = Done ((w_next_alloc w, 0, 0, w_previous_hdr w), ?w)"
    using Suc.prems by (auto simp: allocate_def ring_ok_def Let_def)
  have up: "map (\<lambda>i. w_next_alloc w + 2 * int i) [0..<Suc n]
      = w_next_alloc w # map (\<lambda>i. w_next_alloc w + 2 + 2 * int i) [0..<n]"
    by (simp add: upt_conv_Cons map_Suc_upt [symmetric] del: upt_Suc)
  show ?case
  proof (cases "n = 0")
    case True
    then show ?thesis using al by simp
  next
    case False
    have "ring_ok ?w" "jlimit ?w - w_next_alloc ?w = 2 * int n" using Suc.prems False by (auto simp: ring_ok_def)
    from Suc.IH [OF this] False show ?thesis unfolding up using al by auto
  qed
qed simp

text \<open>
  C29. The throttle does not protect the ring. On a freshly opened journal with an even number of at
  least eight pages, half as many one-page writes plus one pass the throttle before any of them has
  been released, and the last of them is placed on the pages of the first: \<^verbatim>\<open>reserve_room\<close> counts
  data pages up to three quarters of the ring, but every record takes a header page as well.
\<close>

theorem throttle_overwrites:
  assumes "ring_ok w" "w_next_alloc w = jbase w" "jlimit w - jbase w = 2 * int h" "4 \<le> h" "w_total_write_pages w = 0"
    and "w_max_write_pages w = cdiv (jlimit w - jbase w) 2 + cdiv (jlimit w - jbase w) 4"
  shows "\<exists>w1 ps w2. reserve_all (replicate (h + 1) 8) w = Some w1 \<and> allocate_all (replicate (h + 1) 2) w1 = Done (ps, w2)
    \<and> ps ! 0 = jbase w \<and> ps ! h = jbase w"
proof -
  have mx: "w_max_write_pages w = int h + int h div 2" using assms(3,4,6) by (simp add: cdiv_nonneg)
  let ?w = "w\<lparr>w_total_write_pages := int (h + 1)\<rparr>"
  have "w_total_write_pages w + int (h + 1) \<le> w_max_write_pages w" using mx assms(4,5) by simp
  then have r: "reserve_all (replicate (h + 1) 8) w = Some ?w" using reserve_pages [of w "h + 1"] assms(5) by simp
  have app: "allocate_all (ns @ [2]) v = (case allocate_all ns v of Abort \<Rightarrow> Abort
      | Done (ps, v') \<Rightarrow> (case allocate 2 v' of Abort \<Rightarrow> Abort | Done ((s, pad, n_pad, prev), v2) \<Rightarrow> Done (ps @ [s], v2)))" for ns v
    by (induction ns arbitrary: v) (auto split: outcome.splits prod.splits)
  have ok: "ring_ok ?w" "jlimit ?w - w_next_alloc ?w = 2 * int h" "0 < h" using assms(1-4) by (simp_all add: ring_ok_def)
  obtain w' where a: "allocate_all (replicate h 2) ?w = Done (map (\<lambda>i. jbase w + 2 * int i) [0..<h], w')"
    "w_next_alloc w' = jbase w" "w_super w' = w_super w" using allocate_pairs [OF ok] assms(2) by auto
  have "allocate 2 w' = Done ((jbase w, 0, 0, w_previous_hdr w'), w'\<lparr>w_previous_hdr := jbase w, w_next_alloc := jbase w + 2\<rparr>)"
    using a(2,3) assms(1,3,4) by (simp add: allocate_def ring_ok_def Let_def)
  moreover have "replicate (h + 1) (2 :: int) = replicate h 2 @ [2]" by (simp add: replicate_append_same)
  ultimately have "allocate_all (replicate (h + 1) 2) ?w = Done (map (\<lambda>i. jbase w + 2 * int i) [0..<h] @ [jbase w],
      w'\<lparr>w_previous_hdr := jbase w, w_next_alloc := jbase w + 2\<rparr>)" using a(1) by (simp only: app) simp
  then show ?thesis using r assms(4) by (auto simp: nth_append)
qed

theorem throttle_overwrites_witness:
  "\<exists>w1 ps w2. reserve_all (replicate 5 8) demo_wlog = Some w1 \<and> allocate_all (replicate 5 2) w1 = Done (ps, w2) \<and> ps ! 0 = 5 \<and> ps ! 4 = 5"
  using throttle_overwrites [of demo_wlog 4] by (simp add: demo_wlog_def ring_ok_def cdiv_def)

end
