(* ===== verification/Write_Cache_Open.thy ===== *)
theory Write_Cache_Open
  imports Write_Cache_Journal
begin

text \<open>
  Creating, opening and closing the journal file: the layout of a new file, and which sequence number
  a reopened journal starts with.
\<close>

section \<open>A new journal\<close>

lemma init_super_layout:
  assumes "7 \<le> t" "t < 2 ^ 19"
  shows "2 \<le> jw_base (init_super uuid t)" "jw_base (init_super uuid t) < jw_limit (init_super uuid t)"
    "jw_limit (init_super uuid t) = t - 1" "jw_meta_limit (init_super uuid t) = jw_base (init_super uuid t)"
    "jw_next (init_super uuid t) = jw_base (init_super uuid t)"
proof -
  define c where "c = t - 2"
  define m where "m = (c + 255) div 256"
  define l where "l = (c + 511) div 512"
  have c: "5 \<le> c" "c < 2 ^ 19" using assms by (simp_all add: c_def)
  have ml: "1 \<le> m" "m \<le> c div 256 + 1" "1 \<le> l" "l \<le> c div 512 + 1" using c unfolding m_def l_def by auto
  have meta: "2 * (m + l) < c" "0 \<le> 2 * (m + l)" using ml c by auto
  have s: "sbf 32 (t - 2) = c" "div_round_up c 256 = m" "div_round_up c 512 = l" "sbf 32 (2 * (m + l)) = 2 * (m + l)"
    "sbf 32 (c - 2 * (m + l)) = c - 2 * (m + l)" "sbf 32 (1 + 2 * (m + l)) = 1 + 2 * (m + l)"
    "sbf 32 (1 + 2 * (m + l) + (c - 2 * (m + l))) = 1 + c"
    using c meta by (simp_all add: c_def sbf_id div_round_up_eq m_def l_def)
  have b: "jw_base (init_super uuid t) = 1 + 2 * (m + l)" "jw_limit (init_super uuid t) = 1 + c"
    "jw_meta_limit (init_super uuid t) = 1 + 2 * (m + l)" "jw_next (init_super uuid t) = 1 + 2 * (m + l)"
    unfolding init_super_def Let_def s by simp_all
  show "2 \<le> jw_base (init_super uuid t)" "jw_base (init_super uuid t) < jw_limit (init_super uuid t)"
    "jw_limit (init_super uuid t) = t - 1" "jw_meta_limit (init_super uuid t) = jw_base (init_super uuid t)"
    "jw_next (init_super uuid t) = jw_base (init_super uuid t)"
    using b ml meta by (simp_all add: c_def)
qed

lemma init_super_fields:
  assumes "7 \<le> t" "t < 2 ^ 19" "length uuid = 16"
  shows "j_super_ok (init_super uuid t)" "jw_magic (init_super uuid t) = LSVD_MAGIC" "jw_clean (init_super uuid t) = 1"
    "jw_seq (init_super uuid t) = 1" "jw_vol_uuid (init_super uuid t) = uuid"
proof -
  show f: "jw_magic (init_super uuid t) = LSVD_MAGIC" "jw_clean (init_super uuid t) = 1" "jw_seq (init_super uuid t) = 1"
    "jw_vol_uuid (init_super uuid t) = uuid" by (simp_all add: init_super_def Let_def)
  have o: "jw_type (init_super uuid t) = LSVD_J_W_SUPER" "jw_version (init_super uuid t) = 1" "jw_meta_base (init_super uuid t) = 1"
    "jw_map_start (init_super uuid t) = 0" "jw_map_blocks (init_super uuid t) = 0" "jw_map_entries (init_super uuid t) = 0"
    "jw_len_start (init_super uuid t) = 0" "jw_len_blocks (init_super uuid t) = 0" "jw_len_entries (init_super uuid t) = 0"
    by (simp_all add: init_super_def Let_def)
  have "LSVD_MAGIC = 1146508108" "LSVD_J_W_SUPER = 14" by (simp_all add: LSVD_MAGIC_def LSVD_J_W_SUPER_def)
  then show "j_super_ok (init_super uuid t)"
    using init_super_layout [OF assms(1,2), of uuid] assms f o by (simp add: j_super_ok_def u32_def u64_def s32_def)
qed

section \<open>Opening\<close>

text \<open>A device whose second page holds a superblock, followed by \<open>rest\<close>.\<close>

definition super_on :: "j_write_super \<Rightarrow> byte list \<Rightarrow> byte list \<Rightarrow> bool" where
  "super_on s rest dev \<longleftrightarrow> j_super_ok s \<and> jw_magic s = LSVD_MAGIC \<and> length rest = 4012
     \<and> get_bytes dev 4096 4096 = enc_j_write_super s @ rest \<and> 8192 \<le> length dev"

lemma super_onD:
  assumes "super_on s rest dev"
  shows "dec_j_write_super (get_bytes dev 4096 4096) 0 = s" "drop sizeof_j_write_super (get_bytes dev 4096 4096) = rest"
    "length (get_bytes dev 4096 4096) = 4096"
proof -
  have s: "j_super_ok s" "get_bytes dev 4096 4096 = enc_j_write_super s @ rest" "length rest = 4012" using assms by (simp_all add: super_on_def)
  then have "length (jw_vol_uuid s) = 16" by (simp add: j_super_ok_def)
  then show "dec_j_write_super (get_bytes dev 4096 4096) 0 = s" "drop sizeof_j_write_super (get_bytes dev 4096 4096) = rest"
    "length (get_bytes dev 4096 4096) = 4096"
    using s dec_enc_j_super [OF s(1), of "[]" rest] by (simp_all add: sizeof_j_write_super_def)
qed

lemma super_on_put:
  assumes "super_on s rest dev" "j_super_ok s'" "jw_magic s' = LSVD_MAGIC"
  shows "super_on s' rest (put_bytes dev 4096 (enc_j_write_super s' @ rest))"
proof -
  have "length (jw_vol_uuid s') = 16" using assms(2) by (simp add: j_super_ok_def)
  then have l: "length (enc_j_write_super s' @ rest) = 4096" "4096 + length (enc_j_write_super s' @ rest) \<le> length dev"
    using assms(1) by (simp_all add: super_on_def)
  show ?thesis
    using assms get_put_same [OF l(2) l(1) [symmetric]] length_put_bytes [OF l(2)] by (simp add: super_on_def)
qed

lemma new_write_cache_spec:
  assumes "super_on s rest dev"
  shows "new_write_cache (\<lambda>_. None) cfg dev = Inr
    (\<lparr>w_sequence = (if jw_clean s \<noteq> 0 then jw_seq s else 1), w_total_write_pages = 0,
      w_max_write_pages = cdiv (sbf 32 (jw_limit s - jw_base s)) 2 + cdiv (sbf 32 (jw_limit s - jw_base s)) 4,
      w_outstanding_writes = 0, w_write_batch = wlog_write_window cfg, w_super = s\<lparr>jw_clean := 0\<rparr>, w_super_rest = rest,
      w_previous_hdr = 0, w_next_alloc = jw_base s\<rparr>,
     put_bytes dev 4096 (enc_j_write_super (s\<lparr>jw_clean := 0\<rparr>) @ rest))"
  using super_onD [OF assms] assms by (simp add: new_write_cache_def Let_def roll_log_forward_def super_on_def)

text \<open>
  C27. A new journal. For a size between seven pages and two gigabytes, opening a journal that does
  not exist creates a file of that size and opens it. Its ring is not empty, starts behind the two
  header pages and ends inside the file, so that no record can overwrite the superblock; the first
  record gets sequence number 1.
\<close>

theorem open_wlog_new:
  assumes "length uuid = 16" "7 * 4096 \<le> wlog_bytes cfg" "wlog_bytes cfg < 2 ^ 31"
  shows "\<exists>w dev. open_wlog (\<lambda>_. None) uuid cfg None = Some (w, dev) \<and> ring_ok w \<and> w_next_alloc w = jbase w \<and> w_sequence w = 1
    \<and> 2 \<le> jbase w \<and> 4096 * jlimit w \<le> int (length dev) \<and> int (length dev) = 4096 * (wlog_bytes cfg div 4096)
    \<and> super_on (w_super w) (w_super_rest w) dev"
proof -
  define t where "t = wlog_bytes cfg div 4096"
  have t: "7 \<le> t" "t < 2 ^ 19" "4096 * t < 2 ^ 31" "sbf 32 (wlog_bytes cfg div 4096) = t" "sbf 32 (4096 * t) = 4096 * t"
    using assms(2,3) by (auto simp: t_def sbf_id)
  let ?s = "init_super uuid t" and ?rest = "replicate 4012 (0 :: byte)"
  note L = init_super_layout [OF t(1,2), of uuid] and F = init_super_fields [OF t(1,2) assms(1)]
  define b where "b = page_of (enc_j_hdr (init_hdr t)) @ page_of (enc_j_write_super ?s)"
  have lb: "length b = 8192" using F(5) assms(1) by (simp add: b_def)
  define dev where "dev = resize b (nat (4096 * t))"
  have init: "init_wcache (\<lambda>_. None) uuid (wlog_bytes cfg) = Inr dev"
    using t by (simp add: init_wcache_def Let_def b_def dev_def)
  have ld: "int (length dev) = 4096 * t" using t(1) by (simp add: dev_def)
  have d: "dev = b @ replicate (nat (4096 * t) - 8192) 0" using t(1) lb by (simp add: dev_def resize_def)
  have p0: "get_bytes dev 0 4096 = page_of (enc_j_hdr (init_hdr t))" by (simp add: d b_def get_bytes_def)
  have p1: "get_bytes dev 4096 4096 = enc_j_write_super ?s @ ?rest"
    using F(5) assms(1) by (simp add: d b_def get_bytes_def page_of_def)
  have "j_hdr_ok (init_hdr t)" using t by (simp add: init_hdr_def j_hdr_ok_def u32_def u64_def s32_def LSVD_MAGIC_def LSVD_J_DATA_def)
  from dec_enc_j_hdr [OF this, of "[]"] have h: "dec_j_hdr (get_bytes dev 0 4096) 0 = init_hdr t" by (simp add: p0 page_of_def)
  have on: "super_on ?s ?rest dev" using F p1 ld t(1) by (simp add: super_on_def)
  have "j_super_ok (?s\<lparr>jw_clean := 0\<rparr>)" "jw_magic (?s\<lparr>jw_clean := 0\<rparr>) = LSVD_MAGIC"
    using F by (simp_all add: j_super_ok_def u32_def)
  note on' = super_on_put [OF on this]
  have "length (put_bytes dev 4096 (enc_j_write_super (?s\<lparr>jw_clean := 0\<rparr>) @ ?rest)) = length dev"
    using on F(5) assms(1) by (intro length_put_bytes) (simp add: super_on_def)
  moreover have "open_wlog (\<lambda>_. None) uuid cfg None = Some
    (\<lparr>w_sequence = 1, w_total_write_pages = 0,
      w_max_write_pages = cdiv (sbf 32 (jw_limit ?s - jw_base ?s)) 2 + cdiv (sbf 32 (jw_limit ?s - jw_base ?s)) 4,
      w_outstanding_writes = 0, w_write_batch = wlog_write_window cfg, w_super = ?s\<lparr>jw_clean := 0\<rparr>, w_super_rest = ?rest,
      w_previous_hdr = 0, w_next_alloc = jw_base ?s\<rparr>,
     put_bytes dev 4096 (enc_j_write_super (?s\<lparr>jw_clean := 0\<rparr>) @ ?rest))"
    using init new_write_cache_spec [OF on, of cfg] F h by (simp add: open_wlog_def Let_def init_hdr_def)
  ultimately show ?thesis using L on' ld t by (simp add: ring_ok_def t_def)
qed

definition demo_wlog_cfg :: lsvd_config where
  "demo_wlog_cfg = get_default\<lparr>rcache_bytes := 1048576, wlog_bytes := 57344\<rparr>"

theorem open_wlog_new_witness:
  "\<exists>w dev. open_wlog (\<lambda>_. None) (replicate 16 3) demo_wlog_cfg None = Some (w, dev) \<and> w_sequence w = 1 \<and> int (length dev) = 57344"
  using open_wlog_new [of "replicate 16 3" demo_wlog_cfg] by (auto simp: demo_wlog_cfg_def get_default_def)

text \<open>
  C28. Closing and crashing. Let the superblock on the device be the one of the running journal, which
  is marked dirty. After \<^verbatim>\<open>write_checkpoint\<close> the journal opens again with the ring it had and with the
  next sequence number. Without it, after a crash, the journal opens with sequence number 1 whatever
  records it holds: none of them is looked at.
\<close>

theorem wlog_reopen:
  assumes "super_on (w_super w) (w_super_rest w) dev" "jw_clean (w_super w) = 0" "u64 (w_sequence w)"
  shows "(\<exists>dev' w' dev''. wc_write_checkpoint (\<lambda>_. None) w dev = Inr dev' \<and> new_write_cache (\<lambda>_. None) cfg dev' = Inr (w', dev'')
      \<and> w_sequence w' = w_sequence w \<and> jbase w' = jbase w \<and> jlimit w' = jlimit w \<and> w_next_alloc w' = jbase w)
    \<and> (\<exists>w' dev''. new_write_cache (\<lambda>_. None) cfg dev = Inr (w', dev'') \<and> w_sequence w' = 1
      \<and> jbase w' = jbase w \<and> jlimit w' = jlimit w \<and> w_next_alloc w' = jbase w)"
proof -
  let ?s = "wc_checkpoint_super w"
  have "j_super_ok ?s" "jw_magic ?s = LSVD_MAGIC"
    using assms by (simp_all add: wc_checkpoint_super_def super_on_def j_super_ok_def u32_def s32_def)
  note on = super_on_put [OF assms(1) this]
  have "jw_clean ?s = 1" "jw_seq ?s = w_sequence w" "jw_base ?s = jbase w" "jw_limit ?s = jlimit w"
    by (simp_all add: wc_checkpoint_super_def)
  then show ?thesis
    using new_write_cache_spec [OF on, of cfg] new_write_cache_spec [OF assms(1), of cfg] assms(2)
    by (simp add: wc_write_checkpoint_def)
qed

definition demo_wlog_dev :: "byte list" where
  "demo_wlog_dev = replicate 4096 0 @ enc_j_write_super (w_super demo_wlog) @ replicate 4012 0"

lemma demo_super_on: "super_on (w_super demo_wlog) (w_super_rest demo_wlog) demo_wlog_dev"
proof -
  have ok: "j_super_ok (w_super demo_wlog)" "jw_magic (w_super demo_wlog) = LSVD_MAGIC" "w_super_rest demo_wlog = replicate 4012 0"
    "length (jw_vol_uuid (w_super demo_wlog)) = 16"
    by (simp_all add: demo_wlog_def j_super_ok_def u32_def u64_def s32_def LSVD_MAGIC_def LSVD_J_W_SUPER_def)
  then show ?thesis by (simp add: super_on_def demo_wlog_dev_def get_bytes_def)
qed

theorem wlog_reopen_witness:
  "\<exists>w' dev''. new_write_cache (\<lambda>_. None) demo_wlog_cfg demo_wlog_dev = Inr (w', dev'') \<and> w_sequence w' = 1"
  using wlog_reopen [OF demo_super_on, of demo_wlog_cfg] by (simp add: demo_wlog_def u64_def) blast

end
