(* ===== verification/Pipeline.thy ===== *)
theory Pipeline
  imports Translate_Put Image_Read_Correct
begin

text \<open>
  The write pipeline of the translation layer as a transition system: writes into the current batch,
  batches in the work queue, objects on their way to the store, and completions in any order. The
  content of the volume as a read sees it is changed by writes and by nothing else.
\<close>

section \<open>The system\<close>

text \<open>
  The state of the translation layer, the uploads that have not completed, each with the bytes of its
  object, and the content of the objects in the store.
\<close>

record psys =
  ps_st :: tstate
  ps_flight :: "(translate_req \<times> byte list) list"
  ps_objs :: "int \<Rightarrow> byte list"

definition obj_byte :: "(int \<Rightarrow> byte list) \<Rightarrow> int \<Rightarrow> int \<Rightarrow> byte" where
  "obj_byte objs n k = objs n ! nat k"

text \<open>Byte \<open>j\<close> of sector \<open>x\<close> of the volume, as the read path finds it.\<close>

definition volume :: "psys \<Rightarrow> int \<Rightarrow> int \<Rightarrow> byte" where
  "volume s = sector_byte (obj_byte (ps_objs s)) (t_mem (ps_st s)) (t_bufmap (ps_st s)) (t_objmap (ps_st s))"

section \<open>Batches\<close>

abbreviation ranges :: "translate_req \<Rightarrow> (int \<times> int) list" where
  "ranges r \<equiv> entry_ranges (tr_entries r)"

abbreviation hdr_room :: "translate_req \<Rightarrow> int" where
  "hdr_room r \<equiv> data_hdr_sectors (length (tr_entries r))"

text \<open>The batches that are alive, oldest first: being uploaded, queued, current.\<close>

definition queued :: "tstate \<Rightarrow> translate_req list" where
  "queued st = filter (\<lambda>r. tr_op r = REQ_PUT) (t_queue st) @ [t_current st]"

definition batches :: "psys \<Rightarrow> translate_req list" where
  "batches s = map fst (ps_flight s) @ queued (ps_st s)"

text \<open>The last batch of a list that writes a sector, and the sector's last position in it.\<close>

fun newest :: "translate_req list \<Rightarrow> int \<Rightarrow> (translate_req \<times> int) option" where
  "newest [] x = None"
| "newest (r # rs) x =
     (case newest rs x of
        Some y \<Rightarrow> Some y
      | None \<Rightarrow> map_option (\<lambda>k. (r, k)) (batch_pos (ranges r) 0 x))"

definition geom_ok :: "translate_req \<Rightarrow> bool" where
  "geom_ok r \<longleftrightarrow> tr_op r = REQ_PUT \<and> ranges_ok (ranges r) \<and> length (tr_entries r) < 2 ^ 20
     \<and> tr_len r = 512 * total_len (ranges r) \<and> tr_len r \<le> tr_max r \<and> tr_max r < 2 ^ 31 \<and> tr_max r mod 512 = 0
     \<and> tr_local_buf_base r = tr_data_ptr r \<and> tr_local_buf_limit r = tr_data_ptr r + tr_max r
     \<and> 0 < tr_batch_buf r \<and> tr_batch_buf r + 512 * hdr_room r \<le> tr_data_ptr r"

text \<open>The memory of a batch, from the room for its header to the end of its data.\<close>

definition region :: "translate_req \<Rightarrow> int set" where
  "region r = {tr_batch_buf r..<tr_data_ptr r + tr_max r}"

definition buf_set :: "translate_req list \<Rightarrow> (int \<times> int) set" where
  "buf_set rs = (\<lambda>r. (tr_data_ptr r, tr_max r div 512)) ` set rs"

definition apart :: "translate_req list \<Rightarrow> bool" where
  "apart rs \<longleftrightarrow> (\<forall>i<length rs. \<forall>j<length rs. i \<noteq> j \<longrightarrow> region (rs ! i) \<inter> region (rs ! j) = {})"

lemma newest_append: "newest (xs @ ys) x = (case newest ys x of Some y \<Rightarrow> Some y | None \<Rightarrow> newest xs x)"
  by (induction xs) (auto split: option.splits)

lemma newest_SomeD: "newest rs x = Some (r, k) \<Longrightarrow> r \<in> set rs \<and> batch_pos (ranges r) 0 x = Some k"
  by (induction rs) (auto split: option.splits)

lemma newest_None: "newest rs x = None \<longleftrightarrow> (\<forall>r\<in>set rs. batch_pos (ranges r) 0 x = None)"
  by (induction rs) (auto split: option.splits)

lemma geom_pos:
  assumes "geom_ok r" "batch_pos (ranges r) 0 x = Some k"
  shows "0 \<le> k" "512 * k + 512 \<le> tr_len r" "tr_data_ptr r + 512 * k \<in> region r"
    "\<And>j. 0 \<le> j \<Longrightarrow> j < 512 \<Longrightarrow> tr_data_ptr r + 512 * k + j \<in> region r"
proof -
  have k: "0 \<le> k" "k < total_len (ranges r)" using batch_pos_range [OF _ assms(2)] assms(1) by (auto simp: geom_ok_def)
  have h: "0 \<le> hdr_room r" using assms(1) data_hdr_sectors_bounds(3) [of "length (tr_entries r)"] by (auto simp: geom_ok_def)
  show "0 \<le> k" "512 * k + 512 \<le> tr_len r" using k assms(1) by (auto simp: geom_ok_def)
  then show "tr_data_ptr r + 512 * k \<in> region r" "\<And>j. 0 \<le> j \<Longrightarrow> j < 512 \<Longrightarrow> tr_data_ptr r + 512 * k + j \<in> region r"
    using assms(1) h by (auto simp: geom_ok_def region_def)
qed

lemma separate_buf_set:
  assumes "\<forall>r\<in>set rs. geom_ok r" "apart rs"
  shows "separate (buf_set rs)"
proof -
  have size: "0 \<le> tr_max r div 512 \<and> tr_max r div 512 < 2 ^ 24" if "r \<in> set rs" for r
  proof -
    have "0 \<le> tr_max r" "tr_max r < 2 ^ 31"
      using assms(1) that total_len_nonneg [of "ranges r"] by (auto simp: geom_ok_def)
    then show ?thesis by auto
  qed
  have gap: "tr_data_ptr r + 512 * (tr_max r div 512) < tr_data_ptr r' \<or> tr_data_ptr r' + 512 * (tr_max r' div 512) < tr_data_ptr r
      \<or> r = r'" if mem: "r \<in> set rs" "r' \<in> set rs" for r r'
  proof (cases "r = r'")
    case False
    obtain i j where ij: "i < length rs" "rs ! i = r" "j < length rs" "rs ! j = r'" using mem by (auto simp: in_set_conv_nth)
    then have dis: "region r \<inter> region r' = {}" using assms(2) False by (auto simp: apart_def)
    have g: "0 \<le> tr_max q" "tr_max q mod 512 = 0" "tr_batch_buf q + 512 \<le> tr_data_ptr q" if "q \<in> {r, r'}" for q
      using assms(1) mem that total_len_nonneg [of "ranges q"] data_hdr_sectors_bounds(3) [of "length (tr_entries q)"]
      by (auto simp: geom_ok_def)
    have m: "512 * (tr_max q div 512) = tr_max q" if "q \<in> {r, r'}" for q using g(2) [OF that] by auto
    have "tr_data_ptr r - 1 \<notin> region r' \<and> tr_data_ptr r' - 1 \<notin> region r"
      using dis g [of r] g [of r'] by (auto simp: region_def)
    then show ?thesis using g [of r] g [of r'] m [of r] m [of r'] by (auto simp: region_def)
  qed simp
  show ?thesis unfolding separate_def buf_set_def using size gap by blast
qed

end
