(* ===== verification/Pipeline_Maps.thy ===== *)
theory Pipeline_Maps
  imports Pipeline
begin

text \<open>
  What the pipeline does to the buffer map: buffers that come and go, the pieces that a completed
  batch still owns, and the update of a write.
\<close>

section \<open>Sets of buffers\<close>

lemma separate_subset: "separate B \<Longrightarrow> B' \<subseteq> B \<Longrightarrow> separate B'"
  unfolding separate_def by blast

lemma same_buffer:
  assumes "separate B" "(s, n) \<in> B" "(t, m) \<in> B" "s \<le> a" "a < s + 512 * n" "t \<le> a" "a < t + 512 * m"
  shows "(s, n) = (t, m)"
  using assms unfolding separate_def by force

lemma bufmap_grow:
  assumes "bufmap_ok B m" "B \<subseteq> B'" "separate B'"
  shows "bufmap_ok B' m"
proof -
  have "buf_pok B p n \<Longrightarrow> buf_pok B' p n" for p n using assms(2,3) by (auto simp: buf_pok_def)
  then show ?thesis using assms(1) by (auto simp: map_ok_def extents_ok_def ext_ok_def)
qed

lemma bufmap_shrink:
  assumes ok: "bufmap_ok B m" and sub: "B' \<subseteq> B" "separate B"
    and used: "\<And>x p. buf_look m x = Some p \<Longrightarrow> \<exists>(s, k)\<in>B'. s \<le> buf p \<and> buf p < s + 512 * k"
  shows "bufmap_ok B' m"
proof -
  have "buf_pok B' (s_ptr e) (s_len e)" if e: "e \<in> set (flat m)" for e
  proof -
    have eo: "extents_ok buf_amax (buf_pok B) (flat m)" "ext_ok buf_amax (buf_pok B) e"
      using ok e by (simp_all add: map_ok_def extents_ok_def)
    then have n: "0 < s_len e" by (simp add: ext_ok_def)
    have "buf_look m (s_base e) = Some (sector_ptr_plus (s_ptr e) 0)"
      using seq_get_mem [OF eo(1) e, of "s_base e" lba2buf] n by (simp add: lookup_fun_def limit_def)
    then obtain s k where sk: "(s, k) \<in> B'" "s \<le> buf (s_ptr e)" "buf (s_ptr e) < s + 512 * k"
      using used [of "s_base e"] by (auto simp: sector_ptr_plus_in)
    obtain t l where tl: "(t, l) \<in> B" "t \<le> buf (s_ptr e)" "buf (s_ptr e) + 512 * s_len e \<le> t + 512 * l"
      using eo(2) by (auto simp: ext_ok_def buf_pok_def)
    have "(s, k) = (t, l)" by (rule same_buffer [OF sub(2) _ tl(1) sk(2,3) tl(2)]) (use sk(1) sub(1) tl(3) n in auto)
    then show ?thesis using sk(1) tl n separate_subset [OF sub(2,1)] by (auto simp: buf_pok_def)
  qed
  then show ?thesis using ok by (auto simp: map_ok_def extents_ok_def ext_ok_def)
qed

section \<open>The pieces a batch still owns\<close>

definition in_buf :: "translate_req \<Rightarrow> sector_ptr \<Rightarrow> bool" where
  "in_buf r q \<longleftrightarrow> tr_local_buf_base r \<le> buf q \<and> buf q < tr_local_buf_limit r"

lemma batch_pos_covered0: "batch_pos es off x \<noteq> None \<longleftrightarrow> (\<exists>(lba, len)\<in>set es. lba \<le> x \<and> x < lba + len)"
proof (induction es arbitrary: off)
  case (Cons e es)
  obtain lba len where e: "e = (lba, len)" by (cases e)
  show ?case using Cons.IH [of "off + len"] unfolding e by (cases "batch_pos es (off + len) x") auto
qed simp

lemma piece_pointer:
  assumes "ext_ok buf_amax (buf_pok B) (piece_ext (c, k, p))" "c \<le> x" "x < k" "separate B"
    and r: "(s, n) \<in> B"
  shows "ptr_plus lba2buf p (x - c) = Sector_ptr (buf p + 512 * (x - c))"
    "(s \<le> buf p \<and> buf p < s + 512 * n) \<longleftrightarrow> (s \<le> buf p + 512 * (x - c) \<and> buf p + 512 * (x - c) < s + 512 * n)"
proof -
  have pk: "buf_pok B p (k - c)" using assms(1) by (simp add: ext_ok_def)
  then have "k - c < 2 ^ 24" using buf_pok_len by blast
  then show "ptr_plus lba2buf p (x - c) = Sector_ptr (buf p + 512 * (x - c))"
    using assms(2,3) by (simp add: sector_ptr_plus_in mult.commute)
  obtain t m where tm: "(t, m) \<in> B" "t \<le> buf p" "buf p + 512 * (k - c) \<le> t + 512 * m" using pk by (auto simp: buf_pok_def)
  have eq: "(s, n) = (t, m)" if "s \<le> a" "a < s + 512 * n" "a = buf p \<or> a = buf p + 512 * (x - c)" for a
    by (rule same_buffer [OF assms(4) r tm(1) that(1,2)]) (use that(3) tm assms(2,3) in auto)
  show "(s \<le> buf p \<and> buf p < s + 512 * n) \<longleftrightarrow> (s \<le> buf p + 512 * (x - c) \<and> buf p + 512 * (x - c) < s + 512 * n)"
  proof
    assume h: "s \<le> buf p \<and> buf p < s + 512 * n"
    then show "s \<le> buf p + 512 * (x - c) \<and> buf p + 512 * (x - c) < s + 512 * n" using eq [of "buf p"] tm assms(2,3) by auto
  next
    assume h: "s \<le> buf p + 512 * (x - c) \<and> buf p + 512 * (x - c) < s + 512 * n"
    then show "s \<le> buf p \<and> buf p < s + 512 * n" using eq [of "buf p + 512 * (x - c)"] tm assms(2,3) by auto
  qed
qed

lemma range_piece:
  assumes ok: "bufmap_ok B bm" and b: "0 \<le> b" "b < l" "b < buf_amax" and m: "(c, k, p) \<in> set (range_vals lba2buf bm b l)"
  shows "ext_ok buf_amax (buf_pok B) (piece_ext (c, k, p))" "b \<le> c" "c < k" "k \<le> l"
    "c \<le> y \<Longrightarrow> y < k \<Longrightarrow> buf_look bm y = Some (ptr_plus lba2buf p (y - c))"
proof -
  note R = bm.range_vals_spec [OF ok b]
  have pin: "piece_ext (c, k, p) \<in> set (map piece_ext (range_vals lba2buf bm b l))" using m by force
  show "ext_ok buf_amax (buf_pok B) (piece_ext (c, k, p))" by (rule extents_ok_mem [OF R(1) pin])
  show ck: "b \<le> c" "c < k" "k \<le> l" using R(3) m by auto
  show "c \<le> y \<Longrightarrow> y < k \<Longrightarrow> buf_look bm y = Some (ptr_plus lba2buf p (y - c))"
    using seq_get_mem [OF R(1) pin, of y lba2buf] R(2) ck by (simp add: map_slice_def fun_eq_iff split: if_splits)
qed

lemma own_pieces_spec:
  assumes ok: "bufmap_ok B bm" "separate B" and r: "(tr_data_ptr r, tr_max r div 512) \<in> B" and g: "geom_ok r"
  shows "\<forall>(b, l)\<in>set (own_pieces r bm). 0 \<le> b \<and> b < l \<and> l \<le> buf_amax"
    "(\<exists>(b, l)\<in>set (own_pieces r bm). b \<le> x \<and> x < l) \<longleftrightarrow>
       batch_pos (ranges r) 0 x \<noteq> None \<and> (\<exists>q. buf_look bm x = Some q \<and> in_buf r q)"
proof -
  let ?rv = "\<lambda>e. range_vals lba2buf bm (me_lba e) (me_lba e + me_len e)"
  have lim: "tr_local_buf_base r = tr_data_ptr r" "tr_local_buf_limit r = tr_data_ptr r + 512 * (tr_max r div 512)"
    using g by (auto simp: geom_ok_def)
  have rng: "0 \<le> me_lba e" "0 < me_len e" "me_lba e + me_len e \<le> obj_amax" if "e \<in> set (tr_entries r)" for e
    using g that by (auto simp: geom_ok_def ranges_ok_def list_all_iff)
  have amax: "obj_amax < buf_amax" by (simp add: obj_amax_def buf_amax_def)
  have b: "0 \<le> me_lba e" "me_lba e < me_lba e + me_len e" "me_lba e < buf_amax" if "e \<in> set (tr_entries r)" for e
    using rng [OF that] amax by auto
  note pc = range_piece [OF ok(1) b]
  have mem: "(b, l) \<in> set (own_pieces r bm) \<longleftrightarrow>
      (\<exists>e p. e \<in> set (tr_entries r) \<and> (b, l, p) \<in> set (?rv e) \<and> in_buf r p)" for b l
    by (force simp: own_pieces_def in_buf_def)
  show "\<forall>(b, l)\<in>set (own_pieces r bm). 0 \<le> b \<and> b < l \<and> l \<le> buf_amax"
  proof clarify
    fix b l assume "(b, l) \<in> set (own_pieces r bm)"
    then obtain e p where e: "e \<in> set (tr_entries r)" "(b, l, p) \<in> set (?rv e)" unfolding mem by blast
    show "0 \<le> b \<and> b < l \<and> l \<le> buf_amax" using pc(2-4) [OF e(1) e(1) e(1) e(2)] rng [OF e(1)] amax by linarith
  qed
  have own: "in_buf r p \<longleftrightarrow> in_buf r (ptr_plus lba2buf p (x - c))"
    if "e \<in> set (tr_entries r)" "(c, k, p) \<in> set (?rv e)" "c \<le> x" "x < k" for e c k p
    using piece_pointer [OF pc(1) [OF that(1) that(1) that(1,2)] that(3,4) ok(2) r] lim by (simp add: in_buf_def)
  have cov: "batch_pos (ranges r) 0 x \<noteq> None \<longleftrightarrow> (\<exists>e\<in>set (tr_entries r). me_lba e \<le> x \<and> x < me_lba e + me_len e)"
    unfolding batch_pos_covered0 by auto
  show "(\<exists>(b, l)\<in>set (own_pieces r bm). b \<le> x \<and> x < l) \<longleftrightarrow>
       batch_pos (ranges r) 0 x \<noteq> None \<and> (\<exists>q. buf_look bm x = Some q \<and> in_buf r q)"
  proof
    assume "\<exists>(b, l)\<in>set (own_pieces r bm). b \<le> x \<and> x < l"
    then obtain b l where "(b, l) \<in> set (own_pieces r bm)" and x: "b \<le> x" "x < l" by blast
    then obtain e p where e: "e \<in> set (tr_entries r)" "(b, l, p) \<in> set (?rv e)" "in_buf r p" unfolding mem by blast
    have "buf_look bm x = Some (ptr_plus lba2buf p (x - b))" by (rule pc(5) [OF e(1) e(1) e(1,2) x])
    moreover have "in_buf r (ptr_plus lba2buf p (x - b))" using own [OF e(1,2) x] e(3) by blast
    moreover have "me_lba e \<le> x \<and> x < me_lba e + me_len e" using pc(2-4) [OF e(1) e(1) e(1,2)] x by linarith
    ultimately show "batch_pos (ranges r) 0 x \<noteq> None \<and> (\<exists>q. buf_look bm x = Some q \<and> in_buf r q)" using e(1) cov by blast
  next
    assume "batch_pos (ranges r) 0 x \<noteq> None \<and> (\<exists>q. buf_look bm x = Some q \<and> in_buf r q)"
    then obtain e q where e: "e \<in> set (tr_entries r)" "me_lba e \<le> x" "x < me_lba e + me_len e"
      and q: "buf_look bm x = Some q" "in_buf r q" using cov by blast
    have "seq_get lba2buf (map piece_ext (?rv e)) x = Some q"
      using bm.range_vals_spec(2) [OF ok(1) b [OF e(1)]] q(1) e(2,3) by (simp add: map_slice_def)
    from seq_get_SomeD [OF this] obtain c k p where p: "(c, k, p) \<in> set (?rv e)" "c \<le> x" "x < k" "q = ptr_plus lba2buf p (x - c)"
      by auto
    then have "in_buf r p" using own [OF e(1) p(1-3)] q(2) by simp
    then show "\<exists>(b, l)\<in>set (own_pieces r bm). b \<le> x \<and> x < l" using mem e(1) p(1-3) by blast
  qed
qed

end
