(* ===== verification/Pipeline_Inv.thy ===== *)
theory Pipeline_Inv
  imports Pipeline_Maps
begin

text \<open>
  The steps of the pipeline, its invariant, and the steps that open a new batch or put a flush or a
  checkpoint into the queue.
\<close>

section \<open>Steps\<close>

text \<open>The configured object size leaves room for a header and keeps all sizes in 31 bits.\<close>

definition cfg_ok :: "lsvd_config \<Rightarrow> bool" where
  "cfg_ok cfg \<longleftrightarrow> 2 ^ 20 \<le> backend_obj_bytes cfg \<and> backend_obj_bytes cfg \<le> 2 ^ 30 \<and> backend_obj_bytes cfg mod 512 = 0"

text \<open>What \<^verbatim>\<open>malloc\<close> returns for a new batch does not overlap a batch that is alive.\<close>

definition fresh_buf :: "psys \<Rightarrow> int \<Rightarrow> bool" where
  "fresh_buf s p \<longleftrightarrow> 0 < p \<and>
     (\<forall>r\<in>set (batches s). region (new_put_req p (backend_obj_bytes (t_cfg (ps_st s)))) \<inter> region r = {})"

text \<open>A write of whole sectors, from memory that belongs to no batch, that fits into an object.\<close>

definition write_ok :: "psys \<Rightarrow> int \<Rightarrow> int \<Rightarrow> iovec list \<Rightarrow> bool" where
  "write_ok s p lba iov \<longleftrightarrow> iov_ok iov \<and> 0 \<le> lba \<and> lba + bytes iov div 512 \<le> 2 ^ 35 \<and> 0 < bytes iov \<and> bytes iov mod 512 = 0
     \<and> bytes iov \<le> backend_obj_bytes (t_cfg (ps_st s))
     \<and> (\<forall>a\<in>set (addrs iov). \<forall>r\<in>set (batches s) \<union> {new_put_req p (backend_obj_bytes (t_cfg (ps_st s)))}. a \<notin> region r)"

text \<open>The header of a batch fits into the room in front of its data.\<close>

definition hdr_fits :: "translate_req \<Rightarrow> bool" where
  "hdr_fits r \<longleftrightarrow> length (tr_entries r) < 2 ^ 20 \<and> tr_batch_buf r + 512 * hdr_room r \<le> tr_data_ptr r"

datatype pevent = Wrote int "byte list" | Internal

inductive pstep :: "(byte list \<Rightarrow> int) \<Rightarrow> psys \<Rightarrow> pevent \<Rightarrow> psys \<Rightarrow> bool" for zcrc where
  p_write: "write_ok s p lba iov \<Longrightarrow> fresh_buf s p \<Longrightarrow> writev p (ps_st s) (512 * lba) iov = Some st' \<Longrightarrow>
    hdr_fits (t_current st') \<Longrightarrow>
    pstep zcrc s (Wrote lba (map (t_mem (ps_st s)) (addrs iov))) (s\<lparr>ps_st := st'\<rparr>)"
| p_roll: "fresh_buf s p \<Longrightarrow> st' \<in> {roll_batch p (ps_st s), flush p (ps_st s), checkpoint p (ps_st s)} \<Longrightarrow>
    pstep zcrc s Internal (s\<lparr>ps_st := st'\<rparr>)"
| p_work: "t_queue (ps_st s) = r # q \<Longrightarrow> tr_op r \<noteq> REQ_PUT \<Longrightarrow> t_cur_seq (ps_st s) + 1 < 2 ^ 32 \<Longrightarrow>
    worker_step zcrc (ps_st s) = Some st' \<Longrightarrow> pstep zcrc s Internal (s\<lparr>ps_st := st'\<rparr>)"
| p_put: "t_queue (ps_st s) = r # q \<Longrightarrow> tr_op r = REQ_PUT \<Longrightarrow> t_cur_seq (ps_st s) + 1 < 2 ^ 32 \<Longrightarrow>
    worker_step zcrc (ps_st s) = Some st' \<Longrightarrow> t_out st' = t_out (ps_st s) @ [c, Aio_write nm bs r'] \<Longrightarrow>
    pstep zcrc s Internal (s\<lparr>ps_st := st', ps_flight := ps_flight s @ [(r', bs)]\<rparr>)"
| p_done: "ps_flight s = xs @ (r, bs) # ys \<Longrightarrow>
    pstep zcrc s Internal (s\<lparr>ps_st := notify u r (ps_st s), ps_flight := xs @ ys, ps_objs := (ps_objs s)(tr_seq r := bs)\<rparr>)"

section \<open>The invariant\<close>

definition upload_ok :: "memory \<Rightarrow> translate_req \<Rightarrow> byte list \<Rightarrow> bool" where
  "upload_ok mem r bs \<longleftrightarrow> (\<forall>k j. 0 \<le> k \<longrightarrow> k < total_len (ranges r) \<longrightarrow> 0 \<le> j \<longrightarrow> j < 512 \<longrightarrow>
     bs ! nat ((hdr_room r + k) * 512 + j) = mem (tr_data_ptr r + 512 * k + j))"

text \<open>What does not involve the maps.\<close>

definition base_inv :: "psys \<Rightarrow> bool" where
  "base_inv s \<longleftrightarrow> (let st = ps_st s in
     length (t_uuid st) = 16 \<and> t_clones st = [] \<and> cfg_ok (t_cfg st)
     \<and> (\<forall>r\<in>set (batches s). geom_ok r) \<and> apart (batches s)
     \<and> (\<forall>r\<in>set (t_queue st). tr_op r \<noteq> REQ_GC)
     \<and> distinct (map (tr_seq \<circ> fst) (ps_flight s)) \<and> (\<forall>x\<in>set (ps_flight s). tr_seq (fst x) < t_cur_seq st)
     \<and> 0 \<le> t_cur_seq st \<and> t_cur_seq st < 2 ^ 32
     \<and> (\<forall>x\<in>set (ps_flight s). upload_ok (t_mem st) (fst x) (snd x))
     \<and> t_outstanding_writes st = int (length (ps_flight s)))"

text \<open>
  What the two maps say: a buffered sector is the newest one of the batches that are alive; the
  sectors of batches that have not been uploaded are buffered; a buffered sector of an upload is
  mapped to its place in the object; a sector that is not buffered is in no upload.
\<close>

definition maps_inv :: "psys \<Rightarrow> bool" where
  "maps_inv s \<longleftrightarrow> (let bm = t_bufmap (ps_st s); om = t_objmap (ps_st s) in
     objmap_ok om \<and> live_ok (t_object_info (ps_st s)) om \<and> bufmap_ok (buf_set (batches s)) bm
     \<and> (\<forall>x q. buf_look bm x = Some q \<longrightarrow>
          (\<exists>r k. newest (batches s) x = Some (r, k) \<and> buf q = tr_data_ptr r + 512 * k))
     \<and> (\<forall>x. newest (queued (ps_st s)) x \<noteq> None \<longrightarrow> buf_look bm x \<noteq> None)
     \<and> (\<forall>x r k. buf_look bm x \<noteq> None \<longrightarrow> newest (queued (ps_st s)) x = None \<longrightarrow> newest (map fst (ps_flight s)) x = Some (r, k) \<longrightarrow>
          obj_look om x = Some (Obj_offset (tr_seq r) (hdr_room r + k)))
     \<and> (\<forall>x q. obj_look om x = Some q \<longrightarrow> buf_look bm x = None \<longrightarrow> obj q \<notin> (tr_seq \<circ> fst) ` set (ps_flight s))
     \<and> (\<forall>x q. obj_look om x = Some q \<longrightarrow> obj q < t_cur_seq (ps_st s)))"

definition pipe_inv :: "psys \<Rightarrow> bool" where
  "pipe_inv s \<longleftrightarrow> base_inv s \<and> maps_inv s"

lemma base_invD:
  assumes "base_inv s"
  shows "length (t_uuid (ps_st s)) = 16" "t_clones (ps_st s) = []" "cfg_ok (t_cfg (ps_st s))"
    "r \<in> set (batches s) \<Longrightarrow> geom_ok r" "apart (batches s)" "r \<in> set (t_queue (ps_st s)) \<Longrightarrow> tr_op r \<noteq> REQ_GC"
    "distinct (map (tr_seq \<circ> fst) (ps_flight s))" "f \<in> set (ps_flight s) \<Longrightarrow> tr_seq (fst f) < t_cur_seq (ps_st s)"
    "0 \<le> t_cur_seq (ps_st s)" "t_cur_seq (ps_st s) < 2 ^ 32"
    "f \<in> set (ps_flight s) \<Longrightarrow> upload_ok (t_mem (ps_st s)) (fst f) (snd f)"
    "t_outstanding_writes (ps_st s) = int (length (ps_flight s))"
  using assms unfolding base_inv_def Let_def by blast+

lemma maps_invD:
  assumes "maps_inv s"
  shows "objmap_ok (t_objmap (ps_st s))" "live_ok (t_object_info (ps_st s)) (t_objmap (ps_st s))"
    "bufmap_ok (buf_set (batches s)) (t_bufmap (ps_st s))"
    "buf_look (t_bufmap (ps_st s)) x = Some q \<Longrightarrow> \<exists>r k. newest (batches s) x = Some (r, k) \<and> buf q = tr_data_ptr r + 512 * k"
    "newest (queued (ps_st s)) x \<noteq> None \<Longrightarrow> buf_look (t_bufmap (ps_st s)) x \<noteq> None"
    "buf_look (t_bufmap (ps_st s)) x \<noteq> None \<Longrightarrow> newest (queued (ps_st s)) x = None \<Longrightarrow>
      newest (map fst (ps_flight s)) x = Some (r, k) \<Longrightarrow> obj_look (t_objmap (ps_st s)) x = Some (Obj_offset (tr_seq r) (hdr_room r + k))"
    "obj_look (t_objmap (ps_st s)) x = Some q' \<Longrightarrow> buf_look (t_bufmap (ps_st s)) x = None \<Longrightarrow>
      obj q' \<notin> (tr_seq \<circ> fst) ` set (ps_flight s)"
    "obj_look (t_objmap (ps_st s)) x = Some q' \<Longrightarrow> obj q' < t_cur_seq (ps_st s)"
  using assms unfolding maps_inv_def Let_def by blast+

lemma cur_in_batches: "t_current (ps_st s) \<in> set (batches s)"
  by (simp add: batches_def queued_def)

section \<open>New batches\<close>

lemma new_put_geom:
  assumes "cfg_ok cfg" "0 < p"
  shows "geom_ok (new_put_req p (backend_obj_bytes cfg))" "ranges (new_put_req p n) = []"
proof -
  let ?n = "backend_obj_bytes cfg"
  have n: "2 ^ 20 \<le> ?n" "?n \<le> 2 ^ 30" "?n mod 512 = 0" using assms(1) by (simp_all add: cfg_ok_def)
  have "4096 \<le> 1024 + ?n div 2048 * 8" "1024 + ?n div 2048 * 8 < 2 ^ 31" using n by auto
  then have m: "4096 \<le> max_hdr_bytes ?n" by (simp add: max_hdr_bytes_def sbf_id)
  have "data_hdr_sectors 0 = 8" by (simp add: data_hdr_sectors_eq)
  then show "geom_ok (new_put_req p ?n)" using n m assms(2) by (simp add: geom_ok_def new_put_req_def)
  show "ranges (new_put_req p n) = []" by (simp add: new_put_req_def)
qed

lemma newest_snoc_empty: "ranges r = [] \<Longrightarrow> newest (rs @ [r]) x = newest rs x"
  by (simp add: newest_append)

lemma apart_snoc:
  assumes "apart rs" "\<forall>r'\<in>set rs. region r \<inter> region r' = {}"
  shows "apart (rs @ [r])"
  unfolding apart_def using assms by (auto simp: apart_def nth_append less_Suc_eq)

lemma volume_cong:
  assumes "t_mem st' = t_mem (ps_st s)" "t_bufmap st' = t_bufmap (ps_st s)" "t_objmap st' = t_objmap (ps_st s)"
  shows "volume (s\<lparr>ps_st := st'\<rparr>) = volume s"
  using assms by (simp add: volume_def)

lemma inv_roll:
  assumes inv: "pipe_inv s" and p: "fresh_buf s p"
  shows "pipe_inv (s\<lparr>ps_st := roll_batch p (ps_st s)\<rparr>)" "volume (s\<lparr>ps_st := roll_batch p (ps_st s)\<rparr>) = volume s"
proof -
  let ?st = "ps_st s"
  let ?n = "new_put_req p (backend_obj_bytes (t_cfg ?st))" and ?s = "s\<lparr>ps_st := roll_batch p (ps_st s)\<rparr>"
  have b: "base_inv s" "maps_inv s" using inv by (simp_all add: pipe_inv_def)
  note B = base_invD [OF b(1)] and M = maps_invD [OF b(2)]
  have cur: "tr_op (t_current ?st) = REQ_PUT" using B(4) [OF cur_in_batches] by (simp add: geom_ok_def)
  have q: "queued (ps_st ?s) = queued ?st @ [?n]" using cur by (simp add: queued_def roll_batch_def)
  have bt: "batches ?s = batches s @ [?n]" using q by (simp add: batches_def)
  have g: "geom_ok ?n" "ranges ?n = []" using new_put_geom [OF B(3)] p by (simp_all add: fresh_buf_def)
  have geo: "\<forall>r\<in>set (batches ?s). geom_ok r" using B(4) g(1) bt by auto
  have ap: "apart (batches ?s)" unfolding bt by (rule apart_snoc [OF B(5)]) (use p in \<open>auto simp: fresh_buf_def\<close>)
  have nw: "newest (batches ?s) x = newest (batches s) x" "newest (queued (ps_st ?s)) x = newest (queued ?st) x" for x
    unfolding bt q using newest_snoc_empty [OF g(2)] by simp_all
  have same: "t_bufmap (ps_st ?s) = t_bufmap ?st" "t_objmap (ps_st ?s) = t_objmap ?st" "t_object_info (ps_st ?s) = t_object_info ?st"
    "t_cur_seq (ps_st ?s) = t_cur_seq ?st" "t_mem (ps_st ?s) = t_mem ?st" "ps_flight ?s = ps_flight s"
    by (simp_all add: roll_batch_def)
  have "bufmap_ok (buf_set (batches ?s)) (t_bufmap ?st)"
    by (rule bufmap_grow [OF M(3)]) (use separate_buf_set [OF geo ap] bt in \<open>auto simp: buf_set_def\<close>)
  then have "maps_inv ?s" unfolding maps_inv_def Let_def nw same using b(2) [unfolded maps_inv_def Let_def] by blast
  moreover have "\<forall>r\<in>set (t_queue (ps_st ?s)). tr_op r \<noteq> REQ_GC" using B(6) cur by (auto simp: roll_batch_def)
  then have "base_inv ?s" unfolding base_inv_def Let_def same using geo ap B by (auto simp: roll_batch_def)
  ultimately show "pipe_inv ?s" by (simp add: pipe_inv_def)
  show "volume ?s = volume s" by (rule volume_cong) (simp_all add: roll_batch_def)
qed

text \<open>A request that is not a batch in the queue changes nothing.\<close>

lemma inv_enqueue:
  assumes "pipe_inv s" "tr_op r \<notin> {REQ_PUT, REQ_GC}"
  shows "pipe_inv (s\<lparr>ps_st := (ps_st s)\<lparr>t_queue := t_queue (ps_st s) @ [r]\<rparr>\<rparr>)"
    "volume (s\<lparr>ps_st := (ps_st s)\<lparr>t_queue := t_queue (ps_st s) @ [r]\<rparr>\<rparr>) = volume s"
proof -
  let ?s = "s\<lparr>ps_st := (ps_st s)\<lparr>t_queue := t_queue (ps_st s) @ [r]\<rparr>\<rparr>"
  have q: "queued (ps_st ?s) = queued (ps_st s)" "batches ?s = batches s" using assms(2) by (simp_all add: queued_def batches_def)
  have "base_inv ?s" using assms unfolding pipe_inv_def base_inv_def Let_def q by auto
  moreover have "maps_inv ?s" using assms(1) unfolding pipe_inv_def maps_inv_def Let_def q by simp
  ultimately show "pipe_inv ?s" by (simp add: pipe_inv_def)
  show "volume ?s = volume s" by (rule volume_cong) simp_all
qed

lemma inv_new_requests:
  assumes inv: "pipe_inv s" and p: "fresh_buf s p" and st: "st' \<in> {roll_batch p (ps_st s), flush p (ps_st s), checkpoint p (ps_st s)}"
  shows "pipe_inv (s\<lparr>ps_st := st'\<rparr>) \<and> volume (s\<lparr>ps_st := st'\<rparr>) = volume s"
proof -
  have op: "tr_op (new_req t) = t" for t by (simp add: new_req_def)
  have e: "pipe_inv (s\<lparr>ps_st := st1\<lparr>t_queue := t_queue st1 @ [new_req t]\<rparr>\<rparr>)
      \<and> volume (s\<lparr>ps_st := st1\<lparr>t_queue := t_queue st1 @ [new_req t]\<rparr>\<rparr>) = volume s"
    if "st1 \<in> {ps_st s, roll_batch p (ps_st s)}" "t \<in> {REQ_FLUSH, REQ_CKPT}" for st1 t
  proof -
    have "pipe_inv (s\<lparr>ps_st := st1\<rparr>)" "volume (s\<lparr>ps_st := st1\<rparr>) = volume s"
      using that(1) inv inv_roll [OF inv p] by auto
    then show ?thesis using inv_enqueue [of "s\<lparr>ps_st := st1\<rparr>" "new_req t"] that(2) op by auto
  qed
  then show ?thesis using st inv_roll [OF inv p] by (auto simp: flush_def checkpoint_def Let_def)
qed

end
