(* ===== verification/Pipeline_Write.thy ===== *)
theory Pipeline_Write
  imports Pipeline_Inv
begin

text \<open>
  A write of the pipeline: it never fails an assertion, keeps the invariant, and changes exactly the
  sectors it is asked to write.
\<close>

section \<open>The current batch is the last one\<close>

definition older :: "psys \<Rightarrow> translate_req list" where
  "older s = map fst (ps_flight s) @ filter (\<lambda>r. tr_op r = REQ_PUT) (t_queue (ps_st s))"

lemma batches_older: "batches s = older s @ [t_current (ps_st s)]"
  by (simp add: batches_def queued_def older_def)

lemma apart_last: "apart (rs @ [c]) \<Longrightarrow> r \<in> set rs \<Longrightarrow> region r \<inter> region c = {}"
proof -
  assume a: "apart (rs @ [c])" and "r \<in> set rs"
  then obtain i where "i < length rs" "rs ! i = r" by (auto simp: in_set_conv_nth)
  moreover have "region ((rs @ [c]) ! i) \<inter> region ((rs @ [c]) ! length rs) = {}"
    using a [unfolded apart_def, rule_format, of i "length rs"] \<open>i < length rs\<close> by simp
  ultimately show ?thesis by (simp add: nth_append)
qed

lemma apart_cong: "map region rs = map region rs' \<Longrightarrow> apart rs \<Longrightarrow> apart rs'"
proof -
  assume m: "map region rs = map region rs'" and a: "apart rs"
  have len: "length rs = length rs'" using m by (rule map_eq_imp_length_eq)
  have "region (rs ! i) = region (rs' ! i)" if "i < length rs'" for i
    using arg_cong [OF m, of "\<lambda>l. l ! i"] that len by simp
  then show ?thesis using a len unfolding apart_def by simp
qed

lemma newest_last:
  "newest (rs @ [c]) x = (case batch_pos (ranges c) 0 x of Some k \<Rightarrow> Some (c, k) | None \<Rightarrow> newest rs x)"
  by (cases "batch_pos (ranges c) 0 x") (simp_all add: newest_append)

section \<open>Memory of the batches\<close>

text \<open>Changes that stay inside one batch do not touch what the other batches upload.\<close>

lemma upload_ok_frame:
  assumes "upload_ok mem r bs" "geom_ok r" "\<And>a. a \<in> region r \<Longrightarrow> mem' a = mem a"
  shows "upload_ok mem' r bs"
proof -
  have "tr_data_ptr r + 512 * k + j \<in> region r" if "0 \<le> k" "k < total_len (ranges r)" "0 \<le> j" "j < 512" for k j
  proof -
    have "512 * k + 512 \<le> 512 * total_len (ranges r)" using that by simp
    then show ?thesis
      using assms(2) that data_hdr_sectors_bounds(3) [of "length (tr_entries r)"] by (auto simp: geom_ok_def region_def)
  qed
  then show ?thesis using assms(1,3) unfolding upload_ok_def by auto
qed

section \<open>Appending to the current batch\<close>

definition appended :: "translate_req \<Rightarrow> int \<Rightarrow> int \<Rightarrow> translate_req" where
  "appended r lba n = r\<lparr>tr_entries := tr_entries r @ [mk_ckpt_mapentry lba n 0 0], tr_len := tr_len r + 512 * n\<rparr>"

lemma appended_simps [simp]:
  "tr_op (appended r lba n) = tr_op r" "tr_data_ptr (appended r lba n) = tr_data_ptr r" "tr_max (appended r lba n) = tr_max r"
  "region (appended r lba n) = region r" "tr_batch_buf (appended r lba n) = tr_batch_buf r"
  by (simp_all add: appended_def region_def)

lemma appended_ranges:
  assumes "0 \<le> lba" "lba < 2 ^ 35" "0 < n" "n < 2 ^ 27"
  shows "ranges (appended r lba n) = ranges r @ [(lba, n)]"
  using assms by (simp add: appended_def mk_ckpt_mapentry_def sbf_id)

lemma appended_geom:
  assumes g: "geom_ok r" and l: "0 \<le> lba" "lba + n \<le> 2 ^ 35" "0 < n" and room: "tr_len r + 512 * n \<le> tr_max r"
    and hdr: "hdr_fits (appended r lba n)"
  shows "geom_ok (appended r lba n)" "n < 2 ^ 22" "0 \<le> total_len (ranges r)" "tr_len r = 512 * total_len (ranges r)"
proof -
  have G: "tr_len r = 512 * total_len (ranges r)" "tr_max r < 2 ^ 31" "ranges_ok (ranges r)" using g by (auto simp: geom_ok_def)
  then show t: "0 \<le> total_len (ranges r)" "tr_len r = 512 * total_len (ranges r)" using total_len_nonneg by auto
  show n: "n < 2 ^ 22" using room G t by simp
  have rg: "ranges (appended r lba n) = ranges r @ [(lba, n)]" by (rule appended_ranges) (use l n in auto)
  show "geom_ok (appended r lba n)"
    using g l room hdr rg unfolding geom_ok_def hdr_fits_def by (simp add: appended_def obj_amax_def)
qed

definition write_pre :: "psys \<Rightarrow> int \<Rightarrow> int \<Rightarrow> iovec list \<Rightarrow> bool" where
  "write_pre s lba n iov \<longleftrightarrow> iov_ok iov \<and> 0 \<le> lba \<and> lba + n \<le> 2 ^ 35 \<and> 0 < n \<and> bytes iov = 512 * n
     \<and> (\<forall>a\<in>set (addrs iov). \<forall>r\<in>set (batches s). a \<notin> region r)
     \<and> tr_len (t_current (ps_st s)) + 512 * n \<le> tr_max (t_current (ps_st s))
     \<and> hdr_fits (appended (t_current (ps_st s)) lba n)"

definition wrote :: "psys \<Rightarrow> int \<Rightarrow> int \<Rightarrow> iovec list \<Rightarrow> psys" where
  "wrote s lba n iov =
     (let st = ps_st s; cur = t_current st; p = tr_data_ptr cur + tr_len cur
      in s\<lparr>ps_st := st\<lparr>t_current := appended cur lba n, t_mem := copy_out (t_mem st) iov p,
                       t_bufmap := update lba2buf (t_bufmap st) lba (lba + n) (Sector_ptr p)\<rparr>\<rparr>)"

lemma wrote_simps [simp]:
  "t_current (ps_st (wrote s lba n iov)) = appended (t_current (ps_st s)) lba n"
  "t_queue (ps_st (wrote s lba n iov)) = t_queue (ps_st s)" "ps_flight (wrote s lba n iov) = ps_flight s"
  "t_objmap (ps_st (wrote s lba n iov)) = t_objmap (ps_st s)" "ps_objs (wrote s lba n iov) = ps_objs s"
  "t_cur_seq (ps_st (wrote s lba n iov)) = t_cur_seq (ps_st s)" "t_uuid (ps_st (wrote s lba n iov)) = t_uuid (ps_st s)"
  "t_object_info (ps_st (wrote s lba n iov)) = t_object_info (ps_st s)" "t_cfg (ps_st (wrote s lba n iov)) = t_cfg (ps_st s)"
  "t_outstanding_writes (ps_st (wrote s lba n iov)) = t_outstanding_writes (ps_st s)" "t_clones (ps_st (wrote s lba n iov)) = t_clones (ps_st s)" "older (wrote s lba n iov) = older s"
  by (simp_all add: wrote_def Let_def older_def)

lemma wrote_effects:
  "t_bufmap (ps_st (wrote s lba n iov)) = update lba2buf (t_bufmap (ps_st s)) lba (lba + n)
     (Sector_ptr (tr_data_ptr (t_current (ps_st s)) + tr_len (t_current (ps_st s))))"
  "t_mem (ps_st (wrote s lba n iov)) = copy_out (t_mem (ps_st s)) iov (tr_data_ptr (t_current (ps_st s)) + tr_len (t_current (ps_st s)))"
  by (simp_all add: wrote_def Let_def older_def)

lemma wrote_geom:
  assumes inv: "pipe_inv s" and w: "write_pre s lba n iov"
  shows "geom_ok (appended (t_current (ps_st s)) lba n)" "geom_ok (t_current (ps_st s))"
    "ranges (appended (t_current (ps_st s)) lba n) = ranges (t_current (ps_st s)) @ [(lba, n)]"
    "{tr_data_ptr (t_current (ps_st s)) + tr_len (t_current (ps_st s))..<tr_data_ptr (t_current (ps_st s)) + tr_len (t_current (ps_st s)) + 512 * n}
       \<subseteq> region (t_current (ps_st s))"
    "n < 2 ^ 22" "tr_len (t_current (ps_st s)) = 512 * total_len (ranges (t_current (ps_st s)))"
    "0 \<le> total_len (ranges (t_current (ps_st s)))" "0 < tr_data_ptr (t_current (ps_st s))"
proof -
  let ?c = "t_current (ps_st s)"
  have b: "base_inv s" using inv by (simp add: pipe_inv_def)
  show g: "geom_ok ?c" by (rule base_invD(4) [OF b cur_in_batches])
  have W: "0 \<le> lba" "lba + n \<le> 2 ^ 35" "0 < n" "tr_len ?c + 512 * n \<le> tr_max ?c" "hdr_fits (appended ?c lba n)"
    using w by (simp_all add: write_pre_def)
  show G: "geom_ok (appended ?c lba n)" "n < 2 ^ 22" "tr_len ?c = 512 * total_len (ranges ?c)" "0 \<le> total_len (ranges ?c)"
    using appended_geom [OF g W] by simp_all
  show "ranges (appended ?c lba n) = ranges ?c @ [(lba, n)]" by (rule appended_ranges) (use W G in auto)
  have h: "0 < data_hdr_sectors (length (tr_entries ?c))" "0 < tr_batch_buf ?c" "tr_batch_buf ?c + 512 * hdr_room ?c \<le> tr_data_ptr ?c"
    using g data_hdr_sectors_bounds(3) [of "length (tr_entries ?c)"] by (auto simp: geom_ok_def)
  then show "0 < tr_data_ptr ?c" by linarith
  show "{tr_data_ptr ?c + tr_len ?c..<tr_data_ptr ?c + tr_len ?c + 512 * n} \<subseteq> region ?c"
    using h W(4) G(3,4) by (auto simp: region_def)
qed

text \<open>The memory after the copy.\<close>

lemma wrote_mem:
  assumes inv: "pipe_inv s" and w: "write_pre s lba n iov"
  defines "p \<equiv> tr_data_ptr (t_current (ps_st s)) + tr_len (t_current (ps_st s))"
  shows "t_mem (ps_st (wrote s lba n iov)) a =
    (if p \<le> a \<and> a < p + 512 * n then t_mem (ps_st s) (addrs iov ! nat (a - p)) else t_mem (ps_st s) a)"
    "length (addrs iov) = nat (512 * n)"
proof -
  have len: "int (length (addrs iov)) = 512 * n" using w bytes_addrs [of iov] by (simp add: write_pre_def)
  then show "length (addrs iov) = nat (512 * n)" by simp
  have "a < p \<or> p + int (length (addrs iov)) \<le> a" if "a \<in> set (addrs iov)" for a
  proof -
    have "a \<notin> region (t_current (ps_st s))" using w that cur_in_batches by (auto simp: write_pre_def)
    then have "a \<notin> {p..<p + 512 * n}" using wrote_geom(4) [OF inv w] unfolding p_def by blast
    then show ?thesis using len by auto
  qed
  then show "t_mem (ps_st (wrote s lba n iov)) a =
    (if p \<le> a \<and> a < p + 512 * n then t_mem (ps_st s) (addrs iov ! nat (a - p)) else t_mem (ps_st s) a)"
    using copy_out_addrs [of iov p "t_mem (ps_st s)" a] w len by (simp add: p_def write_pre_def iov_ok_def wrote_effects)
qed

text \<open>The buffer map after the update.\<close>

lemma wrote_look:
  assumes inv: "pipe_inv s" and w: "write_pre s lba n iov"
  defines "p \<equiv> tr_data_ptr (t_current (ps_st s)) + tr_len (t_current (ps_st s))"
  shows "bufmap_ok (buf_set (batches s)) (t_bufmap (ps_st (wrote s lba n iov)))"
    "buf_look (t_bufmap (ps_st (wrote s lba n iov))) x =
       (if lba \<le> x \<and> x < lba + n then Some (Sector_ptr (p + 512 * (x - lba))) else buf_look (t_bufmap (ps_st s)) x)"
proof -
  let ?c = "t_current (ps_st s)"
  have b: "base_inv s" "maps_inv s" using inv by (simp_all add: pipe_inv_def)
  note G = wrote_geom [OF inv w]
  have sep: "separate (buf_set (batches s))" by (rule separate_buf_set) (use base_invD(4,5) [OF b(1)] in auto)
  have W: "0 \<le> lba" "lba + n \<le> 2 ^ 35" "0 < n" "tr_len ?c + 512 * n \<le> tr_max ?c" using w by (simp_all add: write_pre_def)
  have "tr_max ?c mod 512 = 0" using G(2) by (simp add: geom_ok_def)
  then have "tr_max ?c = 512 * (tr_max ?c div 512)" by auto
  then have "buf_pok (buf_set (batches s)) (Sector_ptr p) n"
    using sep W G(6,7) cur_in_batches [of s] unfolding buf_pok_def buf_set_def p_def
    by (auto intro!: bexI [of _ "?c"])
  then have U: "0 \<le> lba" "lba < lba + n" "lba + n \<le> buf_amax" "buf_pok (buf_set (batches s)) (Sector_ptr p) (lba + n - lba)"
    using W by (auto simp: buf_amax_def)
  note ok = maps_invD(3) [OF b(2)]
  show "bufmap_ok (buf_set (batches s)) (t_bufmap (ps_st (wrote s lba n iov)))"
    using bs.upd_ok [OF ok U] by (simp add: p_def wrote_effects)
  have "sector_ptr_plus (Sector_ptr p) (x - lba) = Sector_ptr (p + 512 * (x - lba))" if "lba \<le> x" "x < lba + n"
    using that G(5) by (subst sector_ptr_plus_in) auto
  then show "buf_look (t_bufmap (ps_st (wrote s lba n iov))) x =
       (if lba \<le> x \<and> x < lba + n then Some (Sector_ptr (p + 512 * (x - lba))) else buf_look (t_bufmap (ps_st s)) x)"
    using bs.upd_look [OF ok U, of x] by (simp add: p_def wrote_effects)
qed


section \<open>The invariant after a write\<close>

lemma wrote_newest:
  assumes inv: "pipe_inv s" and w: "write_pre s lba n iov"
  defines "c \<equiv> t_current (ps_st s)"
  shows "batch_pos (ranges (appended c lba n)) 0 x =
    (if lba \<le> x \<and> x < lba + n then Some (total_len (ranges c) + (x - lba)) else batch_pos (ranges c) 0 x)"
  using wrote_geom(3) [OF inv w] unfolding c_def by (simp add: batch_pos_append)

lemma queued_last: "queued st = filter (\<lambda>r. tr_op r = REQ_PUT) (t_queue st) @ [t_current st]"
  by (simp add: queued_def)

lemma wrote_base:
  assumes inv: "pipe_inv s" and w: "write_pre s lba n iov"
  shows "base_inv (wrote s lba n iov)"
proof -
  let ?s = "wrote s lba n iov" and ?c = "t_current (ps_st s)"
  have b: "base_inv s" using inv by (simp add: pipe_inv_def)
  note B = base_invD [OF b] and G = wrote_geom [OF inv w]
  have ap: "apart (batches ?s)" by (rule apart_cong [OF _ B(5)]) (simp add: batches_older)
  have geo: "geom_ok r" if "r \<in> set (batches ?s)" for r
    using that B(4) [of r] G(1) by (auto simp: batches_older)
  have up: "upload_ok (t_mem (ps_st ?s)) (fst f) (snd f)" if f: "f \<in> set (ps_flight s)" for f
  proof (rule upload_ok_frame [OF B(11) [OF f]])
    have m: "fst f \<in> set (older s)" using f by (auto simp: older_def)
    then show "geom_ok (fst f)" using B(4) by (simp add: batches_older)
    show "t_mem (ps_st ?s) a = t_mem (ps_st s) a" if "a \<in> region (fst f)" for a
    proof -
      have "a \<notin> region ?c" using apart_last [OF B(5) [unfolded batches_older] m] that by blast
      then show ?thesis using wrote_mem(1) [OF inv w, of a] G(4) by auto
    qed
  qed
  show ?thesis unfolding base_inv_def Let_def using B(1-3,6-10,12) geo ap up by auto
qed

lemma wrote_maps:
  assumes inv: "pipe_inv s" and w: "write_pre s lba n iov"
  shows "maps_inv (wrote s lba n iov)"
proof -
  let ?s = "wrote s lba n iov" and ?c = "t_current (ps_st s)" and ?bm = "t_bufmap (ps_st (wrote s lba n iov))"
  have b: "base_inv s" "maps_inv s" using inv by (simp_all add: pipe_inv_def)
  note M = maps_invD [OF b(2)] and G = wrote_geom [OF inv w] and L = wrote_look [OF inv w] and N = wrote_newest [OF inv w]
  have sets: "buf_set (batches ?s) = buf_set (batches s)" by (simp add: batches_older buf_set_def)
  have five: "buf_look ?bm x \<noteq> None" if "newest (queued (ps_st ?s)) x \<noteq> None" for x
    using that M(5) [of x] unfolding L(2) queued_last newest_last wrote_simps N by (auto split: if_splits option.splits)
  have qn: "newest (queued (ps_st s)) x = None \<and> \<not> (lba \<le> x \<and> x < lba + n)" if "newest (queued (ps_st ?s)) x = None" for x
    using that unfolding queued_last newest_last wrote_simps N by (auto split: if_splits option.splits)
  have four: "\<exists>r k. newest (batches ?s) x = Some (r, k) \<and> buf q = tr_data_ptr r + 512 * k" if q: "buf_look ?bm x = Some q" for x q
  proof (cases "lba \<le> x \<and> x < lba + n")
    case True
    then show ?thesis using q G(6) unfolding L(2) batches_older newest_last wrote_simps N by auto
  next
    case False
    then obtain r k where "newest (batches s) x = Some (r, k)" "buf q = tr_data_ptr r + 512 * k" using q M(4) [of x q] unfolding L(2) by auto
    then show ?thesis using False unfolding batches_older newest_last wrote_simps N by (auto split: option.splits)
  qed
  have seven: "obj q \<notin> (tr_seq \<circ> fst) ` set (ps_flight s)" if "obj_look (t_objmap (ps_st s)) x = Some q" "buf_look ?bm x = None" for x q
    using M(7) [OF that(1)] that(2) unfolding L(2) by (auto split: if_splits)
  have six: "obj_look (t_objmap (ps_st s)) x = Some (Obj_offset (tr_seq r) (hdr_room r + k))"
    if "buf_look ?bm x \<noteq> None" "newest (queued (ps_st ?s)) x = None" "newest (map fst (ps_flight s)) x = Some (r, k)" for x r k
    using M(6) [of x r k] qn [OF that(2)] that(1,3) unfolding L(2) by auto
  show ?thesis
    unfolding maps_inv_def Let_def sets wrote_simps using L(1) M(1,2,8) four five six seven by blast
qed

text \<open>What a read sees after the write.\<close>

lemma wrote_volume:
  assumes inv: "pipe_inv s" and w: "write_pre s lba n iov" and j: "0 \<le> j" "j < 512"
  shows "volume (wrote s lba n iov) x j =
    (if lba \<le> x \<and> x < lba + n then map (t_mem (ps_st s)) (addrs iov) ! nat (512 * (x - lba) + j) else volume s x j)"
proof -
  let ?s = "wrote s lba n iov" and ?c = "t_current (ps_st s)"
  have b: "base_inv s" "maps_inv s" using inv by (simp_all add: pipe_inv_def)
  note B = base_invD [OF b(1)] and M = maps_invD [OF b(2)] and G = wrote_geom [OF inv w] and L = wrote_look [OF inv w]
    and A = wrote_mem [OF inv w]
  let ?p = "tr_data_ptr ?c + tr_len ?c"
  show ?thesis
  proof (cases "lba \<le> x \<and> x < lba + n")
    case True
    then have i: "0 \<le> 512 * (x - lba) + j" "512 * (x - lba) + j < 512 * n" using j by auto
    have "t_mem (ps_st ?s) (?p + 512 * (x - lba) + j) = t_mem (ps_st s) (addrs iov ! nat (512 * (x - lba) + j))"
      using A(1) [of "?p + 512 * (x - lba) + j"] i by (simp add: add.assoc)
    then show ?thesis using True i A(2) L(2) [of x] by (simp add: volume_def sector_byte_def)
  next
    case False
    have "t_mem (ps_st ?s) (buf q + j) = t_mem (ps_st s) (buf q + j)" if q: "buf_look (t_bufmap (ps_st s)) x = Some q" for q
    proof -
      obtain r k where r: "newest (batches s) x = Some (r, k)" "buf q = tr_data_ptr r + 512 * k" using M(4) [OF q] by blast
      note rk = newest_SomeD [OF r(1)]
      note P = geom_pos [OF B(4) [OF rk [THEN conjunct1]] rk [THEN conjunct2]]
      have "\<not> (?p \<le> buf q + j \<and> buf q + j < ?p + 512 * n)"
      proof (cases "r = ?c")
        case True
        then show ?thesis using P(2) r(2) j by auto
      next
        case False
        then have "r \<in> set (older s)" using rk by (auto simp: batches_older)
        then have "buf q + j \<notin> region ?c" using apart_last [OF B(5) [unfolded batches_older]] P(4) [OF j] r(2) by fastforce
        then show ?thesis using G(4) by auto
      qed
      then show ?thesis using A(1) [of "buf q + j"] by auto
    qed
    then show ?thesis using False L(2) [of x] by (auto simp: volume_def sector_byte_def split: option.splits)
  qed
qed

section \<open>\<^verbatim>\<open>writev\<close>\<close>

lemma memcpy_0 [simp]: "memcpy mem p q 0 = mem"
  by (auto simp: memcpy_def fun_eq_iff)

lemma mk_smartiov_same:
  assumes "iov_ok iov"
  shows "bytes (mk_smartiov iov) = bytes iov" "copy_out mem (mk_smartiov iov) p = copy_out mem iov p"
proof -
  have n: "list_all (\<lambda>v. 0 \<le> iov_len v) iov" using assms by (simp add: iov_ok_def)
  then have a: "addrs (mk_smartiov iov) = addrs iov" by (induction iov) (auto simp: mk_smartiov_def)
  then have "iov_ok (mk_smartiov iov)" using assms by (auto simp: mk_smartiov_def iov_ok_def list_all_iff)
  then show "bytes (mk_smartiov iov) = bytes iov" using assms a by (simp add: bytes_addrs)
  show "copy_out mem (mk_smartiov iov) p = copy_out mem iov p" using n
    by (induction iov arbitrary: mem p) (auto simp: mk_smartiov_def not_less)
qed

lemma writev_wrote:
  assumes inv: "pipe_inv s" and w: "write_pre s lba n iov" and room: "tr_room (t_current (ps_st s)) (bytes iov)"
  shows "writev p (ps_st s) (512 * lba) iov = Some (ps_st (wrote s lba n iov))"
proof -
  have W: "bytes iov = 512 * n" "0 \<le> lba" "0 < n" using w by (simp_all add: write_pre_def)
  have e: "512 * lba div 512 = lba" "(512 * lba + 512 * n) div 512 = lba + n" "512 * n div 512 = n" by simp_all
  note G = wrote_geom [OF inv w]
  let ?c = "t_current (ps_st s)"
  have c: "tr_local_buf_base ?c = tr_data_ptr ?c" "tr_local_buf_limit ?c = tr_data_ptr ?c + tr_max ?c" using G(2) by (simp_all add: geom_ok_def)
  have m: "tr_len ?c + 512 * n \<le> tr_max ?c" using w by (simp add: write_pre_def)
  show ?thesis
    using room W(1,3) c m G(6-8) mk_smartiov_same [of iov] w
    by (simp add: writev_def tr_append_def Let_def e wrote_def appended_def write_pre_def)
qed


text \<open>When the batch is full, a new one is current before the write.\<close>

lemma writev_rolls:
  assumes "\<not> tr_room (t_current st) (bytes iov)" "bytes iov \<le> backend_obj_bytes (t_cfg st)" "iov_ok iov"
  shows "writev p st off iov = writev p (roll_batch p st) off iov"
proof -
  have "tr_room (t_current (roll_batch p st)) (bytes iov)" using assms(2) by (simp add: roll_batch_def new_put_req_def tr_room_def)
  then show ?thesis using assms(1) mk_smartiov_same(1) [OF assms(3)] by (simp add: writev_def Let_def)
qed

lemma write_in_room:
  assumes inv: "pipe_inv s" and w: "iov_ok iov" "0 \<le> lba" "lba + bytes iov div 512 \<le> 2 ^ 35" "0 < bytes iov" "bytes iov mod 512 = 0"
    and a: "\<forall>a\<in>set (addrs iov). \<forall>r\<in>set (batches s). a \<notin> region r"
    and room: "tr_room (t_current (ps_st s)) (bytes iov)"
    and run: "writev p (ps_st s) (512 * lba) iov = Some st'" "hdr_fits (t_current st')"
  shows "write_pre s lba (bytes iov div 512) iov" "s\<lparr>ps_st := st'\<rparr> = wrote s lba (bytes iov div 512) iov"
proof -
  let ?n = "bytes iov div 512" and ?c = "t_current (ps_st s)"
  have n: "bytes iov = 512 * ?n" "0 < ?n" using w(4,5) by auto
  have "t_current st' = appended ?c (512 * lba div 512) ?n"
    using run(1) room mk_smartiov_same [OF w(1)] n(1)
    by (auto simp: writev_def tr_append_def Let_def appended_def split: if_splits)
  then have "hdr_fits (appended ?c lba ?n)" using run(2) by simp
  then show pre: "write_pre s lba ?n iov"
    using w(1-3) n a room by (simp add: write_pre_def tr_room_def)
  show "s\<lparr>ps_st := st'\<rparr> = wrote s lba ?n iov"
    using writev_wrote [OF inv pre room] run(1) by (auto simp: wrote_def Let_def)
qed

text \<open>The content of a volume after data is written at a sector.\<close>

definition put_data :: "(int \<Rightarrow> int \<Rightarrow> byte) \<Rightarrow> int \<Rightarrow> byte list \<Rightarrow> int \<Rightarrow> int \<Rightarrow> byte" where
  "put_data v lba bs x j =
     (if lba \<le> x \<and> x < lba + int (length bs) div 512 then bs ! nat (512 * (x - lba) + j) else v x j)"

lemma inv_write:
  assumes inv: "pipe_inv s" and p: "fresh_buf s p" and w: "write_ok s p lba iov"
    and run: "writev p (ps_st s) (512 * lba) iov = Some st'" "hdr_fits (t_current st')" and j: "0 \<le> j" "j < 512"
  shows "pipe_inv (s\<lparr>ps_st := st'\<rparr>)
    \<and> volume (s\<lparr>ps_st := st'\<rparr>) x j = put_data (volume s) lba (map (t_mem (ps_st s)) (addrs iov)) x j"
proof -
  let ?s1 = "if tr_room (t_current (ps_st s)) (bytes iov) then s else s\<lparr>ps_st := roll_batch p (ps_st s)\<rparr>"
  let ?n = "bytes iov div 512"
  have W: "iov_ok iov" "0 \<le> lba" "lba + ?n \<le> 2 ^ 35" "0 < bytes iov" "bytes iov mod 512 = 0"
    "bytes iov \<le> backend_obj_bytes (t_cfg (ps_st s))" using w by (simp_all add: write_ok_def)
  have op: "tr_op (t_current (ps_st s)) = REQ_PUT"
    using base_invD(4) [OF _ cur_in_batches] inv by (simp add: pipe_inv_def geom_ok_def)
  have bt: "set (batches ?s1) \<subseteq> set (batches s) \<union> {new_put_req p (backend_obj_bytes (t_cfg (ps_st s)))}"
    using op by (auto simp: batches_def queued_def roll_batch_def)
  have a: "\<forall>a\<in>set (addrs iov). \<forall>r\<in>set (batches ?s1). a \<notin> region r" using w bt unfolding write_ok_def by blast
  have one: "pipe_inv ?s1" "volume ?s1 = volume s" "t_mem (ps_st ?s1) = t_mem (ps_st s)"
    using inv inv_roll [OF inv p] by (simp_all add: roll_batch_def)
  have room: "tr_room (t_current (ps_st ?s1)) (bytes iov)" using W(6) by (simp add: roll_batch_def new_put_req_def tr_room_def)
  have "writev p (ps_st ?s1) (512 * lba) iov = Some st'" using run(1) writev_rolls [OF _ W(6,1), where p = p and off = "512 * lba"] by auto
  note R = write_in_room [OF one(1) W(1-5) a room this run(2)]
  have eq: "s\<lparr>ps_st := st'\<rparr> = wrote ?s1 lba ?n iov" using R(2) by (simp split: if_splits)
  have "int (length (addrs iov)) div 512 = ?n" using bytes_addrs [OF W(1)] by simp
  then show ?thesis
    unfolding eq using wrote_base [OF one(1) R(1)] wrote_maps [OF one(1) R(1)] wrote_volume [OF one(1) R(1) j, of x] one(2,3)
    by (simp add: pipe_inv_def put_data_def)
qed

end
