(* ===== verification/Pipeline_Work.thy ===== *)
theory Pipeline_Work
  imports Pipeline_Write
begin

text \<open>
  The worker's steps and the completion of uploads: none of them changes what a read sees.
\<close>

section \<open>Flushes and checkpoints\<close>

lemma inv_dequeue:
  assumes inv: "pipe_inv s" and q: "t_queue (ps_st s) = r # q" "tr_op r \<noteq> REQ_PUT"
    and same: "t_uuid st' = t_uuid (ps_st s)" "t_clones st' = t_clones (ps_st s)" "t_cfg st' = t_cfg (ps_st s)" "t_mem st' = t_mem (ps_st s)"
      "t_objmap st' = t_objmap (ps_st s)" "t_bufmap st' = t_bufmap (ps_st s)" "t_object_info st' = t_object_info (ps_st s)"
      "t_current st' = t_current (ps_st s)" "t_queue st' = q" "t_outstanding_writes st' = t_outstanding_writes (ps_st s)"
    and seq: "t_cur_seq (ps_st s) \<le> t_cur_seq st'" "t_cur_seq st' < 2 ^ 32"
  shows "pipe_inv (s\<lparr>ps_st := st'\<rparr>) \<and> volume (s\<lparr>ps_st := st'\<rparr>) = volume s"
proof -
  let ?s = "s\<lparr>ps_st := st'\<rparr>"
  have b: "base_inv s" "maps_inv s" using inv by (simp_all add: pipe_inv_def)
  note B = base_invD [OF b(1)] and M = maps_invD [OF b(2)]
  have qs: "queued (ps_st ?s) = queued (ps_st s)" "batches ?s = batches s" using q same(8,9) by (simp_all add: queued_def batches_def)
  have m: "\<forall>x qo. obj_look (t_objmap (ps_st ?s)) x = Some qo \<longrightarrow> obj qo < t_cur_seq (ps_st ?s)"
    using M(8) same(5) seq(1) by fastforce
  have fl: "\<forall>x\<in>set (ps_flight ?s). tr_seq (fst x) < t_cur_seq (ps_st ?s)" using B(8) seq(1) by fastforce
  have "\<forall>r\<in>set (t_queue (ps_st ?s)). tr_op r \<noteq> REQ_GC" using B(6) q(1) same(9) by auto
  then have "base_inv ?s" unfolding base_inv_def Let_def qs using B seq fl same by auto
  moreover have "maps_inv ?s"
    unfolding maps_inv_def Let_def qs using m M same by (simp add: same)
  moreover have "volume ?s = volume s" by (rule volume_cong) (simp_all add: same)
  ultimately show ?thesis by (simp add: pipe_inv_def)
qed

lemma inv_work:
  assumes inv: "pipe_inv s" and q: "t_queue (ps_st s) = r # q" "tr_op r \<noteq> REQ_PUT" and seq: "t_cur_seq (ps_st s) + 1 < 2 ^ 32"
    and run: "worker_step zcrc (ps_st s) = Some st'"
  shows "pipe_inv (s\<lparr>ps_st := st'\<rparr>) \<and> volume (s\<lparr>ps_st := st'\<rparr>) = volume s"
proof -
  have b: "base_inv s" using inv by (simp add: pipe_inv_def)
  note B = base_invD [OF b]
  have u: "ubf 32 (t_cur_seq (ps_st s) + 1) = t_cur_seq (ps_st s) + 1" by (rule ubf_id) (use B(9) seq in auto)
  have "tr_op r \<noteq> REQ_GC" using B(6) q(1) by auto
  then consider "tr_op r = REQ_FLUSH" | "tr_op r = REQ_CKPT" using q(2) by (cases "tr_op r") auto
  then show ?thesis
  proof cases
    case 1
    then have "st' = (ps_st s)\<lparr>t_queue := q\<rparr>" using run q(1) by (simp add: worker_step_def split: if_splits)
    then show ?thesis using inv_dequeue [OF inv q, of st'] B(10) by simp
  next
    case 2
    then obtain kept sb outs where "st' = (ps_st s)\<lparr>t_queue := q, t_cur_seq := t_cur_seq (ps_st s) + 1, t_checkpoints := kept,
        t_superblock_buf := sb, t_out := outs\<rparr>"
      using run q(1) u by (auto simp: worker_step_def write_checkpoint_def Let_def split: prod.splits)
    then show ?thesis using inv_dequeue [OF inv q, of st'] seq by simp
  qed
qed

section \<open>Uploads start\<close>

lemma newest_mid:
  "newest (xs @ r # ys) x = (case newest ys x of Some y \<Rightarrow> Some y | None \<Rightarrow>
     (case batch_pos (ranges r) 0 x of Some k \<Rightarrow> Some (r, k) | None \<Rightarrow> newest xs x))"
  by (auto simp: newest_append split: option.splits)

lemma apart_mid:
  assumes "apart (xs @ r # ys)" "r' \<in> set xs \<union> set ys"
  shows "region r \<inter> region r' = {}"
proof -
  let ?rs = "xs @ r # ys"
  have r: "?rs ! length xs = r" by simp
  obtain i where i: "i < length ?rs" "?rs ! i = r'" "i \<noteq> length xs"
  proof (cases "r' \<in> set xs")
    case True
    then obtain i where "i < length xs" "xs ! i = r'" by (auto simp: in_set_conv_nth)
    then show ?thesis using that [of i] by (simp add: nth_append)
  next
    case False
    then obtain i where "i < length ys" "ys ! i = r'" using assms(2) by (auto simp: in_set_conv_nth)
    then show ?thesis using that [of "length xs + Suc i"] by (simp add: nth_append)
  qed
  show ?thesis using assms(1) [unfolded apart_def, rule_format, of "length xs" i] i r by simp
qed

lemma apart_remove: "apart (xs @ r # ys) \<Longrightarrow> apart (xs @ ys)"
proof -
  assume a: "apart (xs @ r # ys)"
  let ?f = "\<lambda>i. if i < length xs then i else Suc i"
  have e: "(xs @ ys) ! i = (xs @ r # ys) ! ?f i" for i by (auto simp: nth_append Suc_diff_le)
  show ?thesis
    unfolding apart_def e
  proof (intro allI impI)
    fix i j assume "i < length (xs @ ys)" "j < length (xs @ ys)" "i \<noteq> j"
    then show "region ((xs @ r # ys) ! ?f i) \<inter> region ((xs @ r # ys) ! ?f j) = {}"
      by (intro a [unfolded apart_def, rule_format]) auto
  qed
qed

lemma region_nonempty: "geom_ok r \<Longrightarrow> tr_batch_buf r \<in> region r"
proof -
  assume g: "geom_ok r"
  have "0 < hdr_room r" using g data_hdr_sectors_bounds(3) [of "length (tr_entries r)"] by (auto simp: geom_ok_def)
  moreover have "0 \<le> tr_max r" using g total_len_nonneg [of "ranges r"] by (auto simp: geom_ok_def)
  ultimately show ?thesis using g by (auto simp: geom_ok_def region_def)
qed

lemma load_bytes_nth: "0 \<le> i \<Longrightarrow> i < n \<Longrightarrow> load_bytes mem p n ! nat i = mem (p + i)"
  using upto_nth [of "nat i" n p] by (simp add: load_bytes_def)

definition put_started :: "psys \<Rightarrow> translate_req list \<Rightarrow> translate_req \<Rightarrow> objmap \<Rightarrow> byte list \<Rightarrow> psys \<Rightarrow> bool" where
  "put_started s q r om hdr s' \<longleftrightarrow> (let st = ps_st s; st' = ps_st s'; r' = r\<lparr>tr_seq := t_cur_seq st\<rparr> in
     t_outstanding_writes st' = t_outstanding_writes st + 1 \<and> t_queue st' = q \<and> t_current st' = t_current st \<and> t_uuid st' = t_uuid st \<and> t_clones st' = t_clones st \<and> t_cfg st' = t_cfg st
     \<and> t_cur_seq st' = t_cur_seq st + 1 \<and> t_bufmap st' = t_bufmap st \<and> t_objmap st' = om
     \<and> t_mem st' = store_bytes (t_mem st) (tr_data_ptr r - hdr_room r * 512) hdr
     \<and> int (length hdr) = 512 * hdr_room r \<and> ps_objs s' = ps_objs s
     \<and> ps_flight s' = ps_flight s @ [(r', load_bytes (t_mem st') (tr_data_ptr r - hdr_room r * 512) ((hdr_room r + tr_len r div 512) * 512))]
     \<and> objmap_ok om \<and> live_ok (t_object_info st') om
     \<and> (\<forall>x. obj_look om x = (case batch_pos (ranges r) 0 x of Some k \<Rightarrow> Some (Obj_offset (t_cur_seq st) (hdr_room r + k))
          | None \<Rightarrow> obj_look (t_objmap st) x)))"

lemma queue_head_batch:
  assumes "base_inv s" "t_queue (ps_st s) = r # q" "tr_op r = REQ_PUT"
  shows "batches s = map fst (ps_flight s) @ r # filter (\<lambda>r. tr_op r = REQ_PUT) q @ [t_current (ps_st s)]" "geom_ok r"
    "queued (ps_st s) = r # filter (\<lambda>r. tr_op r = REQ_PUT) q @ [t_current (ps_st s)]"
proof -
  show b: "batches s = map fst (ps_flight s) @ r # filter (\<lambda>r. tr_op r = REQ_PUT) q @ [t_current (ps_st s)]"
    and "queued (ps_st s) = r # filter (\<lambda>r. tr_op r = REQ_PUT) q @ [t_current (ps_st s)]"
    using assms by (simp_all add: batches_def queued_def)
  show "geom_ok r" by (rule base_invD(4) [OF assms(1)]) (simp add: b)
qed

lemma put_runs:
  assumes inv: "pipe_inv s" and q: "t_queue (ps_st s) = r # q" "tr_op r = REQ_PUT" and seq: "t_cur_seq (ps_st s) + 1 < 2 ^ 32"
  obtains st' om hdr c nm bs where "worker_step zcrc (ps_st s) = Some st'"
    "t_out st' = t_out (ps_st s) @ [c, Aio_write nm bs (r\<lparr>tr_seq := t_cur_seq (ps_st s)\<rparr>)]"
    "put_started s q r om hdr (s\<lparr>ps_st := st', ps_flight := ps_flight s @ [(r\<lparr>tr_seq := t_cur_seq (ps_st s)\<rparr>, bs)]\<rparr>)"
proof -
  have b: "base_inv s" "maps_inv s" using inv by (simp_all add: pipe_inv_def)
  note B = base_invD [OF b(1)] and M = maps_invD [OF b(2)] and Q = queue_head_batch [OF b(1) q]
  let ?n = "t_cur_seq (ps_st s)"
  let ?st = "(ps_st s)\<lparr>t_queue := q, t_cur_seq := ?n + 1\<rparr>"
  have u: "ubf 32 (?n + 1) = ?n + 1" by (rule ubf_id) (use B(9) seq in auto)
  have bat: "batch_ok r" using Q(2) by (auto simp: geom_ok_def batch_ok_def)
  have fresh: "fresh_seq ?n (t_objmap ?st)" using M(8) B(9,10) by (fastforce simp: fresh_seq_def)
  have pre: "objmap_ok (t_objmap ?st)" "live_ok (t_object_info ?st) (t_objmap ?st)" "length (t_uuid ?st) = 16"
    "prefix ?st ?n = Some (t_name ?st)" using M(1,2) B(1,2) by (simp_all add: prefix_def)
  have wk: "worker_step zcrc (ps_st s) = process_batch zcrc ?n r ?st" using q u by (simp add: worker_step_def)
  have h: "72 + 8 * int (length (map (\<lambda>e. mk_data_map (me_lba e) (me_len e)) (tr_entries r))) \<le> 512 * hdr_room r"
    "0 < hdr_room r"
    using bat data_hdr_sectors_bounds [of "length (tr_entries r)"] by (simp_all add: batch_ok_def)
  have pos: "batch_pos (ranges r) (hdr_room r) x = map_option ((+) (hdr_room r)) (batch_pos (ranges r) 0 x)" for x
    using batch_pos_shift [of "ranges r" 0 "hdr_room r" x] by simp
  show thesis
  proof (rule process_batch_run [OF pre(1,2) bat fresh pre(3,4), where zcrc = zcrc], goal_cases)
    case (1 om' del info hdr crcb)
    have len: "int (length hdr) = 512 * hdr_room r" unfolding 1(2) using length_obj_hdr_bytes [OF pre(3) h(1)] h(2) by simp
    show ?thesis
      by (rule that [OF wk [unfolded 1(3)], of _ _ _ om' hdr])
        (use 1(4-6) len pos in \<open>auto simp: put_started_def Let_def split: option.splits\<close>)
  qed
qed


lemma put_startedD:
  assumes "put_started s q r om hdr s'"
  defines "r' \<equiv> r\<lparr>tr_seq := t_cur_seq (ps_st s)\<rparr>"
  shows "t_queue (ps_st s') = q" "t_current (ps_st s') = t_current (ps_st s)" "t_uuid (ps_st s') = t_uuid (ps_st s)"
    "t_clones (ps_st s') = t_clones (ps_st s)" "t_cfg (ps_st s') = t_cfg (ps_st s)" "t_cur_seq (ps_st s') = t_cur_seq (ps_st s) + 1"
    "t_bufmap (ps_st s') = t_bufmap (ps_st s)" "t_objmap (ps_st s') = om"
    "t_mem (ps_st s') = store_bytes (t_mem (ps_st s)) (tr_data_ptr r - hdr_room r * 512) hdr"
    "int (length hdr) = 512 * hdr_room r" "ps_objs s' = ps_objs s"
    "ps_flight s' = ps_flight s @ [(r', load_bytes (t_mem (ps_st s')) (tr_data_ptr r - hdr_room r * 512) ((hdr_room r + tr_len r div 512) * 512))]"
    "objmap_ok om" "live_ok (t_object_info (ps_st s')) om"
    "obj_look om x = (case batch_pos (ranges r) 0 x of Some k \<Rightarrow> Some (Obj_offset (t_cur_seq (ps_st s)) (hdr_room r + k))
          | None \<Rightarrow> obj_look (t_objmap (ps_st s)) x)"
    "tr_data_ptr r' = tr_data_ptr r" "tr_entries r' = tr_entries r" "region r' = region r" "tr_seq r' = t_cur_seq (ps_st s)"
    "geom_ok r' = geom_ok r" "tr_max r' = tr_max r" "tr_len r' = tr_len r"
    "t_outstanding_writes (ps_st s') = t_outstanding_writes (ps_st s) + 1"
  using assms unfolding put_started_def Let_def by (simp_all add: region_def geom_ok_def)

text \<open>The header goes to the room in front of the data.\<close>

lemma put_mem:
  assumes "put_started s q r om hdr s'" "geom_ok r"
  shows "tr_data_ptr r \<le> a \<Longrightarrow> t_mem (ps_st s') a = t_mem (ps_st s) a" "a \<notin> region r \<Longrightarrow> t_mem (ps_st s') a = t_mem (ps_st s) a"
proof -
  note P = put_startedD [OF assms(1)]
  have g: "tr_batch_buf r + 512 * hdr_room r \<le> tr_data_ptr r" "0 \<le> tr_max r"
    using assms(2) total_len_nonneg [of "ranges r"] by (auto simp: geom_ok_def)
  show "tr_data_ptr r \<le> a \<Longrightarrow> t_mem (ps_st s') a = t_mem (ps_st s) a" using P(10) by (simp add: P(9) store_bytes_def)
  show "a \<notin> region r \<Longrightarrow> t_mem (ps_st s') a = t_mem (ps_st s) a" using P(10) g by (auto simp: P(9) store_bytes_def region_def)
qed

lemma put_batches:
  assumes "base_inv s" "t_queue (ps_st s) = r # q" "tr_op r = REQ_PUT" "put_started s q r om hdr s'"
  defines "r' \<equiv> r\<lparr>tr_seq := t_cur_seq (ps_st s)\<rparr>"
  shows "batches s' = map fst (ps_flight s) @ r' # filter (\<lambda>r. tr_op r = REQ_PUT) q @ [t_current (ps_st s)]"
    "queued (ps_st s') = filter (\<lambda>r. tr_op r = REQ_PUT) q @ [t_current (ps_st s)]"
    "map fst (ps_flight s') = map fst (ps_flight s) @ [r']"
  using put_startedD [OF assms(4)] unfolding r'_def by (simp_all add: batches_def queued_def)

lemma put_base:
  assumes inv: "base_inv s" and q: "t_queue (ps_st s) = r # q" "tr_op r = REQ_PUT" and seq: "t_cur_seq (ps_st s) + 1 < 2 ^ 32"
    and p: "put_started s q r om hdr s'"
  shows "base_inv s'"
proof -
  note B = base_invD [OF inv] and Q = queue_head_batch [OF inv q] and P = put_startedD [OF p] and N = put_batches [OF inv q p]
  note ap0 = B(5) [unfolded Q(1)]
  have ap: "apart (batches s')" by (rule apart_cong [OF _ B(5)]) (simp add: N Q P)
  have geo: "geom_ok x" if "x \<in> set (batches s')" for x
    using that Q(2) B(4) [of x] P(20) unfolding N Q(1) by auto
  have old: "upload_ok (t_mem (ps_st s')) (fst f) (snd f)" if f: "f \<in> set (ps_flight s)" for f
  proof (rule upload_ok_frame [OF B(11) [OF f]])
    have m: "fst f \<in> set (map fst (ps_flight s))" using f by simp
    then show "geom_ok (fst f)" using B(4) [of "fst f"] unfolding Q(1) by simp
    show "t_mem (ps_st s') a = t_mem (ps_st s) a" if "a \<in> region (fst f)" for a
      using put_mem(2) [OF p Q(2), of a] apart_mid [OF ap0, of "fst f"] m that by auto
  qed
  let ?r' = "r\<lparr>tr_seq := t_cur_seq (ps_st s)\<rparr>"
  have new: "upload_ok (t_mem (ps_st s')) ?r' (load_bytes (t_mem (ps_st s')) (tr_data_ptr r - hdr_room r * 512) ((hdr_room r + tr_len r div 512) * 512))"
    unfolding upload_ok_def
  proof (intro allI impI)
    fix k j :: int assume k: "0 \<le> k" "k < total_len (ranges ?r')" "0 \<le> j" "j < 512"
    have h: "0 \<le> hdr_room r" "tr_len r div 512 = total_len (ranges r)"
      using Q(2) data_hdr_sectors_bounds(3) [of "length (tr_entries r)"] by (auto simp: geom_ok_def)
    have i: "0 \<le> (hdr_room r + k) * 512 + j" "(hdr_room r + k) * 512 + j < (hdr_room r + tr_len r div 512) * 512" using h k by auto
    show "load_bytes (t_mem (ps_st s')) (tr_data_ptr r - hdr_room r * 512) ((hdr_room r + tr_len r div 512) * 512) ! nat ((hdr_room ?r' + k) * 512 + j)
        = t_mem (ps_st s') (tr_data_ptr ?r' + 512 * k + j)"
      using load_bytes_nth [OF i, of "t_mem (ps_st s')" "tr_data_ptr r - hdr_room r * 512"] by (simp add: algebra_simps)
  qed
  have "distinct (map (tr_seq \<circ> fst) (ps_flight s'))" using B(7,8) by (fastforce simp: P)
  moreover have "\<forall>x\<in>set (ps_flight s'). tr_seq (fst x) < t_cur_seq (ps_st s')" using B(8) by (fastforce simp: P)
  moreover have "\<forall>x\<in>set (ps_flight s'). upload_ok (t_mem (ps_st s')) (fst x) (snd x)" using old new by (auto simp: P(12))
  moreover have "\<forall>r\<in>set (t_queue (ps_st s')). tr_op r \<noteq> REQ_GC" using B(6) q(1) by (auto simp: P)
  ultimately show ?thesis unfolding base_inv_def Let_def using B(1-3,9,12) seq geo ap by (simp add: P(3-6,12,23))
qed

lemma put_maps:
  assumes inv: "pipe_inv s" and q: "t_queue (ps_st s) = r # q" "tr_op r = REQ_PUT" and p: "put_started s q r om hdr s'"
  shows "maps_inv s'"
proof -
  have b: "base_inv s" "maps_inv s" using inv by (simp_all add: pipe_inv_def)
  note B = base_invD [OF b(1)] and M = maps_invD [OF b(2)] and Q = queue_head_batch [OF b(1) q] and P = put_startedD [OF p]
    and N = put_batches [OF b(1) q p]
  let ?bm = "t_bufmap (ps_st s)" and ?r' = "r\<lparr>tr_seq := t_cur_seq (ps_st s)\<rparr>"
  let ?ys = "filter (\<lambda>r. tr_op r = REQ_PUT) q @ [t_current (ps_st s)]"
  have sets: "buf_set (batches s') = buf_set (batches s)" by (simp add: N Q buf_set_def)
  have qs: "newest (queued (ps_st s)) x = (case newest ?ys x of Some y \<Rightarrow> Some y | None \<Rightarrow> map_option (Pair r) (batch_pos (ranges r) 0 x))" for x
    unfolding Q(3) by simp
  have four: "\<exists>r k. newest (batches s') x = Some (r, k) \<and> buf qq = tr_data_ptr r + 512 * k" if "buf_look ?bm x = Some qq" for x qq
    using M(4) [OF that] unfolding N(1) Q(1) newest_mid by (auto split: option.splits)
  have five: "buf_look ?bm x \<noteq> None" if "newest ?ys x \<noteq> None" for x
    using M(5) [of x] that unfolding qs by (auto split: option.splits)
  have six: "obj_look om x = Some (Obj_offset (tr_seq r0) (hdr_room r0 + k))"
    if "buf_look ?bm x \<noteq> None" "newest ?ys x = None" "newest (map fst (ps_flight s) @ [?r']) x = Some (r0, k)" for x r0 k
    using M(6) [OF that(1), of r0 k] that(2,3) P(15) [of x] unfolding newest_last qs by (auto split: option.splits)
  have seven: "obj qq \<notin> (tr_seq \<circ> fst) ` set (ps_flight s')" if o: "obj_look om x = Some qq" and n: "buf_look ?bm x = None" for x qq
  proof -
    have "newest (queued (ps_st s)) x = None" using M(5) [of x] n by blast
    then have "batch_pos (ranges r) 0 x = None" unfolding qs by (auto split: option.splits)
    then have l: "obj_look (t_objmap (ps_st s)) x = Some qq" using o P(15) [of x] by simp
    show ?thesis using M(7) [OF l n] M(8) [OF l] by (auto simp: P)
  qed
  have eight: "obj qq < t_cur_seq (ps_st s) + 1" if "obj_look om x = Some qq" for x qq
    using M(8) [of x qq] that P(15) [of x] by (auto split: option.splits)
  show ?thesis
    unfolding maps_inv_def Let_def sets N(2,3) P(6-8) using M(3) P(13,14) four five six seven eight by blast
qed

lemma put_volume:
  assumes inv: "pipe_inv s" and q: "t_queue (ps_st s) = r # q" "tr_op r = REQ_PUT" and p: "put_started s q r om hdr s'"
    and j: "0 \<le> j" "j < 512"
  shows "volume s' x j = volume s x j"
proof -
  have b: "base_inv s" "maps_inv s" using inv by (simp_all add: pipe_inv_def)
  note B = base_invD [OF b(1)] and M = maps_invD [OF b(2)] and Q = queue_head_batch [OF b(1) q] and P = put_startedD [OF p]
  show ?thesis
  proof (cases "buf_look (t_bufmap (ps_st s)) x")
    case None
    have "newest (queued (ps_st s)) x = None" using M(5) [of x] None by blast
    then have "batch_pos (ranges r) 0 x = None" unfolding Q(3) by (auto split: option.splits)
    then show ?thesis using None P(15) [of x] by (simp add: volume_def sector_byte_def P)
  next
    case (Some qq)
    obtain r0 k where r0: "newest (batches s) x = Some (r0, k)" "buf qq = tr_data_ptr r0 + 512 * k" using M(4) [OF Some] by blast
    note rk = newest_SomeD [OF r0(1)]
    note G = geom_pos [OF B(4) [OF rk [THEN conjunct1]] rk [THEN conjunct2]]
    have "t_mem (ps_st s') (buf qq + j) = t_mem (ps_st s) (buf qq + j)"
    proof (cases "r0 = r")
      case True
      then show ?thesis using put_mem(1) [OF p Q(2)] G(1) r0(2) j by simp
    next
      case False
      then have "region r \<inter> region r0 = {}" using apart_mid [OF B(5) [unfolded Q(1)], of r0] rk unfolding Q(1) by auto
      then show ?thesis using put_mem(2) [OF p Q(2), of "buf qq + j"] G(4) [OF j] r0(2) by auto
    qed
    then show ?thesis using Some by (simp add: volume_def sector_byte_def P(7))
  qed
qed

lemma inv_put:
  assumes inv: "pipe_inv s" and q: "t_queue (ps_st s) = r # q" "tr_op r = REQ_PUT" and seq: "t_cur_seq (ps_st s) + 1 < 2 ^ 32"
    and run: "worker_step zcrc (ps_st s) = Some st'" "t_out st' = t_out (ps_st s) @ [c, Aio_write nm bs r']"
    and j: "0 \<le> j" "j < 512"
  shows "pipe_inv (s\<lparr>ps_st := st', ps_flight := ps_flight s @ [(r', bs)]\<rparr>)
    \<and> volume (s\<lparr>ps_st := st', ps_flight := ps_flight s @ [(r', bs)]\<rparr>) x j = volume s x j"
proof (rule put_runs [OF inv q seq, where zcrc = zcrc], goal_cases)
  case (1 st1 om hdr c' nm' bs')
  then have "st1 = st'" "bs' = bs" "r\<lparr>tr_seq := t_cur_seq (ps_st s)\<rparr> = r'" using run by simp_all
  with 1(3) have p: "put_started s q r om hdr (s\<lparr>ps_st := st', ps_flight := ps_flight s @ [(r', bs)]\<rparr>)" by simp
  have b: "base_inv s" using inv by (simp add: pipe_inv_def)
  show ?case using put_base [OF b q seq p] put_maps [OF inv q p] put_volume [OF inv q p j, of x] by (simp add: pipe_inv_def)
qed

end
