(* ===== verification/Pipeline_Done.thy ===== *)
theory Pipeline_Done
  imports Pipeline_Work
begin

text \<open>
  An upload completes: the sectors that still point into its buffer leave the buffer map, and the
  object map already sends them to the object that is now in the store.
\<close>

lemma newest_remove:
  assumes "newest (xs @ r # ys) x = Some (r0, k)" "r0 \<noteq> r"
  shows "newest (xs @ ys) x = Some (r0, k)"
  using assms unfolding newest_mid by (auto simp: newest_append split: option.splits)

lemma newest_suffix:
  assumes "newest (xs @ ys) x = Some (r, k)" "r \<notin> set ys"
  shows "newest ys x = None" "newest xs x = Some (r, k)"
  using assms newest_SomeD [of ys x] by (auto simp: newest_append split: option.splits)

definition finished :: "sector_ptr \<Rightarrow> psys \<Rightarrow> (translate_req \<times> byte list) list \<Rightarrow> translate_req \<Rightarrow> byte list \<Rightarrow>
    (translate_req \<times> byte list) list \<Rightarrow> psys" where
  "finished u s xs r bs ys =
     s\<lparr>ps_st := notify u r (ps_st s), ps_flight := xs @ ys, ps_objs := (ps_objs s)(tr_seq r := bs)\<rparr>"

lemma finished_simps:
  assumes "tr_op r = REQ_PUT"
  shows "t_queue (ps_st (finished u s xs r bs ys)) = t_queue (ps_st s)" "t_current (ps_st (finished u s xs r bs ys)) = t_current (ps_st s)"
    "t_objmap (ps_st (finished u s xs r bs ys)) = t_objmap (ps_st s)" "t_mem (ps_st (finished u s xs r bs ys)) = t_mem (ps_st s)"
    "t_object_info (ps_st (finished u s xs r bs ys)) = t_object_info (ps_st s)" "t_cur_seq (ps_st (finished u s xs r bs ys)) = t_cur_seq (ps_st s)"
    "t_uuid (ps_st (finished u s xs r bs ys)) = t_uuid (ps_st s)" "t_clones (ps_st (finished u s xs r bs ys)) = t_clones (ps_st s)"
    "t_cfg (ps_st (finished u s xs r bs ys)) = t_cfg (ps_st s)" "ps_flight (finished u s xs r bs ys) = xs @ ys"
    "ps_objs (finished u s xs r bs ys) = (ps_objs s)(tr_seq r := bs)" "queued (ps_st (finished u s xs r bs ys)) = queued (ps_st s)"
    "t_bufmap (ps_st (finished u s xs r bs ys)) =
       foldl (\<lambda>m (base, lim). trim_map lba2buf u m base lim) (t_bufmap (ps_st s)) (own_pieces r (t_bufmap (ps_st s)))"
    "t_outstanding_writes (ps_st (finished u s xs r bs ys)) = t_outstanding_writes (ps_st s) - 1"
  using assms by (simp_all add: finished_def notify_def Let_def queued_def)

text \<open>The state before: the upload is one of several batches, all distinct.\<close>

lemma flight_batch:
  assumes inv: "pipe_inv s" and f: "ps_flight s = xs @ (r, bs) # ys"
  shows "batches s = map fst xs @ r # map fst ys @ queued (ps_st s)" "geom_ok r" "tr_op r = REQ_PUT"
    "r' \<in> set (map fst xs) \<union> set (map fst ys @ queued (ps_st s)) \<Longrightarrow> region r \<inter> region r' = {} \<and> r' \<noteq> r"
    "upload_ok (t_mem (ps_st s)) r bs" "tr_seq r \<notin> (tr_seq \<circ> fst) ` set (xs @ ys)"
proof -
  have b: "base_inv s" using inv by (simp add: pipe_inv_def)
  note B = base_invD [OF b]
  show bt: "batches s = map fst xs @ r # map fst ys @ queued (ps_st s)" using f by (simp add: batches_def)
  show g: "geom_ok r" by (rule B(4)) (simp add: bt)
  then show "tr_op r = REQ_PUT" by (simp add: geom_ok_def)
  show "upload_ok (t_mem (ps_st s)) r bs" using B(11) [of "(r, bs)"] f by simp
  show "tr_seq r \<notin> (tr_seq \<circ> fst) ` set (xs @ ys)" using B(7) f by auto
  show "r' \<in> set (map fst xs) \<union> set (map fst ys @ queued (ps_st s)) \<Longrightarrow> region r \<inter> region r' = {} \<and> r' \<noteq> r"
    using apart_mid [OF B(5) [unfolded bt], of r'] region_nonempty [OF g] by auto
qed

lemma finished_look:
  assumes inv: "pipe_inv s" and f: "ps_flight s = xs @ (r, bs) # ys"
  shows "bufmap_ok (buf_set (batches s)) (t_bufmap (ps_st (finished u s xs r bs ys)))"
    "buf_look (t_bufmap (ps_st (finished u s xs r bs ys))) x =
      (if \<exists>k. newest (batches s) x = Some (r, k) then None else buf_look (t_bufmap (ps_st s)) x)"
proof -
  have b: "base_inv s" "maps_inv s" using inv by (simp_all add: pipe_inv_def)
  note B = base_invD [OF b(1)] and M = maps_invD [OF b(2)] and F = flight_batch [OF inv f]
  let ?bm = "t_bufmap (ps_st s)"
  have sep: "separate (buf_set (batches s))" by (rule separate_buf_set) (use B(4,5) in auto)
  have "(tr_data_ptr r, tr_max r div 512) \<in> buf_set (batches s)" by (simp add: F(1) buf_set_def)
  note O = own_pieces_spec [OF M(3) sep this F(2)]
  note C = bs.cuts_look [OF M(3) O(1), of u]
  show "bufmap_ok (buf_set (batches s)) (t_bufmap (ps_st (finished u s xs r bs ys)))"
    using C(1) by (simp add: finished_simps(13) [OF F(3)])
  have own: "in_buf r q \<longleftrightarrow> r0 = r" if q: "newest (batches s) x = Some (r0, k)" "buf q = tr_data_ptr r0 + 512 * k" for q r0 k
  proof -
    note rk = newest_SomeD [OF q(1)]
    note P = geom_pos [OF B(4) [OF rk [THEN conjunct1]] rk [THEN conjunct2]]
    have lim: "tr_local_buf_base r = tr_data_ptr r" "tr_local_buf_limit r = tr_data_ptr r + tr_max r" "tr_len r \<le> tr_max r"
      using F(2) by (simp_all add: geom_ok_def)
    show ?thesis
    proof (cases "r0 = r")
      case True
      then show ?thesis using P(1,2) lim q(2) by (simp add: in_buf_def)
    next
      case False
      then have "buf q \<notin> region r" using F(4) [of r0] rk P(3) q(2) unfolding F(1) by auto
      moreover have "tr_batch_buf r \<le> tr_data_ptr r" using F(2) data_hdr_sectors_bounds(3) [of "length (tr_entries r)"] by (auto simp: geom_ok_def)
      ultimately show ?thesis using False lim by (auto simp: in_buf_def region_def)
    qed
  qed
  have "(\<exists>(b, l)\<in>set (own_pieces r ?bm). b \<le> x \<and> x < l) \<longleftrightarrow> buf_look ?bm x \<noteq> None \<and> (\<exists>k. newest (batches s) x = Some (r, k))"
  proof (cases "buf_look ?bm x")
    case (Some q)
    then obtain r0 k where r0: "newest (batches s) x = Some (r0, k)" "buf q = tr_data_ptr r0 + 512 * k" using M(4) by blast
    then show ?thesis unfolding O(2) using Some own [OF r0] newest_SomeD [OF r0(1)] by auto
  qed (simp add: O(2))
  then show "buf_look (t_bufmap (ps_st (finished u s xs r bs ys))) x =
      (if \<exists>k. newest (batches s) x = Some (r, k) then None else buf_look ?bm x)"
    using C(2) [of x] by (auto simp: finished_simps(13) [OF F(3)])
qed

lemma finished_maps:
  assumes inv: "pipe_inv s" and f: "ps_flight s = xs @ (r, bs) # ys"
  shows "maps_inv (finished u s xs r bs ys)"
proof -
  have b: "base_inv s" "maps_inv s" using inv by (simp_all add: pipe_inv_def)
  note B = base_invD [OF b(1)] and M = maps_invD [OF b(2)] and F = flight_batch [OF inv f]
  let ?s = "finished u s xs r bs ys" and ?bm = "t_bufmap (ps_st s)" and ?Q = "queued (ps_st s)"
  let ?bm' = "t_bufmap (ps_st ?s)"
  note S = finished_simps [OF F(3), of u s xs bs ys] and L = finished_look [OF inv f, of u]
  have bt: "batches ?s = map fst xs @ map fst ys @ ?Q" by (simp add: batches_def S)
  have four: "\<exists>r k. newest (batches ?s) x = Some (r, k) \<and> buf q = tr_data_ptr r + 512 * k" if q: "buf_look ?bm' x = Some q" for x q
  proof -
    have n: "buf_look ?bm x = Some q" "\<not> (\<exists>k. newest (batches s) x = Some (r, k))" using q unfolding L(2) by (simp_all split: if_splits)
    obtain r0 k where r0: "newest (batches s) x = Some (r0, k)" "buf q = tr_data_ptr r0 + 512 * k" using M(4) [OF n(1)] by blast
    have "r0 \<noteq> r" using n(2) r0(1) by auto
    then show ?thesis using newest_remove [OF r0(1) [unfolded F(1)]] r0(2) bt by auto
  qed
  have nq: "newest (batches s) x \<noteq> Some (r, k)" if "newest ?Q x \<noteq> None" for x k
  proof
    assume n: "newest (batches s) x = Some (r, k)"
    have "r \<notin> set ?Q" using F(4) [of r] by auto
    then show False using newest_suffix(1) [of "map fst (xs @ (r, bs) # ys)" ?Q x r k] n that f by (simp add: batches_def)
  qed
  have five: "buf_look ?bm' x \<noteq> None" if "newest ?Q x \<noteq> None" for x
    using M(5) [OF that] nq [OF that] unfolding L(2) by simp
  have fl: "newest (batches s) x = newest (map fst (ps_flight s)) x" if "newest ?Q x = None" for x
    using that by (simp add: batches_def newest_append)
  have six: "obj_look (t_objmap (ps_st s)) x = Some (Obj_offset (tr_seq r0) (hdr_room r0 + k))"
    if h: "buf_look ?bm' x \<noteq> None" "newest ?Q x = None" "newest (map fst (xs @ ys)) x = Some (r0, k)" for x r0 k
  proof -
    have n: "buf_look ?bm x \<noteq> None" "\<not> (\<exists>k. newest (batches s) x = Some (r, k))" using h(1) unfolding L(2) by (simp_all split: if_splits)
    from n(1) obtain q where "buf_look ?bm x = Some q" by blast
    then obtain r1 i where r1: "newest (map fst (ps_flight s)) x = Some (r1, i)" using M(4) fl [OF h(2)] by metis
    have ne: "r1 \<noteq> r" using n(2) r1 fl [OF h(2)] by auto
    have "newest (map fst (xs @ ys)) x = Some (r1, i)" using newest_remove [OF _ ne, of "map fst xs" "map fst ys" x i] r1 f by simp
    then show ?thesis using M(6) [OF n(1) h(2) r1] h(3) by simp
  qed
  have seven: "obj q \<notin> (tr_seq \<circ> fst) ` set (xs @ ys)" if h: "obj_look (t_objmap (ps_st s)) x = Some q" "buf_look ?bm' x = None" for x q
  proof (cases "buf_look ?bm x = None")
    case True
    then show ?thesis using M(7) [OF h(1)] f by auto
  next
    case False
    then obtain k where k: "newest (batches s) x = Some (r, k)" using h(2) unfolding L(2) by (auto split: if_splits)
    then have qn: "newest ?Q x = None" using nq [of x k] by blast
    have "obj_look (t_objmap (ps_st s)) x = Some (Obj_offset (tr_seq r) (hdr_room r + k))"
      using M(6) [OF False qn] k fl [OF qn] by simp
    then show ?thesis using h(1) F(6) by auto
  qed
  have "bufmap_ok (buf_set (batches ?s)) ?bm'"
  proof (rule bufmap_shrink [OF L(1)])
    show "buf_set (batches ?s) \<subseteq> buf_set (batches s)" by (auto simp: bt F(1) buf_set_def)
    show "separate (buf_set (batches s))" by (rule separate_buf_set) (use B(4,5) in auto)
    fix x p assume "buf_look ?bm' x = Some p"
    then obtain r0 k where r0: "newest (batches ?s) x = Some (r0, k)" "buf p = tr_data_ptr r0 + 512 * k" using four by blast
    note rk = newest_SomeD [OF r0(1)]
    have m: "r0 \<in> set (batches s)" using rk unfolding bt F(1) by auto
    have g: "tr_len r0 \<le> tr_max r0" "tr_max r0 mod 512 = 0" using B(4) [OF m] by (auto simp: geom_ok_def)
    have "tr_max r0 = 512 * (tr_max r0 div 512)" using g(2) by auto
    then have "tr_data_ptr r0 \<le> buf p \<and> buf p < tr_data_ptr r0 + 512 * (tr_max r0 div 512)"
      using geom_pos(1,2) [OF B(4) [OF m] rk [THEN conjunct2]] r0(2) g(1) by linarith
    then show "\<exists>(s, k)\<in>buf_set (batches ?s). s \<le> buf p \<and> buf p < s + 512 * k" using rk unfolding buf_set_def by auto
  qed
  then show ?thesis
    unfolding maps_inv_def Let_def S(3,5,6,10,12) using M(1,2,8) four five six seven by blast
qed

lemma finished_base:
  assumes inv: "pipe_inv s" and f: "ps_flight s = xs @ (r, bs) # ys"
  shows "base_inv (finished u s xs r bs ys)"
proof -
  have b: "base_inv s" using inv by (simp add: pipe_inv_def)
  note B = base_invD [OF b] and F = flight_batch [OF inv f]
  note S = finished_simps [OF F(3), of u s xs bs ys]
  let ?s = "finished u s xs r bs ys"
  have bt: "batches ?s = map fst xs @ map fst ys @ queued (ps_st s)" by (simp add: batches_def S)
  have geo: "\<forall>x\<in>set (batches ?s). geom_ok x" using B(4) unfolding bt F(1) by auto
  have "apart (batches ?s)" unfolding bt by (rule apart_remove) (use B(5) in \<open>simp add: F(1)\<close>)
  moreover have "distinct (map (tr_seq \<circ> fst) (ps_flight ?s))" "\<forall>x\<in>set (ps_flight ?s). tr_seq (fst x) < t_cur_seq (ps_st ?s)"
    "\<forall>x\<in>set (ps_flight ?s). upload_ok (t_mem (ps_st ?s)) (fst x) (snd x)"
    using B(7,8,11) f by (auto simp: S)
  ultimately show ?thesis unfolding base_inv_def Let_def using B(1-3,6,9,10,12) geo f by (simp add: S(1-12,14))
qed

lemma finished_volume:
  assumes inv: "pipe_inv s" and f: "ps_flight s = xs @ (r, bs) # ys" and j: "0 \<le> j" "j < 512"
  shows "volume (finished u s xs r bs ys) x j = volume s x j"
proof -
  have b: "base_inv s" "maps_inv s" using inv by (simp_all add: pipe_inv_def)
  note B = base_invD [OF b(1)] and M = maps_invD [OF b(2)] and F = flight_batch [OF inv f]
  note S = finished_simps [OF F(3), of u s xs bs ys] and L = finished_look [OF inv f, of u]
  have same: "volume (finished u s xs r bs ys) x j = volume s x j"
    if e: "buf_look (t_bufmap (ps_st (finished u s xs r bs ys))) x = buf_look (t_bufmap (ps_st s)) x"
  proof -
    have "obj q \<noteq> tr_seq r" if "obj_look (t_objmap (ps_st s)) x = Some q" "buf_look (t_bufmap (ps_st s)) x = None" for q
      using M(7) [OF that] f by auto
    then show ?thesis using e by (auto simp: volume_def sector_byte_def obj_byte_def S(3,4,11) split: option.splits)
  qed
  show ?thesis
  proof (cases "buf_look (t_bufmap (ps_st (finished u s xs r bs ys))) x = buf_look (t_bufmap (ps_st s)) x")
    case False
    then obtain k q where k: "newest (batches s) x = Some (r, k)" and q: "buf_look (t_bufmap (ps_st s)) x = Some q"
      and n: "buf_look (t_bufmap (ps_st (finished u s xs r bs ys))) x = None"
      unfolding L(2) by (cases "buf_look (t_bufmap (ps_st s)) x") (auto split: if_splits)
    have rq: "r \<notin> set (queued (ps_st s))" using F(4) [of r] by auto
    note sf = newest_suffix [OF k [unfolded batches_def] rq]
    have o: "obj_look (t_objmap (ps_st s)) x = Some (Obj_offset (tr_seq r) (hdr_room r + k))" using M(6) [OF _ sf] q by simp
    note rk = newest_SomeD [OF k, THEN conjunct2]
    note P = geom_pos [OF F(2) rk]
    have "k < total_len (ranges r)" using P(2) F(2) by (simp add: geom_ok_def)
    then have "bs ! nat ((hdr_room r + k) * 512 + j) = t_mem (ps_st s) (tr_data_ptr r + 512 * k + j)"
      using F(5) P(1) j unfolding upload_ok_def by blast
    moreover have "buf q = tr_data_ptr r + 512 * k" using M(4) [OF q] k by auto
    ultimately show ?thesis using n q o by (simp add: volume_def sector_byte_def obj_byte_def S(3,11))
  qed (rule same)
qed

lemma inv_done:
  assumes "pipe_inv s" "ps_flight s = xs @ (r, bs) # ys" "0 \<le> j" "j < 512"
  shows "pipe_inv (finished u s xs r bs ys) \<and> volume (finished u s xs r bs ys) x j = volume s x j"
  using finished_base [OF assms(1,2)] finished_maps [OF assms(1,2)] finished_volume [OF assms] by (simp add: pipe_inv_def)

end
