(* ===== verification/Pipeline_Correct.thy ===== *)
theory Pipeline_Correct
  imports Pipeline_Done
begin

text \<open>
  The volume refines a flat array of bytes: along every run of the pipeline, from the state that
  \<^verbatim>\<open>translate_impl\<close> starts in, the bytes a read finds are those of the writes so far, applied in
  order, whatever batches are current, queued, being uploaded or stored.
\<close>

section \<open>The abstract disk\<close>

definition disk_write :: "(int \<Rightarrow> byte) \<Rightarrow> int \<Rightarrow> byte list \<Rightarrow> int \<Rightarrow> byte" where
  "disk_write d off bs a = (if off \<le> a \<and> a < off + int (length bs) then bs ! nat (a - off) else d a)"

fun disk_run :: "(int \<Rightarrow> byte) \<Rightarrow> pevent list \<Rightarrow> int \<Rightarrow> byte" where
  "disk_run d [] = d"
| "disk_run d (Wrote lba bs # es) = disk_run (disk_write d (512 * lba) bs) es"
| "disk_run d (Internal # es) = disk_run d es"

text \<open>The abstraction: byte \<open>a\<close> of the volume is byte \<open>a mod 512\<close> of sector \<open>a div 512\<close>.\<close>

definition disk :: "psys \<Rightarrow> int \<Rightarrow> byte" where
  "disk s a = volume s (a div 512) (a mod 512)"

section \<open>Runs\<close>

inductive psteps :: "(byte list \<Rightarrow> int) \<Rightarrow> psys \<Rightarrow> pevent list \<Rightarrow> psys \<Rightarrow> bool" for zcrc where
  psteps_refl: "psteps zcrc s [] s"
| psteps_step: "pstep zcrc s e s' \<Longrightarrow> psteps zcrc s' es s'' \<Longrightarrow> psteps zcrc s (e # es) s''"

lemma psteps_append: "psteps zcrc s es s' \<Longrightarrow> psteps zcrc s' es' s'' \<Longrightarrow> psteps zcrc s (es @ es') s''"
  by (induction rule: psteps.induct) (auto intro: psteps_step)

lemma disk_cong: "(\<And>x j. 0 \<le> j \<Longrightarrow> j < 512 \<Longrightarrow> volume s' x j = volume s x j) \<Longrightarrow> disk s' = disk s"
  by (simp add: disk_def fun_eq_iff)

lemma disk_put:
  assumes "\<And>x j. 0 \<le> j \<Longrightarrow> j < 512 \<Longrightarrow> volume s' x j = put_data (volume s) lba bs x j" "length bs mod 512 = 0"
  shows "disk s' = disk_write (disk s) (512 * lba) bs"
proof
  fix a :: int
  let ?n = "int (length bs)"
  have n: "?n = 512 * (?n div 512)" using assms(2) by auto
  have c: "lba \<le> a div 512 \<and> a div 512 < lba + ?n div 512 \<longleftrightarrow> 512 * lba \<le> a \<and> a < 512 * lba + ?n" using n by linarith
  have "512 * q + m = a \<Longrightarrow> 512 * (q - lba) + m = a - 512 * lba" for q m :: int by simp
  from this [OF mult_div_mod_eq] have i: "512 * (a div 512 - lba) + a mod 512 = a - 512 * lba" .
  have "volume s' (a div 512) (a mod 512) = put_data (volume s) lba bs (a div 512) (a mod 512)" by (rule assms(1)) simp_all
  then show "disk s' a = disk_write (disk s) (512 * lba) bs a"
    by (simp only: disk_def disk_write_def put_data_def c i)
qed

text \<open>Each step is a step of the disk or none.\<close>

lemma pstep_refines:
  assumes "pipe_inv s" "pstep zcrc s e s'"
  shows "pipe_inv s' \<and> disk s' = disk_run (disk s) [e]"
  using assms(2)
proof cases
  case (p_write p lba iov st')
  note W = inv_write [OF assms(1) p_write(4,3,5,6)]
  have "bytes iov mod 512 = 0" "iov_ok iov" using p_write(3) by (simp_all add: write_ok_def)
  then have "int (length (addrs iov) mod 512) = 0" using bytes_addrs [of iov] by (simp add: zmod_int)
  then have "length (map (t_mem (ps_st s)) (addrs iov)) mod 512 = 0" by simp
  moreover have "pipe_inv s'" using W [of 0] p_write(2) by simp
  ultimately show ?thesis using disk_put [of s' s] W p_write(1,2) by simp
next
  case (p_roll p st')
  then show ?thesis using inv_new_requests [OF assms(1) p_roll(3,4)] by (simp add: disk_def fun_eq_iff)
next
  case (p_work r q st')
  then show ?thesis using inv_work [OF assms(1) p_work(3-6)] by (simp add: disk_def fun_eq_iff)
next
  case (p_put r q st' c nm bs r')
  note P = inv_put [OF assms(1) p_put(3-7)]
  have "disk s' = disk s" by (rule disk_cong) (use P p_put(2) in simp)
  then show ?thesis using P [of 0] p_put(1,2) by simp
next
  case (p_done xs r bs ys u)
  then have s': "s' = finished u s xs r bs ys" by (simp add: finished_def)
  note D = inv_done [OF assms(1) p_done(3), of _ u]
  have "disk s' = disk s" by (rule disk_cong) (use D s' in simp)
  then show ?thesis using D [of 0] p_done(1) s' by simp
qed

lemma disk_run_Cons: "disk_run d (e # es) = disk_run (disk_run d [e]) es"
  by (cases e) simp_all

lemma psteps_refine:
  assumes "psteps zcrc s es s'" "pipe_inv s"
  shows "pipe_inv s' \<and> disk s' = disk_run (disk s) es"
  using assms
proof (induction rule: psteps.induct)
  case (psteps_step s e s' es s'')
  then show ?case using pstep_refines [OF psteps_step.prems psteps_step.hyps(1)] by (simp add: disk_run_Cons [of _ e es])
qed simp

section \<open>The state a volume opens in\<close>

definition opened :: "string \<Rightarrow> lsvd_config \<Rightarrow> int \<Rightarrow> byte list \<Rightarrow> memory \<Rightarrow> objmap \<Rightarrow> int \<Rightarrow> (int, data_obj_info) rbt \<Rightarrow> int list \<Rightarrow>
    int \<Rightarrow> (int \<Rightarrow> byte list) \<Rightarrow> psys" where
  "opened name cfg vol uuid mem om last_seq info ckpts p objs =
     \<lparr>ps_st = make_translate name cfg vol uuid mem om extmap_empty last_seq [] info ckpts p, ps_flight = [], ps_objs = objs\<rparr>"

definition open_ok :: "lsvd_config \<Rightarrow> byte list \<Rightarrow> objmap \<Rightarrow> int \<Rightarrow> (int, data_obj_info) rbt \<Rightarrow> int \<Rightarrow> bool" where
  "open_ok cfg uuid om last_seq info p \<longleftrightarrow>
     cfg_ok cfg \<and> length uuid = 16 \<and> objmap_ok om \<and> live_ok info om \<and> 0 \<le> last_seq + 1 \<and> last_seq + 1 < 2 ^ 32 \<and> 0 < p
     \<and> (\<forall>x q. obj_look om x = Some q \<longrightarrow> obj q \<le> last_seq)"

lemma opened_inv:
  assumes "open_ok cfg uuid om last_seq info p"
  shows "pipe_inv (opened name cfg vol uuid mem om last_seq info ckpts p objs)"
proof -
  let ?s = "opened name cfg vol uuid mem om last_seq info ckpts p objs"
  let ?r = "new_put_req p (backend_obj_bytes cfg)"
  note A = assms [unfolded open_ok_def]
  have g: "geom_ok ?r" "ranges ?r = []" using new_put_geom [of cfg p] A by simp_all
  have bt: "batches ?s = [?r]" "queued (ps_st ?s) = [?r]" by (simp_all add: opened_def make_translate_def batches_def queued_def)
  have u: "ubf 32 (last_seq + 1) = last_seq + 1" using A by (intro ubf_id) auto
  have "base_inv ?s"
    unfolding base_inv_def Let_def bt using A g by (simp add: opened_def make_translate_def apart_def u)
  moreover have "maps_inv ?s"
    unfolding maps_inv_def Let_def bt using A g(2) by (auto simp: opened_def make_translate_def u map_ok_empty lookup_fun_empty)
  ultimately show ?thesis by (simp add: pipe_inv_def)
qed


lemma disk_sector: "disk s (512 * x + int i) = volume s (x + int (i div 512)) (int (i mod 512))"
  by (simp add: disk_def zdiv_int zmod_int)

lemma read_pre_inv:
  assumes inv: "pipe_inv s" and r: "iov_ok iovs" "distinct (addrs iovs)" "0 \<le> x" "x \<le> y" "y \<le> obj_amax"
    "int (length (addrs iovs)) = 512 * (y - x)" "\<forall>a\<in>set (addrs iovs). \<forall>r\<in>set (batches s). a \<notin> region r"
  shows "read_pre (buf_set (batches s)) (prefix (ps_st s)) (t_bufmap (ps_st s)) (t_objmap (ps_st s)) iovs x y"
proof -
  have b: "base_inv s" "maps_inv s" using inv by (simp_all add: pipe_inv_def)
  note B = base_invD [OF b(1)] and M = maps_invD [OF b(2)]
  have "a < b \<or> b + 512 * k \<le> a" if m: "(b, k) \<in> buf_set (batches s)" "a \<in> set (addrs iovs)" for b k a
  proof -
    obtain q where q: "q \<in> set (batches s)" "b = tr_data_ptr q" "k = tr_max q div 512" using m(1) by (auto simp: buf_set_def)
    have g: "geom_ok q" by (rule B(4) [OF q(1)])
    then have "512 * (tr_max q div 512) = tr_max q" "tr_batch_buf q \<le> tr_data_ptr q"
      using data_hdr_sectors_bounds(3) [of "length (tr_entries q)"] by (auto simp: geom_ok_def)
    moreover have "a \<notin> region q" using r(7) m(2) q(1) by blast
    ultimately show ?thesis using q(2,3) by (auto simp: region_def)
  qed
  then show ?thesis using r M(1,3) B(2) unfolding read_pre_def by (auto simp: prefix_def)
qed

section \<open>The properties\<close>

text \<open>
  C3. The volume refines a flat disk. Along every run of the translation layer from the state it
  opens in (writes, new batches, flushes and checkpoints put into the queue, rounds of the worker, and
  uploads that complete in any order) the bytes that the two maps, the batch buffers and the object
  store give for the volume are those of the disk it opened with after the writes of the run, in their
  order; the steps that are not writes change nothing.
\<close>

theorem volume_refines_disk:
  assumes "open_ok cfg uuid om last_seq info p"
    and "psteps zcrc (opened name cfg vol uuid mem om last_seq info ckpts p objs) es s"
  shows "disk s = disk_run (disk (opened name cfg vol uuid mem om last_seq info ckpts p objs)) es"
  using psteps_refine [OF assms(2) opened_inv [OF assms(1)]] by simp

text \<open>
  C2. Reads after writes. In every state of such a run, a sector-aligned read into buffers that do not
  overlap each other or a batch is carried out without a failed assertion, and once its cache requests
  are served from the store, byte \<open>i\<close> of the caller's buffers is byte \<open>i\<close> of the disk from the requested
  offset on, with all writes of the run applied in their order.
\<close>

theorem read_after_writes:
  assumes "open_ok cfg uuid om last_seq info p"
    and "psteps zcrc (opened name cfg vol uuid mem om last_seq info ckpts p objs) es s"
    and "iov_ok iovs" "distinct (addrs iovs)" "0 \<le> x" "x \<le> y" "y \<le> obj_amax" "int (length (addrs iovs)) = 512 * (y - x)"
      "\<forall>a\<in>set (addrs iovs). \<forall>r\<in>set (batches s). a \<notin> region r"
  shows "case handle_reads (prefix (ps_st s)) (t_bufmap (ps_st s)) (t_objmap (ps_st s)) (t_mem (ps_st s)) (512 * x) iovs of
      None \<Rightarrow> False
    | Some (mem', reqs) \<Rightarrow> (\<forall>i<length (addrs iovs). after_reads (obj_byte (ps_objs s)) reqs mem' (addrs iovs ! i)
        = disk_run (disk (opened name cfg vol uuid mem om last_seq info ckpts p objs)) es (512 * x + int i))"
proof -
  note R = psteps_refine [OF assms(2) opened_inv [OF assms(1)]]
  have d: "sector_byte (obj_byte (ps_objs s)) (t_mem (ps_st s)) (t_bufmap (ps_st s)) (t_objmap (ps_st s)) (x + int (i div 512)) (int (i mod 512))
      = disk_run (disk (opened name cfg vol uuid mem om last_seq info ckpts p objs)) es (512 * x + int i)" for i
    using disk_sector [of s x i] R by (simp add: volume_def)
  from handle_reads_spec [where ob = "obj_byte (ps_objs s)" and mem = "t_mem (ps_st s)", OF read_pre_inv [OF R [THEN conjunct1] assms(3-9)]]
  show ?thesis unfolding d by (auto split: option.splits)
qed



section \<open>A run\<close>

text \<open>A new volume, one sector written from memory full of sevens, its batch closed, uploaded and completed.\<close>

definition demo_open :: psys where
  "demo_open = opened ''vol'' demo_cfg (2 ^ 30) (replicate 16 7) (\<lambda>_. 7) extmap_empty 0 RBT.empty [] 8192 (\<lambda>_. [])"

definition demo_wr :: "iovec list" where
  "demo_wr = [\<lparr>iov_base = 64, iov_len = 512\<rparr>]"

lemma demo_cfg_bytes [simp]: "backend_obj_bytes demo_cfg = 8388608"
  by (simp add: demo_cfg_def get_default_def)

lemma demo_open_ok: "open_ok demo_cfg (replicate 16 7) extmap_empty 0 RBT.empty 8192"
  by (simp add: open_ok_def cfg_ok_def map_ok_empty lookup_fun_empty live_ok_def)

lemma demo_hdr: "max_hdr_bytes 8388608 = 33792"
  by (simp add: max_hdr_bytes_def sbf_id)

lemma demo_batches: "batches demo_open = [new_put_req 8192 8388608]" "t_current (ps_st demo_open) = new_put_req 8192 8388608"
  "ps_flight demo_open = []" "t_queue (ps_st demo_open) = []" "t_cfg (ps_st demo_open) = demo_cfg" "t_mem (ps_st demo_open) = (\<lambda>_. 7)"
  "t_cur_seq (ps_st demo_open) = 1"
  by (simp_all add: demo_open_def opened_def make_translate_def batches_def queued_def new_put_req_def ubf_id)

lemma demo_region: "region (new_put_req p 8388608) = {p..<p + 8422400}"
  by (auto simp: region_def new_put_req_def demo_hdr)

lemma demo_addrs_wr: "length (addrs demo_wr) = 512" "bytes demo_wr = 512" "iov_ok demo_wr" "distinct (addrs demo_wr)"
  "a \<in> set (addrs demo_wr) \<longleftrightarrow> 64 \<le> a \<and> a < 576" "i < 512 \<Longrightarrow> addrs demo_wr ! i = 64 + int i"
proof -
  have a: "addrs demo_wr = [64..64 + 512 - 1]" unfolding demo_wr_def addrs_simps by (simp only: iovec.simps append_Nil2)
  show l: "length (addrs demo_wr) = 512" unfolding a length_upto by simp
  show k: "iov_ok demo_wr" unfolding iov_ok_def l by (simp add: demo_wr_def)
  show "bytes demo_wr = 512" using bytes_addrs [OF k] l by simp
  show "distinct (addrs demo_wr)" unfolding a by (rule distinct_upto)
  show "a \<in> set (addrs demo_wr) \<longleftrightarrow> 64 \<le> a \<and> a < 576" unfolding a set_upto by auto
  show "i < 512 \<Longrightarrow> addrs demo_wr ! i = 64 + int i" unfolding a by (rule upto_nth) simp
qed

lemma demo_written: "map (t_mem (ps_st demo_open)) (addrs demo_wr) = replicate 512 7"
  by (simp add: demo_addrs_wr(1) demo_batches map_replicate_const)

lemma demo_write_pre: "write_pre demo_open 10 1 demo_wr"
  by (auto simp: write_pre_def demo_addrs_wr(2-5) demo_batches demo_region hdr_fits_def appended_def)
    (simp_all add: new_put_req_def data_hdr_sectors_eq demo_hdr)

definition demo_wrote :: psys where
  "demo_wrote = wrote demo_open 10 1 demo_wr"

lemma demo_fresh: "s \<in> {demo_open, demo_wrote} \<Longrightarrow> fresh_buf s 67108864"
  by (auto simp: fresh_buf_def batches_older demo_wrote_def demo_batches demo_region older_def)

lemma demo_open_inv: "pipe_inv demo_open"
  unfolding demo_open_def by (rule opened_inv [OF demo_open_ok])

lemma demo_step1: "pstep zcrc demo_open (Wrote 10 (replicate 512 7)) demo_wrote"
proof -
  note inv = demo_open_inv
  have wv: "writev 67108864 (ps_st demo_open) (512 * 10) demo_wr = Some (ps_st demo_wrote)"
    unfolding demo_wrote_def by (rule writev_wrote [OF inv demo_write_pre]) (simp add: tr_room_def demo_batches new_put_req_def demo_addrs_wr(2))
  have ok: "write_ok demo_open 67108864 10 demo_wr"
    by (auto simp: write_ok_def demo_addrs_wr(2-5) demo_batches demo_region)
  have fit: "hdr_fits (t_current (ps_st demo_wrote))" using demo_write_pre by (simp add: write_pre_def demo_wrote_def)
  have eq: "demo_wrote = demo_open\<lparr>ps_st := ps_st demo_wrote\<rparr>" by (simp add: demo_wrote_def wrote_def Let_def)
  have "pstep zcrc demo_open (Wrote 10 (map (t_mem (ps_st demo_open)) (addrs demo_wr))) (demo_open\<lparr>ps_st := ps_st demo_wrote\<rparr>)"
    by (rule p_write [OF ok _ wv fit]) (simp add: demo_fresh)
  then show ?thesis using eq demo_written by simp
qed

lemma demo_pipe_run:
  obtains s where "psteps zcrc demo_open [Wrote 10 (replicate 512 7), Internal, Internal, Internal] s"
    "ps_flight s = []" "batches s = [new_put_req 67108864 8388608]"
proof -
  let ?s2 = "demo_wrote\<lparr>ps_st := roll_batch 67108864 (ps_st demo_wrote)\<rparr>"
  note inv = demo_open_inv
  have two: "pstep zcrc demo_wrote Internal ?s2" by (rule p_roll [of _ 67108864]) (simp_all add: demo_fresh)
  have inv2: "pipe_inv ?s2" using pstep_refines [OF _ two] pstep_refines [OF inv demo_step1] by blast
  have q2: "t_queue (ps_st ?s2) = [t_current (ps_st demo_wrote)]" "tr_op (t_current (ps_st demo_wrote)) = REQ_PUT"
    "t_cur_seq (ps_st ?s2) + 1 < 2 ^ 32"
    by (simp_all add: roll_batch_def demo_wrote_def demo_batches new_put_req_def)
  show thesis
  proof (rule put_runs [OF inv2 q2, where zcrc = zcrc], goal_cases)
    case (1 st' om hdr c nm bs)
    let ?r = "t_current (ps_st demo_wrote)\<lparr>tr_seq := t_cur_seq (ps_st ?s2)\<rparr>"
    let ?s3 = "?s2\<lparr>ps_st := st', ps_flight := ps_flight ?s2 @ [(?r, bs)]\<rparr>"
    have three: "pstep zcrc ?s2 Internal ?s3" by (rule p_put [OF q2 1(1,2)])
    have fl: "ps_flight ?s3 = [] @ (?r, bs) # []" by (simp add: demo_wrote_def demo_batches)
    note four = p_done [OF fl, of zcrc "Sector_ptr 0"]
    let ?s4 = "?s3\<lparr>ps_st := notify (Sector_ptr 0) ?r (ps_st ?s3), ps_flight := [] @ [], ps_objs := (ps_objs ?s3)(tr_seq ?r := bs)\<rparr>"
    have "psteps zcrc demo_open [Wrote 10 (replicate 512 7), Internal, Internal, Internal] ?s4"
      by (intro psteps_step [OF demo_step1] psteps_step [OF two] psteps_step [OF three] psteps_step [OF four] psteps_refl)
    moreover have "batches ?s4 = [new_put_req 67108864 8388608]"
      using put_startedD(1,2) [OF 1(3)]
      by (simp add: batches_def queued_def notify_def Let_def roll_batch_def demo_wrote_def demo_batches)
    ultimately show ?case using that [of ?s4] by simp
  qed
qed

lemma demo_disk: "disk demo_open = (\<lambda>_. 0)"
  by (simp add: disk_def volume_def sector_byte_def demo_open_def opened_def make_translate_def lookup_fun_empty fun_eq_iff)

theorem volume_refines_disk_witness:
  "\<exists>s. psteps (\<lambda>_. 0) demo_open [Wrote 10 (replicate 512 7), Internal, Internal, Internal] s \<and> ps_flight s = []
     \<and> disk s 5120 = 7 \<and> disk s 5632 = 0"
proof (rule demo_pipe_run [of "\<lambda>_. 0"])
  fix s assume s: "psteps (\<lambda>_. 0) demo_open [Wrote 10 (replicate 512 7), Internal, Internal, Internal] s" "ps_flight s = []"
  have "disk s = disk_run (disk demo_open) [Wrote 10 (replicate 512 7), Internal, Internal, Internal]"
    using volume_refines_disk [OF demo_open_ok s(1) [unfolded demo_open_def]] by (simp only: demo_open_def)
  then show ?thesis using s by (intro exI [of _ s]) (simp add: demo_disk disk_write_def)
qed

theorem read_after_writes_witness:
  "\<exists>s mem' reqs. psteps (\<lambda>_. 0) demo_open [Wrote 10 (replicate 512 7), Internal, Internal, Internal] s
     \<and> handle_reads (prefix (ps_st s)) (t_bufmap (ps_st s)) (t_objmap (ps_st s)) (t_mem (ps_st s)) (512 * 10) demo_wr = Some (mem', reqs)
     \<and> after_reads (obj_byte (ps_objs s)) reqs mem' 66 = 7"
proof (rule demo_pipe_run [of "\<lambda>_. 0"])
  fix s assume s: "psteps (\<lambda>_. 0) demo_open [Wrote 10 (replicate 512 7), Internal, Internal, Internal] s"
    "batches s = [new_put_req 67108864 8388608]"
  have b: "\<forall>a\<in>set (addrs demo_wr). \<forall>r\<in>set (batches s). a \<notin> region r" by (auto simp: s(2) demo_addrs_wr(5) demo_region)
  have i: "addrs demo_wr ! 2 = 66" "(2::nat) < length (addrs demo_wr)" by (simp_all add: demo_addrs_wr(1,6))
  from read_after_writes [OF demo_open_ok s(1) [unfolded demo_open_def] demo_addrs_wr(3,4) _ _ _ _ b, of 10 11, folded demo_open_def]
  have "case handle_reads (prefix (ps_st s)) (t_bufmap (ps_st s)) (t_objmap (ps_st s)) (t_mem (ps_st s)) (512 * 10) demo_wr of
      None \<Rightarrow> False | Some (mem', reqs) \<Rightarrow> (\<forall>i<length (addrs demo_wr). after_reads (obj_byte (ps_objs s)) reqs mem' (addrs demo_wr ! i)
        = disk_run (disk demo_open) [Wrote 10 (replicate 512 7), Internal, Internal, Internal] (512 * 10 + int i))"
    by (simp add: demo_addrs_wr(1) obj_amax_def)
  then obtain mem' reqs where "handle_reads (prefix (ps_st s)) (t_bufmap (ps_st s)) (t_objmap (ps_st s)) (t_mem (ps_st s)) (512 * 10) demo_wr = Some (mem', reqs)"
    "after_reads (obj_byte (ps_objs s)) reqs mem' 66 = disk_run (disk demo_open) [Wrote 10 (replicate 512 7), Internal, Internal, Internal] (512 * 10 + int 2)"
    using i by (fastforce split: option.splits)
  then show ?thesis using s(1) by (auto simp: disk_write_def)
qed


end
