(* ===== verification/Pipeline_Flush.thy ===== *)
theory Pipeline_Flush
  imports Pipeline_Correct
begin

text \<open>
  Flushes: what holds when the worker has handled one, and that the work in the queue comes to an end.
  Also the room for the header in front of a batch.
\<close>

section \<open>Durability\<close>

lemma flight_empty_maps:
  assumes inv: "pipe_inv s" and f: "ps_flight s = []"
  shows "buf_look (t_bufmap (ps_st s)) x \<noteq> None \<longleftrightarrow> newest (queued (ps_st s)) x \<noteq> None"
proof -
  have m: "maps_inv s" using inv by (simp add: pipe_inv_def)
  have "batches s = queued (ps_st s)" using f by (simp add: batches_def)
  then show ?thesis using maps_invD(4) [OF m, of x] maps_invD(5) [OF m, of x] by force
qed


section \<open>The queue drains\<close>

definition busy :: "psys \<Rightarrow> nat" where
  "busy s = 2 * length (t_queue (ps_st s)) + length (ps_flight s)"

text \<open>With no checkpoint in the queue the next step can always be made, and there is less to do after it.\<close>

lemma drain_step:
  assumes inv: "pipe_inv s" and q: "\<forall>r\<in>set (t_queue (ps_st s)). tr_op r \<noteq> REQ_CKPT"
    and seq: "t_cur_seq (ps_st s) + int (length (t_queue (ps_st s))) < 2 ^ 32" and b: "0 < busy s"
  obtains s' where "pstep zcrc s Internal s'" "busy s' < busy s" "set (t_queue (ps_st s')) \<subseteq> set (t_queue (ps_st s))"
    "t_cur_seq (ps_st s') + int (length (t_queue (ps_st s'))) \<le> t_cur_seq (ps_st s) + int (length (t_queue (ps_st s)))"
    "t_current (ps_st s') = t_current (ps_st s)"
proof -
  have base: "base_inv s" using inv by (simp add: pipe_inv_def)
  note B = base_invD [OF base]
  show thesis
  proof (cases "ps_flight s")
    case (Cons f ys)
    obtain r bs where f: "f = (r, bs)" by (cases f)
    let ?s = "finished (Sector_ptr 0) s [] r bs ys"
    have fl: "ps_flight s = [] @ (r, bs) # ys" using Cons f by simp
    have "tr_op r = REQ_PUT" using flight_batch(3) [OF inv fl] .
    note S = finished_simps [OF this, of "Sector_ptr 0" s "[]" bs ys]
    have "pstep zcrc s Internal ?s" unfolding finished_def by (rule p_done [OF fl])
    then show thesis using that [of ?s] S fl by (simp add: busy_def)
  next
    case Nil
    then obtain r q' where r: "t_queue (ps_st s) = r # q'" using b by (cases "t_queue (ps_st s)") (auto simp: busy_def)
    have s1: "t_cur_seq (ps_st s) + 1 < 2 ^ 32" using seq r by simp
    consider "tr_op r = REQ_PUT" | "tr_op r = REQ_FLUSH" using q B(6) [of r] r by (cases "tr_op r") auto
    then show thesis
    proof cases
      case 1
      show thesis
      proof (rule put_runs [OF inv r 1 s1, where zcrc = zcrc], goal_cases)
        case (1 st' om hdr c nm bs)
        note P = put_startedD [OF 1(3)]
        show thesis
          by (rule that [OF p_put [OF r \<open>tr_op r = REQ_PUT\<close> s1 1(1,2)]]) (use P(1,2,6) Nil r in \<open>auto simp: busy_def\<close>)
      qed
    next
      case 2
      let ?st = "(ps_st s)\<lparr>t_queue := q'\<rparr>"
      have w: "worker_step zcrc (ps_st s) = Some ?st" using r 2 B(12) Nil by (simp add: worker_step_def)
      show thesis by (rule that [OF p_work [OF r _ s1 w]]) (use r 2 in \<open>auto simp: busy_def\<close>)
    qed
  qed
qed

lemma drains:
  assumes "pipe_inv s" "\<forall>r\<in>set (t_queue (ps_st s)). tr_op r \<noteq> REQ_CKPT"
    "t_cur_seq (ps_st s) + int (length (t_queue (ps_st s))) < 2 ^ 32"
  shows "\<exists>n s'. psteps zcrc s (replicate n Internal) s' \<and> t_queue (ps_st s') = [] \<and> ps_flight s' = []
    \<and> t_current (ps_st s') = t_current (ps_st s)"
  using assms
proof (induction "busy s" arbitrary: s rule: less_induct)
  case less
  show ?case
  proof (cases "busy s = 0")
    case True
    then have "psteps zcrc s (replicate 0 Internal) s" "t_queue (ps_st s) = []" "ps_flight s = []" by (simp_all add: psteps_refl busy_def)
    then show ?thesis by blast
  next
    case False
    obtain s' where s': "pstep zcrc s Internal s'" "busy s' < busy s" "set (t_queue (ps_st s')) \<subseteq> set (t_queue (ps_st s))"
      "t_cur_seq (ps_st s') + int (length (t_queue (ps_st s'))) \<le> t_cur_seq (ps_st s) + int (length (t_queue (ps_st s)))"
      "t_current (ps_st s') = t_current (ps_st s)"
      by (rule drain_step [OF less.prems, of zcrc]) (use False in auto)
    have "pipe_inv s'" using pstep_refines [OF less.prems(1) s'(1)] by simp
    from less.hyps [OF s'(2) this] s'(3,4) less.prems(2,3) obtain n s''
      where n: "psteps zcrc s' (replicate n Internal) s''" "t_queue (ps_st s'') = []" "ps_flight s'' = []" "t_current (ps_st s'') = t_current (ps_st s')"
      by fastforce
    have "psteps zcrc s (replicate (Suc n) Internal) s''" using psteps_step [OF s'(1) n(1)] by simp
    then show ?thesis using n s'(5) by metis
  qed
qed

text \<open>
  C7. Flushes come to an end. From every state of a run, as long as sequence numbers last and no
  checkpoint is queued, rounds of the worker and completions of uploads alone lead to a state in which
  the queue is empty and all uploads are stored; none of the assertions on the way fails, and the disk
  is unchanged.
\<close>

theorem pipeline_drains:
  assumes "open_ok cfg uuid om last_seq info p"
    and "psteps zcrc (opened name cfg vol uuid mem om last_seq info ckpts p objs) es s"
    and "\<forall>r\<in>set (t_queue (ps_st s)). tr_op r \<noteq> REQ_CKPT" "t_cur_seq (ps_st s) + int (length (t_queue (ps_st s))) < 2 ^ 32"
  shows "\<exists>n s'. psteps zcrc s (replicate n Internal) s' \<and> t_queue (ps_st s') = [] \<and> ps_flight s' = [] \<and> disk s' = disk s"
proof -
  have inv: "pipe_inv s" using psteps_refine [OF assms(2) opened_inv [OF assms(1)]] by simp
  obtain n s' where n: "psteps zcrc s (replicate n Internal) s'" "t_queue (ps_st s') = []" "ps_flight s' = []"
    using drains [OF inv assms(3,4)] by blast
  have "disk_run d (replicate n Internal) = d" for d by (induction n) simp_all
  then show ?thesis using n psteps_refine [OF n(1) inv] by auto
qed

section \<open>The room for the header\<close>

lemma hdr_sectors_le:
  assumes "n < 2 ^ 24"
  shows "512 * data_hdr_sectors n = 4096 * ((8 * int n + 4167) div 4096)"
  by (simp add: data_hdr_sectors_eq [OF assms] algebra_simps)

text \<open>
  C37. The header in front of a batch. A batch buffer has room for a header of 1024 bytes and 8 bytes
  per 2048 bytes of data. If all writes of a batch have at least eight sectors (4096 bytes), the header
  that \<^verbatim>\<open>process_batch\<close> puts in front of the data fits into the room. For smaller writes it need not: for
  every object size of one to eight megabytes a batch of one-sector writes that fits the object has a
  header that starts before the allocated buffer.
\<close>

theorem header_room:
  assumes "2 ^ 20 \<le> n" "n \<le> 2 ^ 23" "n mod 4096 = 0"
  shows "(\<forall>es. list_all (\<lambda>e. 8 \<le> me_len e) es \<and> 512 * total_len (entry_ranges es) \<le> n \<longrightarrow>
        tr_batch_buf (new_put_req p n) \<le> tr_data_ptr (new_put_req p n) - data_hdr_sectors (length es) * 512)
    \<and> (let es = replicate (nat (n div 512)) (mk_ckpt_mapentry 0 1 0 0)
       in 512 * total_len (entry_ranges es) = n
        \<and> tr_data_ptr (new_put_req p n) - data_hdr_sectors (length es) * 512 < tr_batch_buf (new_put_req p n))"
proof -
  have nb: "1048576 \<le> n" "n \<le> 8388608" using assms by simp_all
  have m: "max_hdr_bytes n = 1024 + n div 2048 * 8" using nb by (simp add: max_hdr_bytes_def sbf_id)
  have d: "tr_data_ptr (new_put_req p n) = p + max_hdr_bytes n" "tr_batch_buf (new_put_req p n) = p" by (simp_all add: new_put_req_def)
  have "512 * data_hdr_sectors (length es) \<le> max_hdr_bytes n"
    if es: "list_all (\<lambda>e. 8 \<le> me_len e) es" "512 * total_len (entry_ranges es) \<le> n" for es
  proof -
    have "8 * int (length es) \<le> total_len (entry_ranges es)" using es(1) by (induction es) auto
    then have l: "4096 * int (length es) \<le> n" using es(2) by simp
    then have "length es < 2 ^ 24" using nb by simp
    then have e: "512 * data_hdr_sectors (length es) = 4096 * ((8 * int (length es) + 4167) div 4096)" by (rule hdr_sectors_le)
    obtain t where t: "n = 4096 * t" using assms(3) by fastforce
    have "n div 2048 = 2 * t" unfolding t by simp
    then have r: "max_hdr_bytes n = 1024 + 16 * t" using m by simp
    have k: "int (length es) \<le> t" "256 \<le> t" using l nb t by simp_all
    show ?thesis
    proof (cases "int (length es) < 503")
      case True
      then have "(8 * int (length es) + 4167) div 4096 \<le> 1" by linarith
      then show ?thesis using e r k by linarith
    next
      case False
      have "4096 * ((8 * int (length es) + 4167) div 4096) \<le> 8 * int (length es) + 4167" by linarith
      then show ?thesis using e r k False by linarith
    qed
  qed
  moreover have "total_len (entry_ranges (replicate k (mk_ckpt_mapentry 0 1 0 0))) = int k" for k
    by (induction k) (simp_all add: mk_ckpt_mapentry_def sbf_id)
  moreover have "max_hdr_bytes n < 512 * data_hdr_sectors (nat (n div 512))"
  proof -
    obtain t where t: "n = 4096 * t" using assms(3) by fastforce
    have q: "n div 2048 = 2 * t" "n div 512 = 8 * t" unfolding t by simp_all
    have t2: "256 \<le> t" "t \<le> 2048" using nb t by simp_all
    have k: "nat (n div 512) < 2 ^ 24" "int (nat (n div 512)) = 8 * t" using t2 q(2) by auto
    have "72 + 8 * (8 * t) \<le> 512 * data_hdr_sectors (nat (n div 512))" using data_hdr_sectors_bounds(1) [OF k(1)] unfolding k(2) .
    then show ?thesis using m q(1) t2 by linarith
  qed
  moreover have "512 * (n div 512) = n" using assms(3) by fastforce
  ultimately show ?thesis using d nb by (simp add: Let_def mult.commute)
qed

section \<open>Witnesses\<close>

text \<open>The run of the previous theory with a flush instead of a new batch.\<close>

definition demo_flushing :: psys where
  "demo_flushing = demo_wrote\<lparr>ps_st := flush 67108864 (ps_st demo_wrote)\<rparr>"

lemma demo_flushing_steps:
  "psteps zcrc demo_open [Wrote 10 (replicate 512 7), Internal] demo_flushing" "pipe_inv demo_flushing"
  "t_queue (ps_st demo_flushing) = [t_current (ps_st demo_wrote), new_req REQ_FLUSH]" "t_cur_seq (ps_st demo_flushing) = 1"
  "ps_flight demo_flushing = []" "tr_op (t_current (ps_st demo_wrote)) = REQ_PUT"
proof -
  have two: "pstep zcrc demo_wrote Internal demo_flushing" for zcrc
    unfolding demo_flushing_def by (rule p_roll [of _ 67108864]) (simp_all add: demo_fresh)
  show run: "psteps zcrc demo_open [Wrote 10 (replicate 512 7), Internal] demo_flushing" for zcrc
    by (intro psteps_step [OF demo_step1] psteps_step [OF two] psteps_refl)
  show "pipe_inv demo_flushing" using psteps_refine [OF run [of "\<lambda>_. 0"] demo_open_inv] by simp
  have len: "0 < tr_len (t_current (ps_st demo_wrote))" by (simp add: demo_wrote_def appended_def demo_batches new_put_req_def)
  show "t_queue (ps_st demo_flushing) = [t_current (ps_st demo_wrote), new_req REQ_FLUSH]" "t_cur_seq (ps_st demo_flushing) = 1"
    using len by (simp_all add: demo_flushing_def flush_def roll_batch_def Let_def demo_wrote_def demo_batches)
  show "ps_flight demo_flushing = []" "tr_op (t_current (ps_st demo_wrote)) = REQ_PUT"
    by (simp_all add: demo_flushing_def demo_wrote_def demo_batches new_put_req_def)
qed


theorem pipeline_drains_witness:
  "\<exists>n s'. psteps (\<lambda>_. 0) demo_flushing (replicate n Internal) s' \<and> t_queue (ps_st s') = [] \<and> ps_flight s' = [] \<and> disk s' 5120 = 7"
proof -
  note F = demo_flushing_steps
  have "disk demo_flushing 5120 = 7"
    using psteps_refine [OF F(1) [of "\<lambda>_. 0"] demo_open_inv] by (simp add: disk_write_def)
  moreover have "\<exists>n s'. psteps (\<lambda>_. 0) demo_flushing (replicate n Internal) s' \<and> t_queue (ps_st s') = [] \<and> ps_flight s' = []
      \<and> disk s' = disk demo_flushing"
    by (rule pipeline_drains [OF demo_open_ok F(1) [unfolded demo_open_def]]) (simp_all add: F(3,4,6) new_req_def)
  ultimately show ?thesis by metis
qed

theorem header_room_witness:
  "let es = replicate 16384 (mk_ckpt_mapentry 0 1 0 0)
   in tr_data_ptr (new_put_req 8192 (2 ^ 23)) - data_hdr_sectors (length es) * 512 < tr_batch_buf (new_put_req 8192 (2 ^ 23))"
  using header_room [of "2 ^ 23" 8192] by (simp add: Let_def)

end
