(* ===== verification/Gc.thy ===== *)
theory Gc
  imports Translate_Trim Log_Replay Complex_Main "HOL-Library.Product_Lexorder"
begin

text \<open>
  The garbage collector of the translation layer (\<^verbatim>\<open>do_gc\<close> and \<^verbatim>\<open>gc_thread\<close> in \<^verbatim>\<open>translate.cc\<close>). Its phases
  are functions on the state, in the order of the code; the thread itself is a step relation, since the
  worker and the writers run between its phases. The utilisation of an object is a quotient of sector
  counts; it is compared exactly, which agrees with the comparison in double precision because two such
  quotients that differ are further apart than its rounding.
\<close>

section \<open>Dead objects\<close>

definition gc_dead :: "tstate \<Rightarrow> int list" where
  "gc_dead st = map fst (filter (\<lambda>(n, oi). oi_live oi = 0) (RBT.entries (t_object_info st)))"

definition gc_begin :: "tstate \<Rightarrow> int \<times> int list \<times> tstate" where
  "gc_begin st =
     (let dead = filter (\<lambda>(n, oi). oi_live oi = 0) (RBT.entries (t_object_info st))
      in (sbf 32 (t_cur_seq st), map fst dead,
          st\<lparr>t_gc_cycles := t_gc_cycles st + 1,
             t_total_sectors := t_total_sectors st - sum_list (map (\<lambda>(n, oi). oi_data oi) dead)\<rparr>))"

definition pinned :: "tstate \<Rightarrow> int \<Rightarrow> bool" where
  "pinned st ob \<longleftrightarrow> RBT.lookup (t_obj_read_refcount st) ob \<noteq> None"

text \<open>The deletes are issued at most eight at a time; waiting for them changes no state of the layer.\<close>

fun gc_delete_dead :: "int list \<Rightarrow> tstate \<Rightarrow> tstate option" where
  "gc_delete_dead [] st = Some st"
| "gc_delete_dead (ob # obs) st =
     (if pinned st ob then gc_delete_dead obs st
      else case prefix st ob of
             None \<Rightarrow> None
           | Some pf \<Rightarrow> gc_delete_dead obs (st\<lparr>t_out := t_out st @ [Aio_delete (oname pf ob)]\<rparr>))"

definition gc_forget :: "int list \<Rightarrow> tstate \<Rightarrow> tstate" where
  "gc_forget obs st = st\<lparr>t_object_info := foldl (\<lambda>info ob. RBT.delete ob info) (t_object_info st) obs\<rparr>"

section \<open>The objects to clean\<close>

definition gc_last_ckpt :: "tstate \<Rightarrow> int" where
  "gc_last_ckpt st = (if t_checkpoints st \<noteq> [] then last (t_checkpoints st) else t_cur_seq st)"

text \<open>\<^verbatim>\<open>std::set<std::tuple<double, int, int>>\<close>, in its order.\<close>

definition gc_utilization :: "int \<Rightarrow> (int, data_obj_info) rbt \<Rightarrow> (rat \<times> int \<times> int) list" where
  "gc_utilization last_ckpt info =
     sort (remdups (map (\<lambda>(n, oi). (of_int (oi_live oi) / of_int (oi_data oi), n, oi_hdr oi + oi_data oi))
       (filter (\<lambda>(n, oi). n \<le> last_ckpt) (RBT.entries info))))"

fun gc_pick :: "rat \<Rightarrow> (rat \<times> int \<times> int) list \<Rightarrow> (int \<times> int) list \<Rightarrow> (int \<times> int) list" where
  "gc_pick threshold [] acc = acc"
| "gc_pick threshold ((u, ob, n) # us) acc =
     (if u > threshold then gc_pick threshold us acc
      else if 32 < length acc then acc
      else gc_pick threshold us (acc @ [(ob, n)]))"

definition gc_choose :: "int \<Rightarrow> tstate \<Rightarrow> (int \<times> int) list" where
  "gc_choose last_ckpt st =
     gc_pick (of_int (gc_threshold_pc (t_cfg st)) / 100) (gc_utilization last_ckpt (t_object_info st)) []"

section \<open>Their live data\<close>

definition gc_live_extents :: "int \<Rightarrow> (int \<times> int) list \<Rightarrow> objmap \<Rightarrow> objmap" where
  "gc_live_extents max_obj objs om =
     foldl (\<lambda>m e. let (base, lim, ptr) = vals e
                  in if obj ptr \<le> max_obj \<and> obj ptr \<in> fst ` set objs then update lba2obj m base lim ptr else m)
       extmap_empty (all_extents om)"

text \<open>
  Reading the objects into the temporary file. The result of a read is not looked at: what it does not
  fill keeps the content of the buffer. A failed write to the file (\<open>full\<close>) ends the process.
\<close>

fun gc_read_objs ::
  "(int \<Rightarrow> bool) \<Rightarrow> reader \<Rightarrow> (int \<times> int) list \<Rightarrow> byte list \<Rightarrow> (int \<rightharpoonup> int) \<Rightarrow> byte list \<Rightarrow> tstate \<Rightarrow>
   ((int \<rightharpoonup> int) \<times> byte list \<times> tstate) option" where
  "gc_read_objs full rd [] room file_map content st = Some (file_map, content, st)"
| "gc_read_objs full rd ((ob, sectors) # objs) room file_map content st =
     (case prefix st ob of
        None \<Rightarrow> None
      | Some pf \<Rightarrow>
          let room' = put_bytes room 0 (snd (rd (oname pf ob) 0 (sectors * 512)))
          in if full ob then None
             else gc_read_objs full rd objs room' (file_map(ob \<mapsto> int (length content) div 512))
                    (content @ take (nat (sectors * 512)) room')
                    (st\<lparr>t_gc_sectors_read := t_gc_sectors_read st + sectors\<rparr>))"

definition gc_buf_sectors :: "(int \<times> int) list \<Rightarrow> tstate \<Rightarrow> int" where
  "gc_buf_sectors objs st =
     foldl (\<lambda>m (ob, n). case RBT.lookup (t_object_info st) ob of
                          None \<Rightarrow> max 0 m
                        | Some oi \<Rightarrow> max (oi_hdr oi + oi_data oi) m) 0 objs"

text \<open>\<^verbatim>\<open>struct _extent\<close>.\<close>

record gc_extent =
  x_base :: int
  x_limit :: int
  x_ptr :: obj_offset

definition gc_extents :: "objmap \<Rightarrow> gc_extent list" where
  "gc_extents live =
     map (\<lambda>e. let (base, lim, ptr) = vals e in \<lparr>x_base = base, x_limit = lim, x_ptr = ptr\<rparr>) (all_extents live)"

text \<open>The extents of one request: as long as they have fewer than \<open>m\<close> sectors, one more.\<close>

fun gc_take :: "int \<Rightarrow> int \<Rightarrow> gc_extent list \<Rightarrow> gc_extent list \<times> gc_extent list" where
  "gc_take m sectors [] = ([], [])"
| "gc_take m sectors (x # xs) =
     (if sectors < m
      then let (b, r) = gc_take m (sectors + (x_limit x - x_base x)) xs in (x # b, r)
      else ([], x # xs))"

fun gc_batches :: "nat \<Rightarrow> int \<Rightarrow> gc_extent list \<Rightarrow> gc_extent list list option" where
  "gc_batches fuel m [] = Some []"
| "gc_batches 0 m (x # xs) = None"
| "gc_batches (Suc fuel) m (x # xs) =
     (let (b, r) = gc_take m 0 (x # xs) in map_option ((#) b) (gc_batches fuel m r))"

fun gc_load ::
  "(int \<rightharpoonup> int) \<Rightarrow> byte list \<Rightarrow> gc_extent list \<Rightarrow> (ckpt_mapentry list \<times> byte list) option" where
  "gc_load file_map content [] = Some ([], [])"
| "gc_load file_map content (x # xs) =
     (let file_sector = (case file_map (obj (x_ptr x)) of None \<Rightarrow> 0 | Some n \<Rightarrow> n) + offset (x_ptr x);
          sectors = x_limit x - x_base x;
          bs = take (nat (sectors * 512)) (drop (nat (file_sector * 512)) content)
      in if file_sector + sectors \<le> int (length content) div 512 \<and> int (length bs) = sectors * 512
         then map_option (\<lambda>(es, ds).
                (mk_ckpt_mapentry (x_base x) sectors (sbf 32 (obj (x_ptr x))) (sbf 32 (offset (x_ptr x))) # es, bs @ ds))
                (gc_load file_map content xs)
         else None)"

definition gc_request :: "(int \<rightharpoonup> int) \<Rightarrow> byte list \<Rightarrow> gc_extent list \<Rightarrow> translate_req option" where
  "gc_request file_map content xs =
     map_option (\<lambda>(es, ds). (new_req REQ_GC)\<lparr>tr_entries := es, tr_gc_data := ds\<rparr>) (gc_load file_map content xs)"

text \<open>All requests of a cycle; the objects are read first. \<open>fuel\<close> bounds the loop over the extents.\<close>

definition gc_requests ::
  "(int \<Rightarrow> bool) \<Rightarrow> reader \<Rightarrow> byte list \<Rightarrow> (int \<times> int) list \<Rightarrow> objmap \<Rightarrow> tstate \<Rightarrow> (translate_req list \<times> tstate) option" where
  "gc_requests full rd room objs live st =
     (case gc_read_objs full rd objs room (\<lambda>_. None) [] st of
        None \<Rightarrow> None
      | Some (file_map, content, st') \<Rightarrow>
          let xs = gc_extents live
          in case gc_batches (length xs) (backend_obj_bytes (t_cfg st) div 512) xs of
               None \<Rightarrow> None
             | Some bs \<Rightarrow>
                 let rs = map (gc_request file_map content) bs
                 in if None \<in> set rs then None else Some (map the rs, st'))"

section \<open>Retiring the cleaned objects\<close>

fun gc_retire :: "(int \<times> int) list \<Rightarrow> tstate \<Rightarrow> tstate" where
  "gc_retire [] st = st"
| "gc_retire ((ob, n) # objs) st =
     gc_retire objs
       (st\<lparr>t_total_sectors := t_total_sectors st -
             (case RBT.lookup (t_object_info st) ob of None \<Rightarrow> 0 | Some oi \<Rightarrow> oi_data oi),
           t_object_info := RBT.delete ob (t_object_info st)\<rparr>)"

fun gc_delete_objs :: "(int \<times> int) list \<Rightarrow> tstate \<Rightarrow> tstate option" where
  "gc_delete_objs [] st = Some st"
| "gc_delete_objs ((ob, n) # objs) st =
     (if pinned st ob then gc_delete_objs objs st
      else case prefix st ob of
             None \<Rightarrow> None
           | Some pf \<Rightarrow> gc_delete_objs objs
               (st\<lparr>t_out := t_out st @ [Be_delete (oname pf ob)], t_gc_deleted := t_gc_deleted st + 1\<rparr>))"

section \<open>The thread\<close>

text \<open>Where the thread is between two pieces of work; \<open>Gc_sleep\<close> is the start of the loop of \<^verbatim>\<open>gc_thread\<close>.\<close>

datatype gc_pc =
    Gc_sleep
  | Gc_reap int "int list"
  | Gc_drop int "int list"
  | Gc_pick int
  | Gc_scan int "(int \<times> int) list"
  | Gc_read "(int \<times> int) list" objmap
  | Gc_send "(int \<times> int) list" "translate_req list"
  | Gc_erase "(int \<times> int) list"
  | Gc_ckpt "(int \<times> int) list"
  | Gc_delete "(int \<times> int) list"
  | Gc_exit

text \<open>
  One step of the thread. The last two components count the requests that the thread has put into the
  queue and those that have completed; \<open>p\<close> is the address of a new batch buffer. A stop is noticed at the
  points where the code looks at its stop token.
\<close>

inductive gc_step ::
  "(int \<Rightarrow> bool) \<Rightarrow> reader \<Rightarrow> (int \<Rightarrow> byte list) \<Rightarrow> gc_pc \<times> tstate \<times> nat \<times> nat \<Rightarrow> gc_pc \<times> tstate \<times> nat \<times> nat \<Rightarrow> bool"
  for full rd mem0 where
  gc_start: "gc_begin st = (max_obj, dead, st') \<Longrightarrow>
    gc_step full rd mem0 (Gc_sleep, st, n, d) (Gc_reap max_obj dead, st', n, d)"
| gc_reap: "gc_delete_dead dead st = Some st' \<Longrightarrow>
    gc_step full rd mem0 (Gc_reap max_obj dead, st, n, d) (Gc_drop max_obj dead, st', n, d)"
| gc_drop: "gc_step full rd mem0 (Gc_drop max_obj dead, st, n, d) (Gc_pick max_obj, gc_forget dead st, n, d)"
| gc_none: "gc_choose (gc_last_ckpt st) st = [] \<Longrightarrow>
    gc_step full rd mem0 (Gc_pick max_obj, st, n, d) (Gc_sleep, st, n, d)"
| gc_some: "gc_choose (gc_last_ckpt st) st = objs \<Longrightarrow> objs \<noteq> [] \<Longrightarrow>
    gc_step full rd mem0 (Gc_pick max_obj, st, n, d) (Gc_scan max_obj objs, st, n, d)"
| gc_scan: "live = gc_live_extents max_obj objs (t_objmap st) \<Longrightarrow>
    gc_step full rd mem0 (Gc_scan max_obj objs, st, n, d)
      (if 0 < size_map live then Gc_read objs live else Gc_erase objs, st, n, d)"
| gc_read: "gc_requests full rd (mem0 (gc_buf_sectors objs st * 512)) objs live st = Some (rs, st') \<Longrightarrow>
    gc_step full rd mem0 (Gc_read objs live, st, n, d) (Gc_send objs rs, st', n, d)"
| gc_send: "gc_step full rd mem0 (Gc_send objs (r # rs), st, n, d)
      (Gc_send objs rs, st\<lparr>t_queue := t_queue st @ [r]\<rparr>, Suc n, d)"
| gc_sent: "gc_step full rd mem0 (Gc_send objs [], st, n, n) (Gc_erase objs, st, n, n)"
| gc_erase: "gc_step full rd mem0 (Gc_erase objs, st, n, d) (Gc_ckpt objs, checkpoint p (gc_retire objs st), n, d)"
| gc_ckpt: "\<forall>r\<in>set (t_queue st). tr_op r \<noteq> REQ_CKPT \<Longrightarrow>
    gc_step full rd mem0 (Gc_ckpt objs, st, n, d) (Gc_delete objs, st, n, d)"
| gc_delete: "gc_delete_objs objs st = Some st' \<Longrightarrow>
    gc_step full rd mem0 (Gc_delete objs, st, n, d) (Gc_sleep, st', n, d)"
| gc_stop: "pc \<in> {Gc_sleep, Gc_scan max_obj objs, Gc_read objs live, Gc_send objs rs} \<Longrightarrow>
    gc_step full rd mem0 (pc, st, n, d) (Gc_exit, st, n, d)"
| gc_stop_read: "gc_read_objs full rd (take k objs) (mem0 (gc_buf_sectors objs st * 512)) (\<lambda>_. None) [] st = Some (fm, content, st') \<Longrightarrow>
    gc_step full rd mem0 (Gc_read objs live, st, n, d) (Gc_exit, st', n, d)"
| gc_stop_sent: "gc_step full rd mem0 (Gc_send objs [], st, n, d) (Gc_exit, gc_retire objs st, n, d)"
| gc_stop_erase: "gc_step full rd mem0 (Gc_erase objs, st, n, d) (Gc_exit, gc_retire objs st, n, d)"

end
