(* ===== verification/Gc_Write.thy ===== *)
theory Gc_Write
  imports Gc
begin

text \<open>
  What \<^verbatim>\<open>write_gc\<close> does to the maps: the sectors of a request that are still mapped to the object they
  were read from move to the new object, with the same bytes; everything else stays, and the live
  counters stay exact.
\<close>

section \<open>Ascending ranges\<close>

definition ascending :: "(int \<times> int) list \<Rightarrow> bool" where
  "ascending es \<longleftrightarrow> sorted_wrt (\<lambda>(a, n) (b, m). a + n \<le> b) es"

lemma ascending_simps [simp]:
  "ascending []" "ascending ((a, n) # es) \<longleftrightarrow> (\<forall>(b, m)\<in>set es. a + n \<le> b) \<and> ascending es"
  "ascending (xs @ ys) \<longleftrightarrow> ascending xs \<and> ascending ys \<and> (\<forall>(a, n)\<in>set xs. \<forall>(b, m)\<in>set ys. a + n \<le> b)"
  by (auto simp: ascending_def sorted_wrt_append)

lemma covered_simps [simp]:
  "covered [] = {}" "covered ((a, n) # es) = {a..<a + n} \<union> covered es" "covered (xs @ ys) = covered xs \<union> covered ys"
  by (auto simp: covered_def)

lemma ascending_card:
  "ranges_ok es \<Longrightarrow> ascending es \<Longrightarrow> int (card (covered es)) = total_len es"
proof (induction es)
  case (Cons e es)
  obtain a n where e: "e = (a, n)" by (cases e)
  have "{a..<a + n} \<inter> covered es = {}" using Cons.prems e by (fastforce simp: covered_def)
  then have "card (covered (e # es)) = card {a..<a + n} + card (covered es)"
    using Cons.prems finite_covered [of es] e by (simp add: card_Un_disjoint)
  then show ?case using Cons e by simp
qed simp

lemma covered_bounds: "\<forall>(b, m)\<in>set es. l \<le> b \<Longrightarrow> x \<in> covered es \<Longrightarrow> l \<le> x"
  by (force simp: covered_def)

text \<open>In an ascending list the position of a sector is that of the one range that has it.\<close>

lemma batch_pos_ascending:
  "ranges_ok es \<Longrightarrow> ascending es \<Longrightarrow> es = xs @ (a, n) # ys \<Longrightarrow> a \<le> x \<Longrightarrow> x < a + n \<Longrightarrow>
   batch_pos es off x = Some (off + total_len xs + (x - a))"
proof -
  assume h: "ranges_ok es" "ascending es" "es = xs @ (a, n) # ys" "a \<le> x" "x < a + n"
  have "x \<notin> covered ys" using h covered_bounds [of ys "a + n" x] by fastforce
  then have "batch_pos ys (off + total_len xs + n) x = None" by (simp add: batch_pos_covered)
  then show ?thesis using h by (simp add: batch_pos_append add.assoc)
qed

section \<open>The pieces that are still live\<close>

text \<open>The sectors that a request moves.\<close>

definition gc_moves :: "objmap \<Rightarrow> ckpt_mapentry list \<Rightarrow> int \<Rightarrow> bool" where
  "gc_moves om es x \<longleftrightarrow> (\<exists>e\<in>set es. me_lba e \<le> x \<and> x < me_lba e + me_len e
     \<and> (\<exists>q. obj_look om x = Some q \<and> obj q = me_obj e))"

lemma pieces_ascending:
  "extents_ok amax pok (map piece_ext vs) \<Longrightarrow> ascending (map (\<lambda>(b, l, p). (b, l - b)) vs)"
  by (induction vs) (fastforce simp: ascending_def)+

lemma filter_ascending: "ascending (map f xs) \<Longrightarrow> ascending (map f (filter P xs))"
  by (induction xs) (auto simp: ascending_def)

lemma map_split3: "map (\<lambda>(b, l, p). (b, l - b)) vs = map (\<lambda>v. (fst v, fst (snd v) - fst v)) vs"
  by (auto simp: case_prod_beta)

lemma entry_pieces:
  fixes ob :: int
  assumes ok: "objmap_ok om" and e: "0 \<le> lba" "0 < len" "lba + len \<le> obj_amax"
  defines "own \<equiv> filter (\<lambda>(b, l, p). obj p = ob) (range_vals lba2obj om lba (lba + len))"
  shows "ranges_ok (map (\<lambda>(b, l, p). (b, l - b)) own)" "ascending (map (\<lambda>(b, l, p). (b, l - b)) own)"
    "\<forall>(b, n)\<in>set (map (\<lambda>(b, l, p). (b, l - b)) own). lba \<le> b \<and> 0 < n \<and> b + n \<le> lba + len"
    "x \<in> covered (map (\<lambda>(b, l, p). (b, l - b)) own) \<longleftrightarrow>
       lba \<le> x \<and> x < lba + len \<and> (\<exists>q. obj_look om x = Some q \<and> obj q = ob)"
proof -
  let ?rv = "range_vals lba2obj om lba (lba + len)"
  have b: "0 \<le> lba" "lba < lba + len" "lba < obj_amax" using e by simp_all
  note R = om.range_vals_spec [OF ok b]
  have mem: "lba \<le> b \<and> b < l \<and> l \<le> lba + len" if "(b, l, p) \<in> set own" for b l p using R(3) that unfolding own_def by auto
  then show "ranges_ok (map (\<lambda>(b, l, p). (b, l - b)) own)"
    and "\<forall>(b, n)\<in>set (map (\<lambda>(b, l, p). (b, l - b)) own). lba \<le> b \<and> 0 < n \<and> b + n \<le> lba + len"
    using e by (fastforce simp: ranges_ok_def list_all_iff)+
  show "ascending (map (\<lambda>(b, l, p). (b, l - b)) own)" unfolding own_def by (rule filter_ascending [OF pieces_ascending [OF R(1)]])
  have get: "obj_look om x = Some (obj_offset_plus p (x - c))" if "(c, k, p) \<in> set ?rv" "c \<le> x" "x < k" for c k p
  proof -
    have pin: "piece_ext (c, k, p) \<in> set (map piece_ext ?rv)" using that(1) by force
    have "lba \<le> c" "k \<le> lba + len" using R(3) that(1) by auto
    then show ?thesis using seq_get_mem [OF R(1) pin, of x lba2obj] R(2) that(2,3) by (simp add: map_slice_def fun_eq_iff split: if_splits)
  qed
  have obp: "obj (obj_offset_plus p v) = obj p" for p v by (simp add: obj_offset_plus_def)
  show "x \<in> covered (map (\<lambda>(b, l, p). (b, l - b)) own) \<longleftrightarrow>
       lba \<le> x \<and> x < lba + len \<and> (\<exists>q. obj_look om x = Some q \<and> obj q = ob)"
  proof
    assume "x \<in> covered (map (\<lambda>(b, l, p). (b, l - b)) own)"
    then obtain c k p where p: "(c, k, p) \<in> set own" "c \<le> x" "x < k" by (auto simp: covered_def)
    then have "(c, k, p) \<in> set ?rv" "obj p = ob" by (auto simp: own_def)
    then show "lba \<le> x \<and> x < lba + len \<and> (\<exists>q. obj_look om x = Some q \<and> obj q = ob)"
      using get p mem [OF p(1)] obp by auto
  next
    assume h: "lba \<le> x \<and> x < lba + len \<and> (\<exists>q. obj_look om x = Some q \<and> obj q = ob)"
    then obtain q where q: "obj_look om x = Some q" "obj q = ob" by blast
    have "seq_get lba2obj (map piece_ext ?rv) x = Some q" using R(2) h q(1) by (simp add: map_slice_def)
    from seq_get_SomeD [OF this] obtain c k p where p: "(c, k, p) \<in> set ?rv" "c \<le> x" "x < k" "q = ptr_plus lba2obj p (x - c)" by auto
    then have "(c, k, p) \<in> set own" using q(2) obp by (simp add: own_def)
    then show "x \<in> covered (map (\<lambda>(b, l, p). (b, l - b)) own)" using p(2,3) by (force simp: covered_def)
  qed
qed

definition gc_entries_ok :: "ckpt_mapentry list \<Rightarrow> bool" where
  "gc_entries_ok es \<longleftrightarrow> ranges_ok (entry_ranges es) \<and> ascending (entry_ranges es)"

lemma gc_entries_ok_simps [simp]:
  "gc_entries_ok []"
  "gc_entries_ok (e # es) \<longleftrightarrow> 0 \<le> me_lba e \<and> 0 < me_len e \<and> me_lba e + me_len e \<le> obj_amax
     \<and> (\<forall>f\<in>set es. me_lba e + me_len e \<le> me_lba f) \<and> gc_entries_ok es"
  by (auto simp: gc_entries_ok_def)

lemma gc_pieces_ranges:
  assumes ok: "objmap_ok om" and es: "gc_entries_ok es" and g: "gc_pieces om es dat = (ps, ds)"
  shows "ranges_ok ps \<and> ascending ps \<and> (\<forall>x. x \<in> covered ps \<longleftrightarrow> gc_moves om es x)
    \<and> (\<forall>(b, n)\<in>set ps. \<exists>e\<in>set es. me_lba e \<le> b \<and> b + n \<le> me_lba e + me_len e)"
  using es g
proof (induction es arbitrary: dat ps ds)
  case (Cons e es)
  let ?own = "filter (\<lambda>(b, l, p). obj p = me_obj e) (range_vals lba2obj om (me_lba e) (me_lba e + me_len e))"
  let ?p1 = "map (\<lambda>(b, l, p). (b, l - b)) ?own"
  obtain ps' ds' where r: "gc_pieces om es (drop (nat (me_len e * 512)) dat) = (ps', ds')" by fastforce
  have ps: "ps = ?p1 @ ps'" using Cons.prems(2) r by (simp add: Let_def)
  have e: "0 \<le> me_lba e" "0 < me_len e" "me_lba e + me_len e \<le> obj_amax" "gc_entries_ok es" using Cons.prems(1) by simp_all
  note P = entry_pieces [OF ok e(1-3), where ob = "me_obj e"]
  note IH = Cons.IH [OF e(4) r]
  have "\<forall>(b, n)\<in>set ?p1. \<forall>(c, m)\<in>set ps'. b + n \<le> c" using P(3) IH Cons.prems(1) by fastforce
  then have a: "ranges_ok ps" "ascending ps" using P(1,2) IH unfolding ps by simp_all
  have "x \<in> covered ps \<longleftrightarrow> gc_moves om (e # es) x" for x
    unfolding ps covered_simps Un_iff P(4) using IH by (auto simp: gc_moves_def)
  moreover have "\<exists>f\<in>set (e # es). me_lba f \<le> b \<and> b + n \<le> me_lba f + me_len f" if "(b, n) \<in> set ps" for b n
    using that P(3) IH unfolding ps by fastforce
  ultimately show ?case using a by blast
qed (simp add: gc_moves_def)


section \<open>The bytes of the pieces\<close>

text \<open>\<open>dat\<close> holds the sectors of the ranges \<open>rs\<close> one after the other, with the bytes that \<open>c\<close> gives for them.\<close>

fun holds :: "(int \<times> int) list \<Rightarrow> byte list \<Rightarrow> (int \<Rightarrow> int \<Rightarrow> byte) \<Rightarrow> bool" where
  "holds [] dat c \<longleftrightarrow> dat = []"
| "holds ((b, n) # rs) dat c \<longleftrightarrow> 512 * n \<le> int (length dat)
     \<and> (\<forall>x j. b \<le> x \<and> x < b + n \<and> 0 \<le> j \<and> j < 512 \<longrightarrow> dat ! nat (512 * (x - b) + j) = c x j)
     \<and> holds rs (drop (nat (512 * n)) dat) c"

lemma holds_length: "ranges_ok rs \<Longrightarrow> holds rs dat c \<Longrightarrow> int (length dat) = 512 * total_len rs"
  by (induction rs dat c rule: holds.induct) auto

lemma holds_append:
  "ranges_ok rs \<Longrightarrow> holds rs dat c \<Longrightarrow> holds rs' dat' c \<Longrightarrow> holds (rs @ rs') (dat @ dat') c"
proof (induction rs dat c rule: holds.induct)
  case (2 b n rs dat c)
  have le: "nat (512 * n) \<le> length dat" using 2(3) by (simp add: nat_le_iff)
  then have d: "drop (nat (512 * n)) (dat @ dat') = drop (nat (512 * n)) dat @ dat'" by simp
  have "(dat @ dat') ! nat (512 * (x - b) + j) = dat ! nat (512 * (x - b) + j)" if "b \<le> x" "x < b + n" "0 \<le> j" "j < 512" for x j
  proof -
    have "512 * (x - b) + j < 512 * n" using that by simp
    then show ?thesis using 2(3) that by (simp add: nth_append nat_less_iff)
  qed
  then show ?case using 2 unfolding append_Cons holds.simps d by auto
qed simp

lemma holds_pos:
  assumes "ranges_ok rs" "ascending rs" "holds rs dat c" "batch_pos rs off x = Some (off + k)" "0 \<le> j" "j < 512"
  shows "dat ! nat (512 * k + j) = c x j"
  using assms
proof (induction rs dat c arbitrary: off k rule: holds.induct)
  case (2 b n rs dat c)
  show ?case
  proof (cases "batch_pos rs (off + n) x")
    case (Some i)
    then have i: "i = off + k" using 2(5) by simp
    have r: "off + n \<le> i" using batch_pos_range [OF _ Some] 2(2) by simp
    have "drop (nat (512 * n)) dat ! nat (512 * (k - n) + j) = c x j"
      by (rule 2(1) [of "off + n"]) (use 2(2-7) Some i in auto)
    moreover have "nat (512 * n) + nat (512 * (k - n) + j) = nat (512 * k + j)"
      using r i 2(2,6) by (simp add: nat_add_distrib [symmetric] algebra_simps)
    moreover have "nat (512 * n) \<le> length dat" using 2(4) by (simp add: nat_le_iff)
    ultimately show ?thesis by (metis nth_drop)
  next
    case None
    then have "b \<le> x" "x < b + n" "k = x - b" using 2(5) by (auto split: if_splits)
    then show ?thesis using 2(4,6,7) by simp
  qed
qed simp

lemma holds_slice:
  assumes dat: "512 * n \<le> int (length dat)" "\<forall>x j. b \<le> x \<and> x < b + n \<and> 0 \<le> j \<and> j < 512 \<longrightarrow> dat ! nat (512 * (x - b) + j) = c x j"
    and p: "b \<le> a" "a < l" "l \<le> b + n"
  shows "holds [(a, l - a)] (take (nat ((l - a) * 512)) (drop (nat ((a - b) * 512)) dat)) c"
proof -
  let ?d = "take (nat ((l - a) * 512)) (drop (nat ((a - b) * 512)) dat)"
  have "nat ((a - b) * 512) + nat ((l - a) * 512) = nat ((l - b) * 512)" using p by (simp add: nat_add_distrib [symmetric] algebra_simps)
  moreover have "(l - b) * 512 \<le> int (length dat)" using dat(1) p by simp
  ultimately have fit: "nat ((a - b) * 512) + nat ((l - a) * 512) \<le> length dat" by simp
  then have len: "length ?d = nat ((l - a) * 512)" by simp
  have "?d ! nat (512 * (x - a) + j) = c x j" if x: "a \<le> x" "x < l" "0 \<le> j" "j < 512" for x j
  proof -
    have i: "nat (512 * (x - a) + j) < nat ((l - a) * 512)" using x by (simp add: nat_less_iff)
    have e: "nat ((a - b) * 512) + nat (512 * (x - a) + j) = nat (512 * (x - b) + j)"
      using x p by (simp add: nat_add_distrib [symmetric] algebra_simps)
    have "?d ! nat (512 * (x - a) + j) = dat ! nat (512 * (x - b) + j)"
      unfolding nth_take [OF i] e [symmetric] using fit i by (intro nth_drop) linarith
    then show ?thesis using dat(2) x p by simp
  qed
  then show ?thesis using len p by (simp add: mult.commute)
qed

lemma holds_pieces:
  assumes dat: "512 * n \<le> int (length dat)" "\<forall>x j. b \<le> x \<and> x < b + n \<and> 0 \<le> j \<and> j < 512 \<longrightarrow> dat ! nat (512 * (x - b) + j) = c x j"
    and p: "\<forall>(a, l, p)\<in>set own. b \<le> a \<and> a < l \<and> l \<le> b + n" "ranges_ok (map (\<lambda>(a, l, p). (a, l - a)) own)"
  shows "holds (map (\<lambda>(a, l, p). (a, l - a)) own)
    (concat (map (\<lambda>(a, l, p). take (nat ((l - a) * 512)) (drop (nat ((a - b) * 512)) dat)) own)) c"
  using p
proof (induction own)
  case (Cons v own)
  obtain a l p where v: "v = (a, l, p)" by (cases v)
  have r: "ranges_ok [(a, l - a)]" using Cons.prems(2) v by simp
  have h: "holds [(a, l - a)] (take (nat ((l - a) * 512)) (drop (nat ((a - b) * 512)) dat)) c"
    by (rule holds_slice [OF dat]) (use Cons.prems(1) v in auto)
  have "holds (map (\<lambda>(a, l, p). (a, l - a)) own)
    (concat (map (\<lambda>(a, l, p). take (nat ((l - a) * 512)) (drop (nat ((a - b) * 512)) dat)) own)) c"
    by (rule Cons.IH) (use Cons.prems v in auto)
  from holds_append [OF r h this] show ?case by (simp add: v)
qed simp

lemma gc_pieces_holds:
  assumes ok: "objmap_ok om" and es: "gc_entries_ok es" and h: "holds (entry_ranges es) dat c" and g: "gc_pieces om es dat = (ps, ds)"
  shows "holds ps ds c"
  using es h g
proof (induction es arbitrary: dat ps ds)
  case (Cons e es)
  let ?own = "filter (\<lambda>(b, l, p). obj p = me_obj e) (range_vals lba2obj om (me_lba e) (me_lba e + me_len e))"
  have cm: "nat (me_len e * 512) = nat (512 * me_len e)" by (simp add: mult.commute)
  obtain ps' ds' where r: "gc_pieces om es (drop (nat (me_len e * 512)) dat) = (ps', ds')" by fastforce
  have ps: "ps = map (\<lambda>(b, l, p). (b, l - b)) ?own @ ps'"
    "ds = concat (map (\<lambda>(a, l, p). take (nat ((l - a) * 512)) (drop (nat ((a - me_lba e) * 512)) dat)) ?own) @ ds'"
    using Cons.prems(3) r by (simp_all add: Let_def)
  have e: "0 \<le> me_lba e" "0 < me_len e" "me_lba e + me_len e \<le> obj_amax" "gc_entries_ok es" using Cons.prems(1) by simp_all
  note P = entry_pieces [OF ok e(1-3), where ob = "me_obj e"]
  have H: "512 * me_len e \<le> int (length dat)" "\<forall>x j. me_lba e \<le> x \<and> x < me_lba e + me_len e \<and> 0 \<le> j \<and> j < 512 \<longrightarrow>
      dat ! nat (512 * (x - me_lba e) + j) = c x j" "holds (entry_ranges es) (drop (nat (me_len e * 512)) dat) c"
    using Cons.prems(2) cm by simp_all
  have "\<forall>(a, l, p)\<in>set ?own. me_lba e \<le> a \<and> a < l \<and> l \<le> me_lba e + me_len e" using P(3) by fastforce
  from holds_append [OF P(1) holds_pieces [OF H(1,2) this P(1)] Cons.IH [OF e(4) H(3) r]] show ?case by (simp add: ps)
qed simp


section \<open>\<^verbatim>\<open>write_gc\<close>\<close>

definition gc_fits :: "objmap \<Rightarrow> translate_req \<Rightarrow> bool" where
  "gc_fits om r \<longleftrightarrow> (let ps = fst (gc_pieces om (tr_entries r) (tr_gc_data r))
     in length ps < 2 ^ 20 \<and> data_hdr_sectors (length ps) + total_len ps < 2 ^ 23)"

text \<open>The size of an object in sectors, header included.\<close>

definition obj_size :: "(int, data_obj_info) rbt \<Rightarrow> int \<Rightarrow> int option" where
  "obj_size info ob = map_option (\<lambda>oi. oi_hdr oi + oi_data oi) (RBT.lookup info ob)"

lemma write_gc_run:
  assumes om: "objmap_ok (t_objmap st)" and live: "live_ok (t_object_info st) (t_objmap st)"
    and r: "gc_entries_ok (tr_entries r)" "holds (entry_ranges (tr_entries r)) (tr_gc_data r) c" "gc_fits (t_objmap st) r"
    and fresh: "fresh_seq seq (t_objmap st)" and uuid: "length (t_uuid st) = 16" and pf: "prefix st seq = Some pf"
  obtains ps ds om' info tot hdr r' where
    "gc_pieces (t_objmap st) (tr_entries r) (tr_gc_data r) = (ps, ds)"
    "write_gc zcrc seq r st = Some (st\<lparr>t_objmap := om', t_object_info := info, t_total_live_sectors := tot,
       t_gc_sectors_written := t_gc_sectors_written st + total_len ps,
       t_out := t_out st @ [Aio_write (oname pf seq) (hdr @ ds) r'], t_outstanding_writes := t_outstanding_writes st + 1\<rparr>)"
    "int (length hdr) = 512 * data_hdr_sectors (length ps)" "holds ps ds c" "ranges_ok ps" "ascending ps"
    "objmap_ok om'"
    "\<And>x. obj_look om' x = (case batch_pos ps (data_hdr_sectors (length ps)) x of Some i \<Rightarrow> Some (Obj_offset seq i)
        | None \<Rightarrow> obj_look (t_objmap st) x)"
    "live_ok info om'"
    "\<And>ob. obj_size info ob = (if ob = seq then Some (data_hdr_sectors (length ps) + total_len ps) else obj_size (t_object_info st) ob)"
    "\<And>x. batch_pos ps (data_hdr_sectors (length ps)) x \<noteq> None \<longleftrightarrow> gc_moves (t_objmap st) (tr_entries r) x"
proof -
  obtain ps ds where g: "gc_pieces (t_objmap st) (tr_entries r) (tr_gc_data r) = (ps, ds)" by fastforce
  let ?hs = "data_hdr_sectors (length ps)"
  have ps: "ranges_ok ps" "ascending ps" "\<And>x. x \<in> covered ps \<longleftrightarrow> gc_moves (t_objmap st) (tr_entries r) x"
    using gc_pieces_ranges [OF om r(1) g] by auto
  have h: "holds ps ds c" by (rule gc_pieces_holds [OF om r(1,2) g])
  have n: "int (length ds) div 512 = total_len ps" using holds_length [OF ps(1) h] by simp
  have sz: "length ps < 2 ^ 20" "?hs + total_len ps < 2 ^ 23" using r(3) g by (simp_all add: gc_fits_def)
  have hb: "72 + 8 * int (length ps) \<le> 512 * ?hs" "0 \<le> ?hs" using data_hdr_sectors_bounds [of "length ps"] sz by simp_all
  obtain om' D where me: "map_entries seq ?hs ps (t_objmap st) [] = (om', D)" by fastforce
  note d = deleted_nothing [OF om fresh ps(1) hb(2) sz(2) me]
  have lc0: "live_count (t_objmap st) seq = 0" by (rule fresh_live_count [OF fresh])
  have "disc_count D ob \<le> oi_live oi" if "RBT.lookup (t_object_info st) ob = Some oi" for ob oi
  proof (cases "ob = seq")
    case True
    have "live_count om' seq = total_len ps"
      using live_set_after [OF fresh d(4), of seq] ascending_card [OF ps(1,2)] by (simp add: live_count_def)
    then have "disc_count D seq = 0" using d(5) [of seq] lc0 by simp
    then show ?thesis using True that live lc0 by (simp add: live_ok_def)
  next
    case False
    have "0 \<le> live_count om' ob" by (simp add: live_count_def)
    then show ?thesis using d(5) [of ob] that live False by (simp add: live_ok_def)
  qed
  from drop_live_spec [OF d(3) this, of "t_object_info st" "t_total_live_sectors st"] obtain info tot where
    dl: "drop_live D (t_object_info st, t_total_live_sectors st) = Some (info, tot)"
      "\<And>ob. RBT.lookup info ob = map_option (\<lambda>oi. oi\<lparr>oi_live := oi_live oi - disc_count D ob\<rparr>) (RBT.lookup (t_object_info st) ob)"
    by auto
  let ?info = "RBT.insert seq \<lparr>oi_hdr = ?hs, oi_data = total_len ps, oi_live = total_len ps\<rparr> info"
  have "live_count om' seq = total_len ps"
    using live_set_after [OF fresh d(4), of seq] ascending_card [OF ps(1,2)] by (simp add: live_count_def)
  then have lv: "live_ok ?info om'" using dl(2) d(5) live by (auto simp: live_ok_def split: if_splits)
  let ?dm = "map (\<lambda>(lba, len). mk_data_map lba len) ps"
  obtain crcb where mk: "make_obj_hdr zcrc (t_uuid st) seq ?hs (total_len ps) ?dm True
      = Some (obj_hdr_bytes (t_uuid st) seq ?hs (total_len ps) ?dm True (zcrc crcb))"
    using make_obj_hdr_Some [OF uuid, of ?dm ?hs zcrc seq "total_len ps" True] hb(1) by auto
  let ?r = "r\<lparr>tr_seq := seq, tr_entries := map (\<lambda>(lba, len). mk_ckpt_mapentry lba len 0 0) ps\<rparr>"
  have len: "int (length (obj_hdr_bytes (t_uuid st) seq ?hs (total_len ps) ?dm True (zcrc crcb))) = 512 * ?hs"
    using length_obj_hdr_bytes [OF uuid, of ?dm ?hs] hb by simp
  have dm: "obj_size ?info ob = (if ob = seq then Some (?hs + total_len ps) else obj_size (t_object_info st) ob)" for ob
    using dl(2) by (cases "RBT.lookup (t_object_info st) ob") (simp_all add: obj_size_def)
  have wr: "write_gc zcrc seq r st = Some (st\<lparr>t_objmap := om', t_object_info := ?info, t_total_live_sectors := tot,
       t_gc_sectors_written := t_gc_sectors_written st + total_len ps,
       t_out := t_out st @ [Aio_write (oname pf seq) (obj_hdr_bytes (t_uuid st) seq ?hs (total_len ps) ?dm True (zcrc crcb) @ ds) ?r],
       t_outstanding_writes := t_outstanding_writes st + 1\<rparr>)"
    using g n me dl(1) mk pf by (simp add: write_gc_def Let_def)
  show thesis
    by (rule that [OF g wr len h ps(1,2) d(2,4) lv dm]) (use batch_pos_covered [of ps] ps(3) in auto)
qed

end
