(* ===== verification/Gc_Read.thy ===== *)
theory Gc_Read
  imports Gc_Write Pipeline
begin

text \<open>
  The requests that a cycle of the collector builds: they have all live extents of the chosen objects,
  in order, with the bytes of the objects.
\<close>

section \<open>The file\<close>

text \<open>The object store: what a read of an object from its start returns.\<close>

definition reads_store :: "reader \<Rightarrow> string \<Rightarrow> (int \<Rightarrow> byte list) \<Rightarrow> bool" where
  "reads_store rd name objs \<longleftrightarrow> (\<forall>n len. 0 \<le> len \<longrightarrow> snd (rd (oname name n) 0 len) = take (nat len) (objs n))"

text \<open>The file has sector \<open>i\<close> of object \<open>ob\<close> at the place that the file map says.\<close>

definition file_ok :: "(int \<Rightarrow> byte list) \<Rightarrow> (int \<times> int) list \<Rightarrow> (int \<rightharpoonup> int) \<Rightarrow> byte list \<Rightarrow> bool" where
  "file_ok objs done fm content \<longleftrightarrow> int (length content) mod 512 = 0
     \<and> (\<forall>(ob, n)\<in>set done. \<exists>k. fm ob = Some k \<and> 0 \<le> k \<and> (k + n) * 512 \<le> int (length content)
          \<and> (\<forall>i. 0 \<le> i \<longrightarrow> i < n * 512 \<longrightarrow> content ! nat (k * 512 + i) = objs ob ! nat i))"

lemma file_okD:
  assumes "file_ok objs dn fm content" "(ob, n) \<in> set dn"
  obtains k where "fm ob = Some k" "0 \<le> k" "(k + n) * 512 \<le> int (length content)"
    "\<forall>i. 0 \<le> i \<longrightarrow> i < n * 512 \<longrightarrow> content ! nat (k * 512 + i) = objs ob ! nat i"
proof -
  have "case (ob, n) of (ob, n) \<Rightarrow> \<exists>k. fm ob = Some k \<and> 0 \<le> k \<and> (k + n) * 512 \<le> int (length content)
          \<and> (\<forall>i. 0 \<le> i \<longrightarrow> i < n * 512 \<longrightarrow> content ! nat (k * 512 + i) = objs ob ! nat i)"
    using assms unfolding file_ok_def by (elim conjE) (rule bspec)
  then show thesis using that by (simp only: prod.case) (elim exE conjE)
qed

lemma file_ok_step:
  assumes f: "file_ok objs dn fm content" and ob: "ob \<notin> fst ` set dn" and n: "0 \<le> n" "int (length (objs ob)) = n * 512"
  shows "file_ok objs (dn @ [(ob, n)]) (fm(ob \<mapsto> int (length content) div 512)) (content @ objs ob)"
proof -
  have m: "int (length content) mod 512 = 0" using f by (simp add: file_ok_def)
  then have k: "int (length content) div 512 * 512 = int (length content)" by auto
  have new: "(content @ objs ob) ! nat (int (length content) div 512 * 512 + i) = objs ob ! nat i" if "0 \<le> i" "i < n * 512" for i
  proof -
    have "nat (int (length content) + i) = length content + nat i" using that(1) by (simp add: nat_add_distrib)
    then show ?thesis unfolding k by (simp only: nth_append_length_plus)
  qed
  have old: "\<exists>k. (fm(ob \<mapsto> int (length content) div 512)) o' = Some k \<and> 0 \<le> k \<and> (k + n') * 512 \<le> int (length (content @ objs ob))
      \<and> (\<forall>i. 0 \<le> i \<longrightarrow> i < n' * 512 \<longrightarrow> (content @ objs ob) ! nat (k * 512 + i) = objs o' ! nat i)" if m': "(o', n') \<in> set dn" for o' n'
  proof -
    obtain k where k: "fm o' = Some k" "0 \<le> k" "(k + n') * 512 \<le> int (length content)"
      "\<forall>i. 0 \<le> i \<longrightarrow> i < n' * 512 \<longrightarrow> content ! nat (k * 512 + i) = objs o' ! nat i"
      by (rule file_okD [OF f m'])
    have "o' \<noteq> ob" using m' ob by force
    moreover have "(content @ objs ob) ! nat (k * 512 + i) = content ! nat (k * 512 + i)" if "0 \<le> i" "i < n' * 512" for i
      using that k(2,3) by (simp add: nth_append nat_less_iff)
    ultimately show ?thesis using k by (intro exI [of _ k]) auto
  qed
  have "(int (length content) div 512 + n) * 512 \<le> int (length (content @ objs ob))" using k n by (simp add: algebra_simps)
  then have "\<exists>k. (fm(ob \<mapsto> int (length content) div 512)) ob = Some k \<and> 0 \<le> k \<and> (k + n) * 512 \<le> int (length (content @ objs ob))
      \<and> (\<forall>i. 0 \<le> i \<longrightarrow> i < n * 512 \<longrightarrow> (content @ objs ob) ! nat (k * 512 + i) = objs ob ! nat i)"
    using new by (intro exI [of _ "int (length content) div 512"]) simp
  moreover have "int (length (content @ objs ob)) mod 512 = 0" using m by (simp add: n(2))
  ultimately show ?thesis unfolding file_ok_def set_append using old by (simp only: ball_Un) auto
qed

lemma gc_read_objs_spec:
  assumes "reads_store rd (t_name st) objs" "t_clones st = []" "file_ok objs dn fm content"
    "\<forall>(ob, n)\<in>set os. 0 \<le> n \<and> int (length (objs ob)) = n * 512" "distinct (map fst (dn @ os))" "\<not> (\<exists>ob. full ob)"
  shows "\<exists>fm' content' m. gc_read_objs full rd os room fm content st = Some (fm', content', st\<lparr>t_gc_sectors_read := m\<rparr>)
    \<and> file_ok objs (dn @ os) fm' content'"
  using assms
proof (induction os arbitrary: dn fm content room st)
  case Nil
  have "st = st\<lparr>t_gc_sectors_read := t_gc_sectors_read st\<rparr>" by simp
  then have "gc_read_objs full rd [] room fm content st = Some (fm, content, st\<lparr>t_gc_sectors_read := t_gc_sectors_read st\<rparr>)" by simp
  then show ?case using Nil.prems(3) unfolding append_Nil2 by (intro exI conjI)
next
  case (Cons a os)
  obtain ob n where a: "a = (ob, n)" by (cases a)
  let ?st = "st\<lparr>t_gc_sectors_read := t_gc_sectors_read st + n\<rparr>"
  let ?room = "put_bytes room 0 (take (nat (n * 512)) (objs ob))"
  have n: "0 \<le> n" "int (length (objs ob)) = n * 512" using Cons.prems(4) a by auto
  have pf: "prefix st ob = Some (t_name st)" using Cons.prems(2) by (simp add: prefix_def)
  have rd: "snd (rd (oname (t_name st) ob) 0 (n * 512)) = take (nat (n * 512)) (objs ob)" using Cons.prems(1) n by (simp add: reads_store_def)
  have tk: "take (nat (n * 512)) ?room = objs ob" using n by (simp add: put_bytes_def)
  have f: "file_ok objs (dn @ [(ob, n)]) (fm(ob \<mapsto> int (length content) div 512)) (content @ objs ob)"
    by (rule file_ok_step [OF Cons.prems(3) _ n]) (use Cons.prems(5) a in force)
  have "gc_read_objs full rd (a # os) room fm content st =
      gc_read_objs full rd os ?room (fm(ob \<mapsto> int (length content) div 512)) (content @ objs ob) ?st"
    using pf rd tk Cons.prems(6) by (simp add: a Let_def)
  moreover have "\<exists>fm' content' m. gc_read_objs full rd os ?room (fm(ob \<mapsto> int (length content) div 512)) (content @ objs ob) ?st
      = Some (fm', content', ?st\<lparr>t_gc_sectors_read := m\<rparr>) \<and> file_ok objs ((dn @ [(ob, n)]) @ os) fm' content'"
    by (rule Cons.IH [OF _ _ f]) (use Cons.prems a in auto)
  ultimately show ?case by (auto simp: a)
qed

section \<open>Batches of extents\<close>

lemma gc_take_append: "gc_take m n xs = (b, r) \<Longrightarrow> xs = b @ r"
  by (induction m n xs arbitrary: b r rule: gc_take.induct) (auto split: if_splits prod.splits)

lemma gc_take_some: "0 < m \<Longrightarrow> gc_take m 0 (x # xs) = (b, r) \<Longrightarrow> b \<noteq> []"
  by (auto split: prod.splits)

text \<open>With room for a sector in an object the loop over the extents ends, with all extents in their order.\<close>

lemma gc_batches_spec:
  assumes "0 < m" "length xs \<le> fuel"
  shows "\<exists>bs. gc_batches fuel m xs = Some bs \<and> concat bs = xs \<and> [] \<notin> set bs"
  using assms
proof (induction fuel arbitrary: xs)
  case (Suc fuel)
  show ?case
  proof (cases xs)
    case (Cons x xs')
    obtain b r where t: "gc_take m 0 (x # xs') = (b, r)" by fastforce
    note app = gc_take_append [OF t] and ne = gc_take_some [OF Suc.prems(1) t]
    have "length b + length r = Suc (length xs')" using arg_cong [OF app, of length] by simp
    then have "length r \<le> fuel" using ne Cons Suc.prems(2) by (cases b) auto
    from Suc.IH [OF Suc.prems(1) this] obtain bs where "gc_batches fuel m r = Some bs" "concat bs = r" "[] \<notin> set bs" by blast
    moreover have "gc_batches (Suc fuel) m xs = map_option ((#) b) (gc_batches fuel m r)"
      using t unfolding Cons gc_batches.simps by (simp add: Let_def)
    ultimately show ?thesis using app ne Cons by (intro exI [of _ "b # bs"]) auto
  qed simp
qed simp

section \<open>Loading the data\<close>

text \<open>An extent whose object is in the file, with values that fit the fields of a map entry.\<close>

definition ext_fits :: "(int \<times> int) list \<Rightarrow> gc_extent \<Rightarrow> bool" where
  "ext_fits objs x \<longleftrightarrow> 0 \<le> x_base x \<and> x_base x < x_limit x \<and> x_limit x \<le> 2 ^ 35 \<and> x_limit x - x_base x < 2 ^ 27
     \<and> 0 \<le> obj (x_ptr x) \<and> obj (x_ptr x) < 2 ^ 31 \<and> 0 \<le> offset (x_ptr x) \<and> offset (x_ptr x) < 2 ^ 31
     \<and> (\<exists>n. (obj (x_ptr x), n) \<in> set objs \<and> offset (x_ptr x) + (x_limit x - x_base x) \<le> n)"

definition ext_entry :: "gc_extent \<Rightarrow> ckpt_mapentry" where
  "ext_entry x = \<lparr>me_lba = x_base x, me_len = x_limit x - x_base x, me_obj = obj (x_ptr x), me_offset = offset (x_ptr x)\<rparr>"

text \<open>The bytes of the sectors of a list of entries, in the objects they were read from.\<close>

fun ent_byte :: "(int \<Rightarrow> byte list) \<Rightarrow> ckpt_mapentry list \<Rightarrow> int \<Rightarrow> int \<Rightarrow> byte" where
  "ent_byte objs [] x j = 0"
| "ent_byte objs (e # es) x j =
     (if me_lba e \<le> x \<and> x < me_lba e + me_len e then obj_byte objs (me_obj e) ((me_offset e + (x - me_lba e)) * 512 + j)
      else ent_byte objs es x j)"

lemma ext_entry_mk:
  assumes "ext_fits objs x"
  shows "mk_ckpt_mapentry (x_base x) (x_limit x - x_base x) (sbf 32 (obj (x_ptr x))) (sbf 32 (offset (x_ptr x))) = ext_entry x"
  using assms by (auto simp: ext_fits_def mk_ckpt_mapentry_def ext_entry_def sbf_id)

lemma holds_cong:
  "holds rs dat c \<Longrightarrow> (\<And>x j. x \<in> covered rs \<Longrightarrow> 0 \<le> j \<Longrightarrow> j < 512 \<Longrightarrow> c x j = c' x j) \<Longrightarrow> holds rs dat c'"
  by (induction rs dat c rule: holds.induct) auto

lemma gc_load_spec:
  assumes f: "file_ok objs os fm content" and xs: "\<forall>x\<in>set xs. ext_fits os x"
    and ok: "gc_entries_ok (map ext_entry xs)"
  shows "\<exists>ds. gc_load fm content xs = Some (map ext_entry xs, ds)
    \<and> holds (entry_ranges (map ext_entry xs)) ds (ent_byte objs (map ext_entry xs))"
  using xs ok
proof (induction xs)
  case (Cons x xs)
  let ?e = "ext_entry x" and ?es = "map ext_entry xs"
  obtain ds where ds: "gc_load fm content xs = Some (?es, ds)" "holds (entry_ranges ?es) ds (ent_byte objs ?es)"
    using Cons by auto
  have fx: "ext_fits os x" using Cons.prems(1) by simp
  then obtain n where n: "(obj (x_ptr x), n) \<in> set os" "offset (x_ptr x) + (x_limit x - x_base x) \<le> n" by (auto simp: ext_fits_def)
  obtain k where k: "fm (obj (x_ptr x)) = Some k" "0 \<le> k" "(k + n) * 512 \<le> int (length content)"
    "\<forall>i. 0 \<le> i \<longrightarrow> i < n * 512 \<longrightarrow> content ! nat (k * 512 + i) = objs (obj (x_ptr x)) ! nat i"
    by (rule file_okD [OF f n(1)])
  let ?fs = "k + offset (x_ptr x)" and ?n = "x_limit x - x_base x"
  let ?bs = "take (nat (?n * 512)) (drop (nat (?fs * 512)) content)"
  have pos: "0 < ?n" "0 \<le> ?fs" "0 \<le> offset (x_ptr x)" using fx k(2) by (auto simp: ext_fits_def)
  have fend: "(?fs + ?n) * 512 \<le> int (length content)" using n(2) k(3) by (simp add: algebra_simps)
  then have le: "?fs + ?n \<le> int (length content) div 512" using zdiv_mono1 [OF fend, of 512] by simp
  have fit: "nat (?fs * 512) + nat (?n * 512) \<le> length content" using fend pos by (simp add: nat_add_distrib [symmetric] nat_le_iff algebra_simps)
  then have len: "length ?bs = nat (?n * 512)" by simp
  have byte: "?bs ! nat (512 * (y - x_base x) + j) = obj_byte objs (obj (x_ptr x)) ((offset (x_ptr x) + (y - x_base x)) * 512 + j)"
    if y: "x_base x \<le> y" "y < x_limit x" "0 \<le> j" "j < 512" for y j
  proof -
    have i: "nat (512 * (y - x_base x) + j) < nat (?n * 512)" using y by (simp add: nat_less_iff)
    have e: "nat (?fs * 512) + nat (512 * (y - x_base x) + j) = nat (k * 512 + ((offset (x_ptr x) + (y - x_base x)) * 512 + j))"
      using y pos by (simp add: nat_add_distrib [symmetric] algebra_simps)
    have "?bs ! nat (512 * (y - x_base x) + j) = content ! nat (k * 512 + ((offset (x_ptr x) + (y - x_base x)) * 512 + j))"
      unfolding nth_take [OF i] e [symmetric] using fit i by (intro nth_drop) linarith
    moreover have "(offset (x_ptr x) + (y - x_base x)) * 512 + j < n * 512" using y n(2) by (simp add: algebra_simps)
    ultimately show ?thesis using k(4) y pos(3) by (simp add: obj_byte_def)
  qed
  have h: "holds [(x_base x, ?n)] ?bs (ent_byte objs (?e # ?es))" using byte len pos(1) by (auto simp: ext_entry_def mult.commute)
  have "ent_byte objs ?es y j = ent_byte objs (?e # ?es) y j" if y: "y \<in> covered (entry_ranges ?es)" for y j
  proof -
    have "me_lba ?e + me_len ?e \<le> y" using Cons.prems(2) covered_bounds [OF _ y, of "me_lba ?e + me_len ?e"] by auto
    then show ?thesis by simp
  qed
  note h' = holds_cong [OF ds(2) this]
  have e: "entry_ranges (?e # ?es) = [(x_base x, ?n)] @ entry_ranges ?es" by (simp add: ext_entry_def)
  have "holds (entry_ranges (?e # ?es)) (?bs @ ds) (ent_byte objs (?e # ?es))"
    unfolding e by (rule holds_append [OF _ h h']) (use Cons.prems(2) in \<open>simp add: ext_entry_def\<close>)
  moreover have "gc_load fm content (x # xs) = Some (?e # ?es, ?bs @ ds)"
    using k(1) le len pos(1) ds(1) ext_entry_mk [OF fx] unfolding gc_load.simps(2) Let_def by (simp del: length_take)
  ultimately show ?case unfolding list.map by blast
qed simp


section \<open>The live extents\<close>

lemma extents_ok_filter: "extents_ok amax pok es \<Longrightarrow> extents_ok amax pok (filter P es)"
  by (induction es) auto

lemma seq_get_filter:
  assumes "extents_ok amax pok es" "\<And>e x q. e \<in> set es \<Longrightarrow> ext_get T e x = Some q \<Longrightarrow> Q q = P e"
  shows "seq_get T (filter P es) x = (case seq_get T es x of None \<Rightarrow> None | Some q \<Rightarrow> if Q q then Some q else None)"
  using assms
proof (induction es)
  case (Cons e es)
  note IH = Cons.IH [OF _ Cons.prems(2)]
  show ?case
  proof (cases "ext_get T e x")
    case None
    then show ?thesis using IH Cons.prems(1) by (auto simp: ext_get_def)
  next
    case (Some q)
    have "seq_get T es x = None"
      by (rule seq_get_None) (use Some extents_ok_next [OF Cons.prems(1)] in \<open>force simp: ext_get_def split: if_splits\<close>)
    moreover have "seq_get T (filter P es) x = None" using IH Cons.prems(1) calculation by auto
    ultimately show ?thesis using Some Cons.prems(2) [of e x q] by (auto simp: ext_get_def split: if_splits)
  qed
qed simp

lemma foldl_cond: "foldl (\<lambda>m e. if P e then f m e else m) m0 es = foldl f m0 (filter P es)"
  by (induction es arbitrary: m0) simp_all

lemma gc_live_extents_spec:
  assumes ok: "objmap_ok om"
  shows "objmap_ok (gc_live_extents max_obj objs om)"
    "obj_look (gc_live_extents max_obj objs om) x =
       (case obj_look om x of None \<Rightarrow> None | Some q \<Rightarrow> if obj q \<le> max_obj \<and> obj q \<in> fst ` set objs then Some q else None)"
proof -
  let ?P = "\<lambda>e. obj (s_ptr e) \<le> max_obj \<and> obj (s_ptr e) \<in> fst ` set objs"
  let ?us = "map (\<lambda>e. (s_base e, limit e, s_ptr e)) (filter ?P (flat om))"
  have es: "extents_ok obj_amax obj_pok (flat om)" using ok by (simp add: map_ok_def)
  note es' = extents_ok_filter [OF es, of ?P]
  have lv: "gc_live_extents max_obj objs om = foldl (\<lambda>m (b, l, p). update lba2obj m b l p) extmap_empty ?us"
    unfolding gc_live_extents_def all_extents_flat [OF ok] foldl_map foldl_cond [symmetric]
    by (rule foldl_cong) (auto simp: vals_def limit_def Let_def)
  have us: "\<forall>(b, l, p)\<in>set ?us. 0 \<le> b \<and> b < l \<and> l \<le> obj_amax \<and> obj_pok p (l - b)"
    using extents_ok_mem [OF es'] by (auto simp: ext_ok_def limit_def)
  note r = os.upds_look [OF map_ok_empty us]
  show "objmap_ok (gc_live_extents max_obj objs om)" unfolding lv by (rule r(1))
  have "obj_look (gc_live_extents max_obj objs om) x = seq_get lba2obj (filter ?P (flat om)) x"
    unfolding lv using r(2) [of x] foldl_seq_get [OF es', of x lba2obj, unfolded ptr_plus_sel] by (simp add: lookup_fun_empty)
  also have "\<dots> = (case seq_get lba2obj (flat om) x of None \<Rightarrow> None | Some q \<Rightarrow> if obj q \<le> max_obj \<and> obj q \<in> fst ` set objs then Some q else None)"
    by (rule seq_get_filter [OF es]) (drule obj_of_ext_get, simp)
  finally show "obj_look (gc_live_extents max_obj objs om) x =
       (case obj_look om x of None \<Rightarrow> None | Some q \<Rightarrow> if obj q \<le> max_obj \<and> obj q \<in> fst ` set objs then Some q else None)"
    by (simp add: lookup_fun_def)
qed

text \<open>The map fits the objects that are in the file.\<close>

definition live_fits :: "(int \<times> int) list \<Rightarrow> objmap \<Rightarrow> bool" where
  "live_fits objs live \<longleftrightarrow> objmap_ok live \<and> distinct (map fst objs) \<and>
     (\<forall>x q. obj_look live x = Some q \<longrightarrow> x < 2 ^ 35 \<and> 0 \<le> obj q \<and> obj q < 2 ^ 31 \<and> (\<exists>n. (obj q, n) \<in> set objs \<and> offset q < n))"

lemma gc_extents_spec:
  assumes "live_fits objs live"
  shows "gc_entries_ok (map ext_entry (gc_extents live))" "\<forall>x\<in>set (gc_extents live). ext_fits objs x"
    "(\<exists>e\<in>set (map ext_entry (gc_extents live)). me_lba e \<le> x \<and> x < me_lba e + me_len e \<and> me_obj e = ob \<and> me_offset e + (x - me_lba e) = off)
      \<longleftrightarrow> obj_look live x = Some (Obj_offset ob off)"
proof -
  have ok: "objmap_ok live" using assms by (simp add: live_fits_def)
  have es: "extents_ok obj_amax obj_pok (flat live)" using ok by (simp add: map_ok_def)
  have xs: "gc_extents live = map (\<lambda>e. \<lparr>x_base = s_base e, x_limit = limit e, x_ptr = s_ptr e\<rparr>) (flat live)"
    by (simp add: gc_extents_def all_extents_flat [OF ok] vals_def limit_def)
  have ent: "map ext_entry (gc_extents live) =
      map (\<lambda>e. \<lparr>me_lba = s_base e, me_len = s_len e, me_obj = obj (s_ptr e), me_offset = offset (s_ptr e)\<rparr>) (flat live)"
    by (simp add: xs ext_entry_def limit_def)
  have "gc_entries_ok (map (\<lambda>e. \<lparr>me_lba = s_base e, me_len = s_len e, me_obj = obj (s_ptr e), me_offset = offset (s_ptr e)\<rparr>) es)"
    if "extents_ok obj_amax obj_pok es" for es using that by (induction es) (auto simp: ext_ok_def limit_def)
  then show "gc_entries_ok (map ext_entry (gc_extents live))" unfolding ent using es by blast
  have get: "obj_look live y = Some (Obj_offset (obj (s_ptr e)) (offset (s_ptr e) + (y - s_base e)))"
    if e: "e \<in> set (flat live)" "s_base e \<le> y" "y < limit e" for e y
  proof -
    have "obj_pok (s_ptr e) (s_len e)" using extents_ok_mem [OF es e(1)] by (simp add: ext_ok_def)
    then show ?thesis using seq_get_mem [OF es e, of lba2obj] e(2,3)
      by (simp add: lookup_fun_def obj_pok_def limit_def obj_offset_plus_in)
  qed
  show "\<forall>x\<in>set (gc_extents live). ext_fits objs x"
  proof
    fix x assume "x \<in> set (gc_extents live)"
    then obtain e where e: "e \<in> set (flat live)" "x = \<lparr>x_base = s_base e, x_limit = limit e, x_ptr = s_ptr e\<rparr>" unfolding xs by auto
    have ek: "0 \<le> s_base e" "0 < s_len e" "obj_pok (s_ptr e) (s_len e)" using extents_ok_mem [OF es e(1)] by (simp_all add: ext_ok_def)
    have l: "limit e = s_base e + s_len e" by (simp add: limit_def)
    have "obj_look live (limit e - 1) = Some (Obj_offset (obj (s_ptr e)) (offset (s_ptr e) + (limit e - 1 - s_base e)))"
      by (rule get [OF e(1)]) (use ek l in auto)
    with assms have "limit e - 1 < 2 ^ 35" "0 \<le> obj (s_ptr e)" "obj (s_ptr e) < 2 ^ 31"
      "\<exists>n. (obj (s_ptr e), n) \<in> set objs \<and> offset (s_ptr e) + (limit e - 1 - s_base e) < n"
      unfolding live_fits_def by fastforce+
    then show "ext_fits objs x" using ek l by (auto simp: ext_fits_def e(2) obj_pok_def)
  qed
  show "(\<exists>e\<in>set (map ext_entry (gc_extents live)). me_lba e \<le> x \<and> x < me_lba e + me_len e \<and> me_obj e = ob \<and> me_offset e + (x - me_lba e) = off)
      \<longleftrightarrow> obj_look live x = Some (Obj_offset ob off)"
  proof
    assume "\<exists>e\<in>set (map ext_entry (gc_extents live)). me_lba e \<le> x \<and> x < me_lba e + me_len e \<and> me_obj e = ob \<and> me_offset e + (x - me_lba e) = off"
    then obtain e where "e \<in> set (flat live)" "s_base e \<le> x" "x < limit e" "obj (s_ptr e) = ob" "offset (s_ptr e) + (x - s_base e) = off"
      unfolding ent by (auto simp: limit_def)
    then show "obj_look live x = Some (Obj_offset ob off)" using get by auto
  next
    assume l: "obj_look live x = Some (Obj_offset ob off)"
    then obtain e where e: "e \<in> set (flat live)" "s_base e \<le> x" "x < limit e" unfolding lookup_fun_def using seq_get_SomeD by metis
    then have "obj (s_ptr e) = ob" "offset (s_ptr e) + (x - s_base e) = off" using get [OF e] l by simp_all
    then show "\<exists>e\<in>set (map ext_entry (gc_extents live)). me_lba e \<le> x \<and> x < me_lba e + me_len e \<and> me_obj e = ob \<and> me_offset e + (x - me_lba e) = off"
      unfolding ent using e by (auto simp: limit_def)
  qed
qed

section \<open>All requests of a cycle\<close>

definition req_data_ok :: "(int \<Rightarrow> byte list) \<Rightarrow> translate_req \<Rightarrow> bool" where
  "req_data_ok objs r \<longleftrightarrow> tr_op r = REQ_GC \<and> holds (entry_ranges (tr_entries r)) (tr_gc_data r) (ent_byte objs (tr_entries r))"

lemma gc_entries_ok_append [simp]:
  "gc_entries_ok (xs @ ys) \<longleftrightarrow> gc_entries_ok xs \<and> gc_entries_ok ys \<and> (\<forall>e\<in>set xs. \<forall>f\<in>set ys. me_lba e + me_len e \<le> me_lba f)"
  by (auto simp: gc_entries_ok_def)

lemma gc_request_list:
  assumes f: "file_ok contents objs fm content" and xs: "\<forall>x\<in>set (concat bs). ext_fits objs x"
    and ok: "gc_entries_ok (map ext_entry (concat bs))"
  shows "\<exists>rs. map (gc_request fm content) bs = map Some rs \<and> concat (map tr_entries rs) = map ext_entry (concat bs)
    \<and> (\<forall>r\<in>set rs. req_data_ok contents r)"
  using xs ok
proof (induction bs)
  case (Cons b bs)
  obtain rs where rs: "map (gc_request fm content) bs = map Some rs" "concat (map tr_entries rs) = map ext_entry (concat bs)"
    "\<forall>r\<in>set rs. req_data_ok contents r" using Cons by auto
  obtain ds where ds: "gc_load fm content b = Some (map ext_entry b, ds)" "holds (entry_ranges (map ext_entry b)) ds (ent_byte contents (map ext_entry b))"
    using gc_load_spec [OF f, of b] Cons.prems by auto
  let ?r = "(new_req REQ_GC)\<lparr>tr_entries := map ext_entry b, tr_gc_data := ds\<rparr>"
  have "gc_request fm content b = Some ?r" using ds(1) by (simp add: gc_request_def)
  moreover have "req_data_ok contents ?r" using ds(2) by (simp add: req_data_ok_def new_req_def)
  ultimately show ?case using rs by (intro exI [of _ "?r # rs"]) auto
qed simp

lemma gc_requests_spec:
  assumes rd: "reads_store rd (t_name st) contents" "t_clones st = []" "\<not> (\<exists>ob. full ob)"
    and live: "live_fits objs live" and sz: "\<forall>(ob, n)\<in>set objs. 0 \<le> n \<and> int (length (contents ob)) = n * 512"
    and cfg: "512 \<le> backend_obj_bytes (t_cfg st)"
  obtains rs m where "gc_requests full rd room objs live st = Some (rs, st\<lparr>t_gc_sectors_read := m\<rparr>)"
    "concat (map tr_entries rs) = map ext_entry (gc_extents live)" "\<forall>r\<in>set rs. req_data_ok contents r"
proof -
  have d: "distinct (map fst ([] @ objs))" using live by (simp add: live_fits_def)
  have f0: "file_ok contents [] (\<lambda>_. None) []" by (simp add: file_ok_def)
  obtain fm content m where f: "gc_read_objs full rd objs room (\<lambda>_. None) [] st = Some (fm, content, st\<lparr>t_gc_sectors_read := m\<rparr>)"
    "file_ok contents objs fm content" using gc_read_objs_spec [OF rd(1,2) f0 sz d rd(3), of room] by auto
  have "0 < backend_obj_bytes (t_cfg st) div 512" using cfg by linarith
  from gc_batches_spec [OF this order_refl] obtain bs where
    bs: "gc_batches (length (gc_extents live)) (backend_obj_bytes (t_cfg st) div 512) (gc_extents live) = Some bs" "concat bs = gc_extents live"
    by blast
  note E = gc_extents_spec [OF live]
  obtain rs where rs: "map (gc_request fm content) bs = map Some rs" "concat (map tr_entries rs) = map ext_entry (gc_extents live)"
    "\<forall>r\<in>set rs. req_data_ok contents r"
    using gc_request_list [OF f(2), of bs] E(1,2) bs(2) by auto
  have "gc_requests full rd room objs live st = Some (map the (map Some rs), st\<lparr>t_gc_sectors_read := m\<rparr>)"
    unfolding gc_requests_def f(1) option.case prod.case Let_def bs(1) rs(1) by auto
  then have "gc_requests full rd room objs live st = Some (rs, st\<lparr>t_gc_sectors_read := m\<rparr>)" by (simp add: comp_def)
  then show thesis using rs(2,3) by (rule that)
qed

end
