(* ===== verification/Gc_Safe.thy ===== *)
theory Gc_Safe
  imports Gc_Read Pipeline_Work
begin

text \<open>
  The garbage collector running beside the worker and the clients, as a transition system. Its invariant
  says what the thread may rely on at each of its waiting points although the maps change under it: the
  objects it chose are still the only place of the sectors it is about to copy, and by the time it
  removes them nothing is mapped to them.
\<close>

section \<open>The system\<close>

text \<open>
  The state of the layer, where the collector is, the number of its requests that were queued, written
  and completed, the content of every object as it was handed to the store, and the map that the last
  checkpoint describes.
\<close>

record gsys =
  g_pc :: gc_pc
  g_st :: tstate
  g_sent :: nat
  g_wrote :: nat
  g_done :: nat
  g_objs :: "int \<Rightarrow> byte list"
  g_ckpt :: "int \<Rightarrow> obj_offset option"

abbreviation is_gc :: "translate_req \<Rightarrow> bool" where
  "is_gc r \<equiv> tr_op r = REQ_GC"

definition put_ok :: "translate_req \<Rightarrow> bool" where
  "put_ok r \<longleftrightarrow> tr_op r = REQ_PUT \<and> batch_ok r \<and> (\<forall>(b, n)\<in>set (entry_ranges (tr_entries r)). b + n \<le> 2 ^ 35)"

text \<open>The bytes of the volume that the object map and the store give.\<close>

definition stored :: "gsys \<Rightarrow> int \<Rightarrow> int \<Rightarrow> byte option" where
  "stored s x j = map_option (\<lambda>q. g_objs s (obj q) ! nat (512 * offset q + j)) (obj_look (t_objmap (g_st s)) x)"

datatype gevent =
    G_internal
  | G_put "(int \<times> int) list" "byte list"
  | G_trim int int

fun vol_event :: "gevent \<Rightarrow> (int \<Rightarrow> int \<Rightarrow> byte option) \<Rightarrow> int \<Rightarrow> int \<Rightarrow> byte option" where
  "vol_event G_internal v x j = v x j"
| "vol_event (G_put rs dat) v x j = (case batch_pos rs 0 x of Some k \<Rightarrow> Some (dat ! nat (512 * k + j)) | None \<Rightarrow> v x j)"
| "vol_event (G_trim a b) v x j = (if a \<le> x \<and> x < b then None else v x j)"

text \<open>
  A step of the collector reads the store as it is. The worker handles the request at the head of the
  queue; the object of a batch or of the collector gets the bytes of the upload that the worker starts.
  Completions come in any order. Clients change the current batch, the buffer map, the memory and the
  read pins, and queue batches and flushes.
\<close>

inductive gstep :: "(byte list \<Rightarrow> int) \<Rightarrow> gsys \<Rightarrow> gevent \<Rightarrow> gsys \<Rightarrow> bool" for zcrc where
  gs_gc: "gc_step (\<lambda>_. False) rd mem0 (g_pc s, g_st s, g_sent s, g_done s) (pc', st', n', d') \<Longrightarrow>
    reads_store rd (t_name (g_st s)) (g_objs s) \<Longrightarrow>
    gstep zcrc s G_internal (s\<lparr>g_pc := pc', g_st := st', g_sent := n', g_done := d'\<rparr>)"
| gs_put: "t_queue (g_st s) = r # q \<Longrightarrow> tr_op r = REQ_PUT \<Longrightarrow> t_cur_seq (g_st s) + 1 < 2 ^ 31 \<Longrightarrow>
    worker_step zcrc (g_st s) = Some st' \<Longrightarrow>
    t_out st' = t_out (g_st s) @ [Rcache_insert pf n bs', Aio_write nm bs r'] \<Longrightarrow>
    gstep zcrc s (G_put (entry_ranges (tr_entries r)) (load_bytes (t_mem (g_st s)) (tr_data_ptr r) (tr_len r)))
      (s\<lparr>g_st := st', g_objs := (g_objs s)(t_cur_seq (g_st s) := bs)\<rparr>)"
| gs_gcput: "t_queue (g_st s) = r # q \<Longrightarrow> is_gc r \<Longrightarrow> t_cur_seq (g_st s) + 1 < 2 ^ 31 \<Longrightarrow>
    gc_fits (t_objmap (g_st s)) r \<Longrightarrow> worker_step zcrc (g_st s) = Some st' \<Longrightarrow>
    t_out st' = t_out (g_st s) @ [Aio_write nm bs r'] \<Longrightarrow>
    gstep zcrc s G_internal
      (s\<lparr>g_st := st', g_wrote := Suc (g_wrote s), g_objs := (g_objs s)(t_cur_seq (g_st s) := bs)\<rparr>)"
| gs_flush: "t_queue (g_st s) = r # q \<Longrightarrow> tr_op r = REQ_FLUSH \<Longrightarrow> worker_step zcrc (g_st s) = Some st' \<Longrightarrow>
    gstep zcrc s G_internal (s\<lparr>g_st := st'\<rparr>)"
| gs_ckpt: "t_queue (g_st s) = r # q \<Longrightarrow> tr_op r = REQ_CKPT \<Longrightarrow> t_cur_seq (g_st s) + 1 < 2 ^ 31 \<Longrightarrow>
    worker_step zcrc (g_st s) = Some st' \<Longrightarrow>
    gstep zcrc s G_internal (s\<lparr>g_st := st', g_ckpt := obj_look (t_objmap (g_st s))\<rparr>)"
| gs_gc_done: "g_done s < g_wrote s \<Longrightarrow> is_gc r \<Longrightarrow>
    gstep zcrc s G_internal (s\<lparr>g_st := notify u r (g_st s), g_done := Suc (g_done s)\<rparr>)"
| gs_put_done: "tr_op r = REQ_PUT \<Longrightarrow> gstep zcrc s G_internal (s\<lparr>g_st := notify u r (g_st s)\<rparr>)"
| gs_trim: "0 \<le> off \<Longrightarrow> off div 512 < (off + len) div 512 \<Longrightarrow> (off + len) div 512 \<le> obj_amax \<Longrightarrow>
    trim_xl u (g_st s) off len = Some st' \<Longrightarrow>
    gstep zcrc s (G_trim (off div 512) ((off + len) div 512)) (s\<lparr>g_st := st'\<rparr>)"
| gs_client: "put_ok c \<Longrightarrow> \<forall>r\<in>set rs. tr_op r = REQ_FLUSH \<or> put_ok r \<Longrightarrow>
    gstep zcrc s G_internal (s\<lparr>g_st := (g_st s)\<lparr>t_current := c, t_bufmap := bm, t_mem := mem,
      t_queue := t_queue (g_st s) @ rs, t_obj_read_refcount := pins\<rparr>\<rparr>)"

inductive gsteps :: "(byte list \<Rightarrow> int) \<Rightarrow> gsys \<Rightarrow> gevent list \<Rightarrow> gsys \<Rightarrow> bool" for zcrc where
  gsteps_refl: "gsteps zcrc s [] s"
| gsteps_step: "gstep zcrc s e s' \<Longrightarrow> gsteps zcrc s' es s'' \<Longrightarrow> gsteps zcrc s (e # es) s''"

section \<open>The invariant\<close>

definition g_base :: "tstate \<Rightarrow> (int \<Rightarrow> byte list) \<Rightarrow> bool" where
  "g_base st objs \<longleftrightarrow> objmap_ok (t_objmap st) \<and> live_ok (t_object_info st) (t_objmap st) \<and> length (t_uuid st) = 16
     \<and> t_clones st = [] \<and> 0 \<le> t_cur_seq st \<and> t_cur_seq st < 2 ^ 31 \<and> 512 \<le> backend_obj_bytes (t_cfg st)
     \<and> (\<forall>x q. obj_look (t_objmap st) x = Some q \<longrightarrow>
          x < 2 ^ 35 \<and> 0 \<le> obj q \<and> obj q < t_cur_seq st \<and> 512 * (offset q + 1) \<le> int (length (objs (obj q))))
     \<and> (\<forall>ob n. obj_size (t_object_info st) ob = Some n \<longrightarrow> 0 \<le> ob \<and> ob < t_cur_seq st \<and> 0 \<le> n \<and> int (length (objs ob)) = n * 512)
     \<and> t_checkpoints st \<noteq> []
     \<and> (\<forall>c\<in>set (t_checkpoints st). 0 \<le> c \<and> c < t_cur_seq st \<and> (\<forall>x q. obj_look (t_objmap st) x = Some q \<longrightarrow> obj q \<noteq> c))
     \<and> put_ok (t_current st) \<and> (\<forall>r\<in>set (t_queue st). tr_op r = REQ_PUT \<longrightarrow> put_ok r)"

text \<open>The requests of the collector that have not been written: in the queue and still to be sent.\<close>

fun pending :: "gc_pc \<Rightarrow> translate_req list" where
  "pending (Gc_send S rs) = rs"
| "pending pc = []"

definition gc_alive :: "gsys \<Rightarrow> translate_req list" where
  "gc_alive s = filter is_gc (t_queue (g_st s)) @ pending (g_pc s)"

definition reqs_ok :: "tstate \<Rightarrow> (int \<Rightarrow> byte list) \<Rightarrow> translate_req list \<Rightarrow> bool" where
  "reqs_ok st objs rs \<longleftrightarrow> (\<forall>r\<in>set rs. req_data_ok objs r) \<and> gc_entries_ok (concat (map tr_entries rs))
     \<and> (\<forall>e\<in>set (concat (map tr_entries rs)). me_obj e < t_cur_seq st
         \<and> (\<forall>x q. me_lba e \<le> x \<longrightarrow> x < me_lba e + me_len e \<longrightarrow> obj_look (t_objmap st) x = Some q \<longrightarrow> obj q = me_obj e
              \<longrightarrow> offset q = me_offset e + (x - me_lba e)))"

text \<open>Nothing is mapped to the objects of a set, and nothing will be.\<close>

definition untouched :: "tstate \<Rightarrow> int set \<Rightarrow> bool" where
  "untouched st A \<longleftrightarrow> (\<forall>a\<in>A. 0 \<le> a \<and> a < t_cur_seq st) \<and> (\<forall>x q. obj_look (t_objmap st) x = Some q \<longrightarrow> obj q \<notin> A)"

definition picked :: "tstate \<Rightarrow> (int \<Rightarrow> byte list) \<Rightarrow> (int \<times> int) list \<Rightarrow> bool" where
  "picked st objs S \<longleftrightarrow> distinct (map fst S) \<and> (\<forall>(ob, n)\<in>set S. 0 \<le> ob \<and> ob < t_cur_seq st \<and> 0 \<le> n \<and> int (length (objs ob)) = n * 512)"

text \<open>What is mapped to the chosen objects is what the collector has copied.\<close>

definition copied :: "tstate \<Rightarrow> (int \<times> int) list \<Rightarrow> (int \<Rightarrow> obj_offset option) \<Rightarrow> bool" where
  "copied st S live \<longleftrightarrow> (\<forall>x q. obj_look (t_objmap st) x = Some q \<longrightarrow> obj q \<in> fst ` set S \<longrightarrow> live x = Some q)"

definition covers :: "tstate \<Rightarrow> (int \<times> int) list \<Rightarrow> ckpt_mapentry list \<Rightarrow> bool" where
  "covers st S es \<longleftrightarrow> (\<forall>x q. obj_look (t_objmap st) x = Some q \<longrightarrow> obj q \<in> fst ` set S \<longrightarrow>
     (\<exists>e\<in>set es. me_lba e \<le> x \<and> x < me_lba e + me_len e \<and> me_obj e = obj q))"

definition ckpt_queued :: "tstate \<Rightarrow> bool" where
  "ckpt_queued st \<longleftrightarrow> (\<exists>r\<in>set (t_queue st). tr_op r = REQ_CKPT)"

definition ckpt_free :: "gsys \<Rightarrow> (int \<times> int) list \<Rightarrow> bool" where
  "ckpt_free s S \<longleftrightarrow> (\<forall>x q. g_ckpt s x = Some q \<longrightarrow> obj q \<notin> fst ` set S)"

fun phase_ok :: "gc_pc \<Rightarrow> gsys \<Rightarrow> bool" where
  "phase_ok (Gc_reap m dead) s \<longleftrightarrow> untouched (g_st s) (set dead) \<and> last (t_checkpoints (g_st s)) \<le> m"
| "phase_ok (Gc_drop m dead) s \<longleftrightarrow> untouched (g_st s) (set dead) \<and> last (t_checkpoints (g_st s)) \<le> m"
| "phase_ok (Gc_pick m) s \<longleftrightarrow> last (t_checkpoints (g_st s)) \<le> m"
| "phase_ok (Gc_scan m S) s \<longleftrightarrow> picked (g_st s) (g_objs s) S \<and> (\<forall>(ob, n)\<in>set S. ob \<le> m)"
| "phase_ok (Gc_read S live) s \<longleftrightarrow> picked (g_st s) (g_objs s) S \<and> live_fits S live \<and> copied (g_st s) S (obj_look live)"
| "phase_ok (Gc_send S rs) s \<longleftrightarrow> picked (g_st s) (g_objs s) S \<and> covers (g_st s) S (concat (map tr_entries (gc_alive s)))"
| "phase_ok (Gc_erase S) s \<longleftrightarrow> untouched (g_st s) (fst ` set S)"
| "phase_ok (Gc_ckpt S) s \<longleftrightarrow> untouched (g_st s) (fst ` set S) \<and> (ckpt_queued (g_st s) \<or> ckpt_free s S)"
| "phase_ok (Gc_delete S) s \<longleftrightarrow> untouched (g_st s) (fst ` set S) \<and> ckpt_free s S"
| "phase_ok Gc_sleep s \<longleftrightarrow> True"
| "phase_ok Gc_exit s \<longleftrightarrow> True"

fun sending :: "gc_pc \<Rightarrow> bool" where
  "sending (Gc_send S rs) \<longleftrightarrow> True"
| "sending Gc_exit \<longleftrightarrow> True"
| "sending pc \<longleftrightarrow> False"

fun at_ckpt :: "gc_pc \<Rightarrow> bool" where
  "at_ckpt (Gc_ckpt S) \<longleftrightarrow> True"
| "at_ckpt pc \<longleftrightarrow> False"

definition gc_inv :: "gsys \<Rightarrow> bool" where
  "gc_inv s \<longleftrightarrow> g_base (g_st s) (g_objs s) \<and> reqs_ok (g_st s) (g_objs s) (gc_alive s) \<and> phase_ok (g_pc s) s
     \<and> g_wrote s + length (filter is_gc (t_queue (g_st s))) = g_sent s \<and> g_done s \<le> g_wrote s
     \<and> (filter is_gc (t_queue (g_st s)) \<noteq> [] \<longrightarrow> sending (g_pc s))
     \<and> (ckpt_queued (g_st s) \<longrightarrow> at_ckpt (g_pc s))"

lemma g_baseD:
  assumes "g_base st objs"
  shows "objmap_ok (t_objmap st)" "live_ok (t_object_info st) (t_objmap st)" "length (t_uuid st) = 16" "t_clones st = []"
    "0 \<le> t_cur_seq st" "t_cur_seq st < 2 ^ 31" "512 \<le> backend_obj_bytes (t_cfg st)"
    "\<And>x q. obj_look (t_objmap st) x = Some q \<Longrightarrow>
       x < 2 ^ 35 \<and> 0 \<le> obj q \<and> obj q < t_cur_seq st \<and> 512 * (offset q + 1) \<le> int (length (objs (obj q)))"
    "\<And>ob n. obj_size (t_object_info st) ob = Some n \<Longrightarrow> 0 \<le> ob \<and> ob < t_cur_seq st \<and> 0 \<le> n \<and> int (length (objs ob)) = n * 512"
    "t_checkpoints st \<noteq> []"
    "\<And>c. c \<in> set (t_checkpoints st) \<Longrightarrow> 0 \<le> c \<and> c < t_cur_seq st \<and> (\<forall>x q. obj_look (t_objmap st) x = Some q \<longrightarrow> obj q \<noteq> c)"
    "put_ok (t_current st)" "\<And>r. r \<in> set (t_queue st) \<Longrightarrow> tr_op r = REQ_PUT \<Longrightarrow> put_ok r"
  using assms unfolding g_base_def by (elim conjE; blast)+

lemma gc_invD:
  assumes "gc_inv s"
  shows "g_base (g_st s) (g_objs s)" "reqs_ok (g_st s) (g_objs s) (gc_alive s)" "phase_ok (g_pc s) s"
    "g_wrote s + length (filter is_gc (t_queue (g_st s))) = g_sent s" "g_done s \<le> g_wrote s"
    "filter is_gc (t_queue (g_st s)) \<noteq> [] \<Longrightarrow> sending (g_pc s)" "ckpt_queued (g_st s) \<Longrightarrow> at_ckpt (g_pc s)"
  using assms by (simp_all add: gc_inv_def)

section \<open>Steps beside the collector\<close>

text \<open>
  Everything but the collector's own steps only unmaps sectors and maps them to objects that are new;
  objects that exist keep their content.
\<close>

definition evolves :: "tstate \<Rightarrow> (int \<Rightarrow> byte list) \<Rightarrow> tstate \<Rightarrow> (int \<Rightarrow> byte list) \<Rightarrow> bool" where
  "evolves st objs st' objs' \<longleftrightarrow> t_cur_seq st \<le> t_cur_seq st' \<and> (\<forall>ob<t_cur_seq st. objs' ob = objs ob)
     \<and> (\<forall>x q. obj_look (t_objmap st') x = Some q \<longrightarrow> obj_look (t_objmap st) x = Some q \<or> t_cur_seq st \<le> obj q)"

lemma evolvesD:
  assumes "evolves st objs st' objs'"
  shows "t_cur_seq st \<le> t_cur_seq st'" "\<And>ob. ob < t_cur_seq st \<Longrightarrow> objs' ob = objs ob"
    "\<And>x q. obj_look (t_objmap st') x = Some q \<Longrightarrow> obj q < t_cur_seq st \<Longrightarrow> obj_look (t_objmap st) x = Some q"
  using assms by (simp_all add: evolves_def) (metis leD)

lemma pickedD:
  assumes "picked st objs S" "ob \<in> fst ` set S"
  shows "0 \<le> ob" "ob < t_cur_seq st"
  using assms by (auto simp: picked_def)

lemma untouched_evolves: "untouched st A \<Longrightarrow> evolves st objs st' objs' \<Longrightarrow> untouched st' A"
  unfolding untouched_def using evolvesD by (meson less_le_trans)

lemma picked_evolves: "picked st objs S \<Longrightarrow> evolves st objs st' objs' \<Longrightarrow> picked st' objs' S"
  unfolding picked_def using evolvesD [of st objs st' objs'] by fastforce

lemma copied_evolves: "copied st S live \<Longrightarrow> picked st objs S \<Longrightarrow> evolves st objs st' objs' \<Longrightarrow> copied st' S live"
  unfolding copied_def using evolvesD(3) pickedD(2) by blast

lemma covers_evolves: "covers st S es \<Longrightarrow> picked st objs S \<Longrightarrow> evolves st objs st' objs' \<Longrightarrow> covers st' S es"
  unfolding covers_def using evolvesD(3) pickedD(2) by blast

lemma ent_byte_cong: "(\<And>e. e \<in> set es \<Longrightarrow> objs' (me_obj e) = objs (me_obj e)) \<Longrightarrow> ent_byte objs' es x j = ent_byte objs es x j"
  by (induction es) (simp_all add: obj_byte_def)

lemma reqs_ok_evolves:
  assumes "reqs_ok st objs rs" "evolves st objs st' objs'"
  shows "reqs_ok st' objs' rs"
proof -
  have "req_data_ok objs' r" if r: "r \<in> set rs" for r
  proof -
    have "ent_byte objs' (tr_entries r) = ent_byte objs (tr_entries r)"
      by (intro ext ent_byte_cong) (use assms r in \<open>auto simp: reqs_ok_def evolves_def\<close>)
    then show ?thesis using assms(1) r by (simp add: reqs_ok_def req_data_ok_def)
  qed
  moreover have "me_obj e < t_cur_seq st' \<and> (\<forall>x q. me_lba e \<le> x \<longrightarrow> x < me_lba e + me_len e \<longrightarrow> obj_look (t_objmap st') x = Some q
      \<longrightarrow> obj q = me_obj e \<longrightarrow> offset q = me_offset e + (x - me_lba e))" if "e \<in> set (concat (map tr_entries rs))" for e
  proof -
    have "me_obj e < t_cur_seq st" using assms(1) that unfolding reqs_ok_def by blast
    then show ?thesis using assms(1) that evolvesD [OF assms(2)] unfolding reqs_ok_def by (metis less_le_trans)
  qed
  ultimately show ?thesis using assms(1) by (simp add: reqs_ok_def)
qed

lemma phase_frame:
  assumes ph: "phase_ok pc s" and ev: "evolves (g_st s) (g_objs s) (g_st s') (g_objs s')"
    and same: "t_checkpoints (g_st s') = t_checkpoints (g_st s)" "gc_alive s' = gc_alive s" "g_ckpt s' = g_ckpt s"
      "ckpt_queued (g_st s') = ckpt_queued (g_st s)"
  shows "phase_ok pc s'"
proof (cases pc)
  case (Gc_read S live)
  then show ?thesis using ph picked_evolves [OF _ ev] copied_evolves [OF _ _ ev] by simp
next
  case (Gc_send S rs)
  then show ?thesis using ph picked_evolves [OF _ ev] covers_evolves [OF _ _ ev] same(2) by simp
qed (use ph same(1,3,4) untouched_evolves [OF _ ev] picked_evolves [OF _ ev] in \<open>simp_all add: ckpt_free_def\<close>)

lemma inv_frame:
  assumes inv: "gc_inv s" and base: "g_base (g_st s') (g_objs s')" and ev: "evolves (g_st s) (g_objs s) (g_st s') (g_objs s')"
    and same: "t_checkpoints (g_st s') = t_checkpoints (g_st s)" "filter is_gc (t_queue (g_st s')) = filter is_gc (t_queue (g_st s))"
      "g_pc s' = g_pc s" "g_ckpt s' = g_ckpt s" "ckpt_queued (g_st s') = ckpt_queued (g_st s)" "g_sent s' = g_sent s" "g_wrote s' = g_wrote s"
    and d: "g_done s' \<le> g_wrote s'"
  shows "gc_inv s'"
proof -
  note I = gc_invD [OF inv]
  have al: "gc_alive s' = gc_alive s" by (simp add: gc_alive_def same)
  have "phase_ok (g_pc s') s'" unfolding same(3) by (rule phase_frame [OF I(3) ev same(1) al same(4,5)])
  moreover have "reqs_ok (g_st s') (g_objs s') (gc_alive s')" unfolding al by (rule reqs_ok_evolves [OF I(2) ev])
  ultimately show ?thesis using base I(4,6,7) d unfolding gc_inv_def same by simp
qed

lemma inv_frame_same:
  assumes inv: "gc_inv s" and objs: "g_objs s' = g_objs s"
    and st: "t_objmap (g_st s') = t_objmap (g_st s)" "t_object_info (g_st s') = t_object_info (g_st s)" "t_uuid (g_st s') = t_uuid (g_st s)"
      "t_clones (g_st s') = t_clones (g_st s)" "t_cur_seq (g_st s') = t_cur_seq (g_st s)" "t_cfg (g_st s') = t_cfg (g_st s)"
    and put: "put_ok (t_current (g_st s'))" "\<And>r. r \<in> set (t_queue (g_st s')) \<Longrightarrow> tr_op r = REQ_PUT \<Longrightarrow> put_ok r"
    and same: "t_checkpoints (g_st s') = t_checkpoints (g_st s)" "filter is_gc (t_queue (g_st s')) = filter is_gc (t_queue (g_st s))"
      "g_pc s' = g_pc s" "g_ckpt s' = g_ckpt s" "ckpt_queued (g_st s') = ckpt_queued (g_st s)" "g_sent s' = g_sent s" "g_wrote s' = g_wrote s"
    and d: "g_done s' \<le> g_wrote s'"
  shows "gc_inv s'"
proof (rule inv_frame [OF inv _ _ same d])
  show "g_base (g_st s') (g_objs s')" using gc_invD(1) [OF inv] put unfolding g_base_def st same(1) objs by simp
  show "evolves (g_st s) (g_objs s) (g_st s') (g_objs s')" by (simp add: evolves_def st objs)
qed

lemma step_client:
  assumes inv: "gc_inv s" and c: "put_ok c" and rs: "\<forall>r\<in>set rs. tr_op r = REQ_FLUSH \<or> put_ok r"
  shows "gc_inv (s\<lparr>g_st := (g_st s)\<lparr>t_current := c, t_bufmap := bm, t_mem := mem, t_queue := t_queue (g_st s) @ rs,
    t_obj_read_refcount := pins\<rparr>\<rparr>)"
proof -
  note I = gc_invD [OF inv]
  note B = g_baseD [OF I(1)]
  have k: "filter is_gc rs = []" "\<not> (\<exists>r\<in>set rs. tr_op r = REQ_CKPT)" using rs by (auto simp: filter_empty_conv put_ok_def)
  show ?thesis
    by (rule inv_frame_same [OF inv]) (use B(13) c rs k I(5) in \<open>auto simp: ckpt_queued_def\<close>)
qed

lemma notify_fields:
  "t_objmap (notify u r st) = t_objmap st" "t_object_info (notify u r st) = t_object_info st" "t_uuid (notify u r st) = t_uuid st"
  "t_clones (notify u r st) = t_clones st" "t_cur_seq (notify u r st) = t_cur_seq st" "t_cfg (notify u r st) = t_cfg st"
  "t_current (notify u r st) = t_current st" "t_queue (notify u r st) = t_queue st" "t_checkpoints (notify u r st) = t_checkpoints st"
  "t_out (notify u r st) = t_out st" "t_name (notify u r st) = t_name st"
  by (simp_all add: notify_def Let_def)

lemma step_notify:
  assumes inv: "gc_inv s" and d: "d \<le> g_wrote s"
  shows "gc_inv (s\<lparr>g_st := notify u r (g_st s), g_done := d\<rparr>)"
proof -
  note I = gc_invD [OF inv]
  note B = g_baseD [OF I(1)]
  show ?thesis
    by (rule inv_frame_same [OF inv])
      (use B(12,13) d in \<open>simp_all add: ckpt_queued_def notify_fields\<close>)
qed

lemma step_flush:
  assumes inv: "gc_inv s" and q: "t_queue (g_st s) = r # q" "tr_op r = REQ_FLUSH" and w: "worker_step zcrc (g_st s) = Some st'"
  shows "gc_inv (s\<lparr>g_st := st'\<rparr>)"
proof -
  note I = gc_invD [OF inv]
  note B = g_baseD [OF I(1)]
  have st': "st' = (g_st s)\<lparr>t_queue := q\<rparr>" using w q by (simp add: worker_step_def Let_def split: if_splits)
  show ?thesis unfolding st'
    by (rule inv_frame_same [OF inv]) (use B(12,13) q I(5) in \<open>auto simp: ckpt_queued_def\<close>)
qed

section \<open>Batches and trims\<close>

text \<open>The map after an object was written: its sectors are mapped to it, the others as before.\<close>

definition remapped :: "tstate \<Rightarrow> (int \<times> int) list \<Rightarrow> int \<Rightarrow> tstate \<Rightarrow> bool" where
  "remapped st ps hs st' \<longleftrightarrow> ranges_ok ps \<and> 0 \<le> hs \<and> t_cur_seq st' = t_cur_seq st + 1 \<and> objmap_ok (t_objmap st') \<and> live_ok (t_object_info st') (t_objmap st')
     \<and> (\<forall>x. obj_look (t_objmap st') x = (case batch_pos ps hs x of Some i \<Rightarrow> Some (Obj_offset (t_cur_seq st) i) | None \<Rightarrow> obj_look (t_objmap st) x))
     \<and> (\<forall>ob. obj_size (t_object_info st') ob = (if ob = t_cur_seq st then Some (hs + total_len ps) else obj_size (t_object_info st) ob))
     \<and> t_uuid st' = t_uuid st \<and> t_clones st' = t_clones st \<and> t_cfg st' = t_cfg st \<and> t_checkpoints st' = t_checkpoints st
     \<and> t_current st' = t_current st \<and> t_queue st' = tl (t_queue st)"

lemma remapped_evolves: "remapped st ps hs st' \<Longrightarrow> evolves st objs st' (objs(t_cur_seq st := bs))"
  by (auto simp: remapped_def evolves_def split: option.splits)

lemma remapped_base:
  assumes base: "g_base st objs" and r: "remapped st ps hs st'" and len: "int (length bs) = (hs + total_len ps) * 512"
    and low: "\<forall>(b, n)\<in>set ps. b + n \<le> 2 ^ 35" and seq: "t_cur_seq st + 1 < 2 ^ 31"
  shows "g_base st' (objs(t_cur_seq st := bs))"
proof -
  note B = g_baseD [OF base]
  have R: "ranges_ok ps" "0 \<le> hs" "t_cur_seq st' = t_cur_seq st + 1" "t_queue st' = tl (t_queue st)"
    "\<And>x. obj_look (t_objmap st') x = (case batch_pos ps hs x of Some i \<Rightarrow> Some (Obj_offset (t_cur_seq st) i) | None \<Rightarrow> obj_look (t_objmap st) x)"
    "\<And>ob. obj_size (t_object_info st') ob = (if ob = t_cur_seq st then Some (hs + total_len ps) else obj_size (t_object_info st) ob)"
    "t_checkpoints st' = t_checkpoints st" using r by (simp_all add: remapped_def)
  have mp: "x < 2 ^ 35 \<and> 0 \<le> obj q \<and> obj q < t_cur_seq st' \<and> 512 * (offset q + 1) \<le> int (length ((objs(t_cur_seq st := bs)) (obj q)))"
    if q: "obj_look (t_objmap st') x = Some q" for x q
  proof (cases "batch_pos ps hs x")
    case None
    then have "obj_look (t_objmap st) x = Some q" using q R(5) by simp
    from B(8) [OF this] show ?thesis using R(3) by auto
  next
    case (Some i)
    have "x \<in> covered ps" using batch_pos_covered [of ps hs x] Some by auto
    then have "x < 2 ^ 35" using low by (fastforce simp: covered_def)
    moreover have "q = Obj_offset (t_cur_seq st) i" using q R(5) Some by simp
    moreover have "i < hs + total_len ps" using batch_pos_range [OF R(1) Some] by simp
    ultimately show ?thesis using R(3) B(5) len by simp
  qed
  have "0 \<le> ob \<and> ob < t_cur_seq st' \<and> 0 \<le> n \<and> int (length ((objs(t_cur_seq st := bs)) ob)) = n * 512"
    if "obj_size (t_object_info st') ob = Some n" for ob n
    using that B(9) [of ob n] R(2,3,6) B(5) len total_len_nonneg [OF R(1)] by (auto split: if_splits)
  moreover have "0 \<le> c \<and> c < t_cur_seq st' \<and> (\<forall>x q. obj_look (t_objmap st') x = Some q \<longrightarrow> obj q \<noteq> c)" if "c \<in> set (t_checkpoints st')" for c
    using B(11) [of c] that R(3,5,7) by (auto split: option.splits)
  moreover have "\<forall>r\<in>set (t_queue st'). tr_op r = REQ_PUT \<longrightarrow> put_ok r" using B(13) R(4) by (cases "t_queue st") auto
  ultimately show ?thesis using mp r B seq unfolding g_base_def by (simp add: remapped_def)
qed

lemma remapped_inv:
  assumes inv: "gc_inv s" and r: "remapped (g_st s) ps hs st'" and len: "int (length bs) = (hs + total_len ps) * 512"
    and low: "\<forall>(b, n)\<in>set ps. b + n \<le> 2 ^ 35" and seq: "t_cur_seq (g_st s) + 1 < 2 ^ 31"
    and q: "t_queue (g_st s) = rq # q" "tr_op rq = REQ_PUT"
  shows "gc_inv (s\<lparr>g_st := st', g_objs := (g_objs s)(t_cur_seq (g_st s) := bs)\<rparr>)"
proof -
  note I = gc_invD [OF inv]
  have "t_queue st' = q" "t_checkpoints st' = t_checkpoints (g_st s)" using r q by (simp_all add: remapped_def)
  then show ?thesis
    by (intro inv_frame [OF inv]) (use remapped_base [OF I(1) r len low seq] remapped_evolves [OF r] q I(5) in \<open>auto simp: ckpt_queued_def\<close>)
qed

lemma base_fresh: "g_base st objs \<Longrightarrow> fresh_seq (t_cur_seq st) (t_objmap st)"
  using g_baseD(5,6,8) [of st objs] by (fastforce simp: fresh_seq_def)

lemma worker_put:
  assumes base: "g_base st objs" and q: "t_queue st = r # q" "tr_op r = REQ_PUT" and seq: "t_cur_seq st + 1 < 2 ^ 31"
    and w: "worker_step zcrc st = Some st'" and out: "t_out st' = t_out st @ [Rcache_insert pf n bs', Aio_write nm bs r']"
  shows "remapped st (entry_ranges (tr_entries r)) (data_hdr_sectors (length (tr_entries r))) st'"
    "int (length bs) = (data_hdr_sectors (length (tr_entries r)) + total_len (entry_ranges (tr_entries r))) * 512"
    "\<And>k j. 0 \<le> k \<Longrightarrow> k < total_len (entry_ranges (tr_entries r)) \<Longrightarrow> 0 \<le> j \<Longrightarrow> j < 512 \<Longrightarrow>
       bs ! nat (512 * (data_hdr_sectors (length (tr_entries r)) + k) + j) = t_mem st (tr_data_ptr r + 512 * k + j)"
    "nm = oname (t_name st) (t_cur_seq st)"
proof -
  note B = g_baseD [OF base]
  let ?st = "st\<lparr>t_queue := q, t_cur_seq := t_cur_seq st + 1\<rparr>" and ?hs = "data_hdr_sectors (length (tr_entries r))"
    and ?es = "entry_ranges (tr_entries r)"
  have bat: "batch_ok r" using B(13) [of r] q by (simp add: put_ok_def)
  then have es: "ranges_ok ?es" "tr_len r = 512 * total_len ?es" "length (tr_entries r) < 2 ^ 20" by (simp_all add: batch_ok_def)
  have u: "ubf 32 (t_cur_seq st + 1) = t_cur_seq st + 1" using B(5) seq by (intro ubf_id) auto
  have p: "process_batch zcrc (t_cur_seq st) r ?st = Some st'" using w q by (simp add: worker_step_def Let_def u)
  have pf: "prefix ?st (t_cur_seq st) = Some (t_name st)" using B(4) by (simp add: prefix_def)
  have hb: "72 + 8 * int (length (tr_entries r)) \<le> 512 * ?hs" "0 \<le> ?hs" using data_hdr_sectors_bounds [of "length (tr_entries r)"] es(3) by simp_all
  have t0: "0 \<le> total_len ?es" by (rule total_len_nonneg [OF es(1)])
  obtain om' del info hdr b where
    hdr: "hdr = obj_hdr_bytes (t_uuid ?st) (t_cur_seq st) ?hs (tr_len r div 512) (map (\<lambda>e. mk_data_map (me_lba e) (me_len e)) (tr_entries r)) False (zcrc b)"
    and run: "process_batch zcrc (t_cur_seq st) r ?st = Some (?st\<lparr>t_objmap := om', t_object_info := info,
       t_mem := store_bytes (t_mem ?st) (tr_data_ptr r - ?hs * 512) hdr,
       t_total_live_sectors := t_total_live_sectors ?st
         - tracked_len (RBT.insert (t_cur_seq st) \<lparr>oi_hdr = ?hs, oi_data = tr_len r div 512, oi_live = tr_len r div 512\<rparr> (t_object_info ?st)) del
         + (tr_len r div 512 - disc_count del (t_cur_seq st)),
       t_total_sectors := t_total_sectors ?st + tr_len r div 512,
       t_out := t_out ?st @
         [Rcache_insert (t_name st) (t_cur_seq st) (load_bytes (store_bytes (t_mem ?st) (tr_data_ptr r - ?hs * 512) hdr)
             (tr_data_ptr r - ?hs * 512) ((?hs + tr_len r div 512) * 512)),
          Aio_write (oname (t_name st) (t_cur_seq st)) (load_bytes (store_bytes (t_mem ?st) (tr_data_ptr r - ?hs * 512) hdr)
             (tr_data_ptr r - ?hs * 512) ((?hs + tr_len r div 512) * 512)) (r\<lparr>tr_seq := t_cur_seq st\<rparr>)],
       t_outstanding_writes := t_outstanding_writes ?st + 1\<rparr>)"
    and res: "objmap_ok om'"
      "\<And>x. obj_look om' x = (case batch_pos ?es ?hs x of Some i \<Rightarrow> Some (Obj_offset (t_cur_seq st) i) | None \<Rightarrow> obj_look (t_objmap ?st) x)"
      "live_ok info om'"
      "\<And>ob. RBT.lookup info ob = (if ob = t_cur_seq st then Some \<lparr>oi_hdr = ?hs, oi_data = tr_len r div 512, oi_live = live_count om' (t_cur_seq st)\<rparr>
        else map_option (\<lambda>oi. oi\<lparr>oi_live := live_count om' ob\<rparr>) (RBT.lookup (t_object_info ?st) ob))"
    by (rule process_batch_run [of ?st r "t_cur_seq st" "t_name st" zcrc]) (use B(1-3) bat base_fresh [OF base] pf in auto)
  have sz: "obj_size info ob = (if ob = t_cur_seq st then Some (?hs + total_len ?es) else obj_size (t_object_info st) ob)" for ob
    using res(4) [of ob] es(2) by (cases "RBT.lookup (t_object_info st) ob") (simp_all add: obj_size_def)
  have lk: "obj_look om' x = (case batch_pos ?es ?hs x of Some i \<Rightarrow> Some (Obj_offset (t_cur_seq st) i) | None \<Rightarrow> obj_look (t_objmap st) x)" for x
    using res(2) [of x] by (simp split: option.split)
  show "remapped st ?es ?hs st'" using p [unfolded run] res(1,3) lk sz es(1) hb(2) q unfolding remapped_def by (simp only: option.inject) auto
  have bs: "bs = load_bytes (store_bytes (t_mem st) (tr_data_ptr r - ?hs * 512) hdr) (tr_data_ptr r - ?hs * 512) ((?hs + tr_len r div 512) * 512)"
    "nm = oname (t_name st) (t_cur_seq st)" using p run out by auto
  show "nm = oname (t_name st) (t_cur_seq st)" by (rule bs(2))
  show "int (length bs) = (?hs + total_len ?es) * 512" using hb(2) t0 es(2) by (simp add: bs(1))
  have lh: "int (length hdr) = 512 * ?hs" unfolding hdr using length_obj_hdr_bytes [of "t_uuid st"] B(3) hb by simp
  fix k j :: int assume k: "0 \<le> k" "k < total_len ?es" "0 \<le> j" "j < 512"
  have "bs ! nat (512 * (?hs + k) + j) = store_bytes (t_mem st) (tr_data_ptr r - ?hs * 512) hdr (tr_data_ptr r - ?hs * 512 + (512 * (?hs + k) + j))"
    unfolding bs(1) by (rule load_bytes_nth) (use k hb(2) es(2) in \<open>simp_all add: algebra_simps\<close>)
  also have "\<dots> = t_mem st (tr_data_ptr r - ?hs * 512 + (512 * (?hs + k) + j))" using k lh by (simp add: store_bytes_def)
  finally show "bs ! nat (512 * (?hs + k) + j) = t_mem st (tr_data_ptr r + 512 * k + j)" by (simp add: algebra_simps)
qed

lemma step_put:
  assumes inv: "gc_inv s" and q: "t_queue (g_st s) = r # q" "tr_op r = REQ_PUT" and seq: "t_cur_seq (g_st s) + 1 < 2 ^ 31"
    and w: "worker_step zcrc (g_st s) = Some st'" and out: "t_out st' = t_out (g_st s) @ [Rcache_insert pf n bs', Aio_write nm bs r']"
  defines "s' \<equiv> s\<lparr>g_st := st', g_objs := (g_objs s)(t_cur_seq (g_st s) := bs)\<rparr>"
  shows "gc_inv s'" "0 \<le> j \<Longrightarrow> j < 512 \<Longrightarrow> stored s' x j =
    vol_event (G_put (entry_ranges (tr_entries r)) (load_bytes (t_mem (g_st s)) (tr_data_ptr r) (tr_len r))) (stored s) x j"
proof -
  note I = gc_invD [OF inv]
  note B = g_baseD [OF I(1)]
  note W = worker_put [OF I(1) q seq w out]
  have ok: "put_ok r" using B(13) [of r] q by simp
  show "gc_inv s'" unfolding s'_def by (rule remapped_inv [OF inv W(1,2) _ seq q]) (use ok in \<open>simp add: put_ok_def\<close>)
  let ?es = "entry_ranges (tr_entries r)" and ?hs = "data_hdr_sectors (length (tr_entries r))"
  have es: "ranges_ok ?es" "tr_len r = 512 * total_len ?es" using ok by (simp_all add: put_ok_def batch_ok_def)
  have lk: "obj_look (t_objmap st') x = (case batch_pos ?es ?hs x of Some i \<Rightarrow> Some (Obj_offset (t_cur_seq (g_st s)) i) | None \<Rightarrow> obj_look (t_objmap (g_st s)) x)"
    using W(1) by (simp add: remapped_def)
  assume j: "0 \<le> j" "j < 512"
  have sh: "batch_pos ?es ?hs x = map_option ((+) ?hs) (batch_pos ?es 0 x)" using batch_pos_shift [of ?es 0 ?hs x] by simp
  show "stored s' x j = vol_event (G_put ?es (load_bytes (t_mem (g_st s)) (tr_data_ptr r) (tr_len r))) (stored s) x j"
  proof (cases "batch_pos ?es 0 x")
    case None
    have "stored s' x j = stored s x j" if "obj_look (t_objmap st') x = obj_look (t_objmap (g_st s)) x"
      using that B(8) by (cases "obj_look (t_objmap (g_st s)) x") (fastforce simp: stored_def s'_def)+
    then show ?thesis using None sh lk by simp
  next
    case (Some k)
    have k: "0 \<le> k" "k < total_len ?es" using batch_pos_range [OF es(1) Some] by simp_all
    have "load_bytes (t_mem (g_st s)) (tr_data_ptr r) (tr_len r) ! nat (512 * k + j) = t_mem (g_st s) (tr_data_ptr r + (512 * k + j))"
      by (rule load_bytes_nth) (use k j es(2) in auto)
    then show ?thesis using Some sh lk W(3) [OF k j] by (simp add: stored_def s'_def add.assoc)
  qed
qed

lemma step_trim:
  assumes inv: "gc_inv s" and r: "0 \<le> off" "off div 512 < (off + len) div 512" "(off + len) div 512 \<le> obj_amax"
    and t: "trim_xl u (g_st s) off len = Some st'"
  shows "gc_inv (s\<lparr>g_st := st'\<rparr>)" "stored (s\<lparr>g_st := st'\<rparr>) x j = vol_event (G_trim (off div 512) ((off + len) div 512)) (stored s) x j"
    "t_out st' = t_out (g_st s)"
proof -
  note I = gc_invD [OF inv]
  note B = g_baseD [OF I(1)]
  obtain om info D where T: "trim_xl u (g_st s) off len = Some ((g_st s)\<lparr>t_objmap := om, t_object_info := info,
      t_total_live_sectors := t_total_live_sectors (g_st s) - tracked_len (t_object_info (g_st s)) D\<rparr>)"
    "objmap_ok om" "live_ok info om"
    "\<And>x. obj_look om x = (if off div 512 \<le> x \<and> x < (off + len) div 512 then None else obj_look (t_objmap (g_st s)) x)"
    "\<And>ob. RBT.lookup info ob = map_option (\<lambda>oi. oi\<lparr>oi_live := oi_live oi - disc_count D ob\<rparr>) (RBT.lookup (t_object_info (g_st s)) ob)"
    by (rule trim_run [OF B(1,2) r, where u = u]) (rule that)
  have st': "st' = (g_st s)\<lparr>t_objmap := om, t_object_info := info,
      t_total_live_sectors := t_total_live_sectors (g_st s) - tracked_len (t_object_info (g_st s)) D\<rparr>" using T(1) t by simp
  have sz: "obj_size info ob = obj_size (t_object_info (g_st s)) ob" for ob
    using T(5) [of ob] by (cases "RBT.lookup (t_object_info (g_st s)) ob") (simp_all add: obj_size_def)
  have lk: "obj_look om x = Some q \<Longrightarrow> obj_look (t_objmap (g_st s)) x = Some q" for x q using T(4) [of x] by (simp split: if_splits)
  have "g_base st' (g_objs s)" using I(1) T(2,3) sz lk unfolding g_base_def st' by simp blast
  moreover have "evolves (g_st s) (g_objs s) st' (g_objs s)" using lk by (simp add: evolves_def st')
  ultimately show "gc_inv (s\<lparr>g_st := st'\<rparr>)" by (intro inv_frame [OF inv]) (use I(5) in \<open>simp_all add: st' ckpt_queued_def\<close>)
  show "stored (s\<lparr>g_st := st'\<rparr>) x j = vol_event (G_trim (off div 512) ((off + len) div 512)) (stored s) x j"
    using T(4) [of x] by (simp add: stored_def st')
  show "t_out st' = t_out (g_st s)" by (simp add: st')
qed

section \<open>The requests of the collector\<close>

lemma worker_gc:
  assumes base: "g_base st objs" and reqs: "reqs_ok st objs (r # rs)" and q: "t_queue st = r # q" "is_gc r"
    and seq: "t_cur_seq st + 1 < 2 ^ 31" and fits: "gc_fits (t_objmap st) r"
    and w: "worker_step zcrc st = Some st'" and out: "t_out st' = t_out st @ [Aio_write nm bs r']"
  obtains ps where "remapped st ps (data_hdr_sectors (length ps)) st'" "int (length bs) = (data_hdr_sectors (length ps) + total_len ps) * 512"
    "\<forall>(b, n)\<in>set ps. b + n \<le> 2 ^ 35" "\<And>x. x \<in> covered ps \<longleftrightarrow> gc_moves (t_objmap st) (tr_entries r) x"
    "\<And>x k j. batch_pos ps 0 x = Some k \<Longrightarrow> 0 \<le> j \<Longrightarrow> j < 512 \<Longrightarrow>
       bs ! nat (512 * (data_hdr_sectors (length ps) + k) + j) = ent_byte objs (tr_entries r) x j"
    "nm = oname (t_name st) (t_cur_seq st)"
proof -
  note B = g_baseD [OF base]
  let ?st = "st\<lparr>t_queue := q, t_cur_seq := t_cur_seq st + 1\<rparr>"
  have es: "gc_entries_ok (tr_entries r)" "holds (entry_ranges (tr_entries r)) (tr_gc_data r) (ent_byte objs (tr_entries r))"
    using reqs by (simp_all add: reqs_ok_def req_data_ok_def)
  have u: "ubf 32 (t_cur_seq st + 1) = t_cur_seq st + 1" using B(5) seq by (intro ubf_id) auto
  have p: "write_gc zcrc (t_cur_seq st) r ?st = Some st'" using w q by (simp add: worker_step_def Let_def u)
  have pf: "prefix ?st (t_cur_seq st) = Some (t_name st)" using B(4) by (simp add: prefix_def)
  obtain ps ds om' info tot hdr r'' where
    run: "write_gc zcrc (t_cur_seq st) r ?st = Some (?st\<lparr>t_objmap := om', t_object_info := info, t_total_live_sectors := tot,
       t_gc_sectors_written := t_gc_sectors_written ?st + total_len ps,
       t_out := t_out ?st @ [Aio_write (oname (t_name st) (t_cur_seq st)) (hdr @ ds) r''], t_outstanding_writes := t_outstanding_writes ?st + 1\<rparr>)"
    and R: "int (length hdr) = 512 * data_hdr_sectors (length ps)" "holds ps ds (ent_byte objs (tr_entries r))" "ranges_ok ps" "ascending ps"
      "objmap_ok om'"
      "\<And>x. obj_look om' x = (case batch_pos ps (data_hdr_sectors (length ps)) x of Some i \<Rightarrow> Some (Obj_offset (t_cur_seq st) i)
        | None \<Rightarrow> obj_look (t_objmap ?st) x)"
      "live_ok info om'"
      "\<And>ob. obj_size info ob = (if ob = t_cur_seq st then Some (data_hdr_sectors (length ps) + total_len ps) else obj_size (t_object_info ?st) ob)"
      "\<And>x. batch_pos ps (data_hdr_sectors (length ps)) x \<noteq> None \<longleftrightarrow> gc_moves (t_objmap ?st) (tr_entries r) x"
    by (rule write_gc_run [of ?st r "ent_byte objs (tr_entries r)" "t_cur_seq st" "t_name st" zcrc])
      (use B(1-3) es fits base_fresh [OF base] pf in auto)
  let ?hs = "data_hdr_sectors (length ps)"
  have h0: "0 \<le> ?hs" using R(1) by linarith
  have bs: "bs = hdr @ ds" "nm = oname (t_name st) (t_cur_seq st)" using p run out by auto
  have lk: "obj_look om' x = (case batch_pos ps ?hs x of Some i \<Rightarrow> Some (Obj_offset (t_cur_seq st) i) | None \<Rightarrow> obj_look (t_objmap st) x)" for x
    using R(6) [of x] by (simp split: option.split)
  have rm: "remapped st ps ?hs st'" using p [unfolded run] R(3,5,7,8) lk h0 q unfolding remapped_def by (simp only: option.inject) auto
  have len: "int (length bs) = (?hs + total_len ps) * 512" using holds_length [OF R(3,2)] R(1) by (simp add: bs(1))
  have cov: "x \<in> covered ps \<longleftrightarrow> gc_moves (t_objmap st) (tr_entries r) x" for x using R(9) [of x] batch_pos_covered [of ps ?hs x] by simp
  have low: "\<forall>(b, n)\<in>set ps. b + n \<le> 2 ^ 35"
  proof clarify
    fix b n assume m: "(b, n) \<in> set ps"
    then have n: "0 < n" using R(3) by (auto simp: ranges_ok_def list_all_iff)
    then have "b + n - 1 \<in> covered ps" using m by (force simp: covered_def)
    then obtain q where "obj_look (t_objmap st) (b + n - 1) = Some q" using cov by (auto simp: gc_moves_def)
    from B(8) [OF this] show "b + n \<le> 2 ^ 35" by simp
  qed
  have dat: "bs ! nat (512 * (?hs + k) + j) = ent_byte objs (tr_entries r) x j" if k: "batch_pos ps 0 x = Some k" "0 \<le> j" "j < 512" for x k j
  proof -
    have k0: "0 \<le> k" using batch_pos_range [OF R(3) k(1)] by simp
    have "nat (512 * (?hs + k) + j) = length hdr + nat (512 * k + j)" using R(1) k0 k(2) h0 by (simp add: nat_add_distrib [symmetric] algebra_simps)
    then have "bs ! nat (512 * (?hs + k) + j) = ds ! nat (512 * k + j)" by (simp only: bs(1) nth_append_length_plus)
    also have "\<dots> = ent_byte objs (tr_entries r) x j" by (rule holds_pos [OF R(3,4,2), where off = 0]) (use k in auto)
    finally show ?thesis .
  qed
  show thesis by (rule that [OF rm len low cov dat bs(2)])
qed

end
