(* ===== verification/Gc_Steps.thy ===== *)
theory Gc_Steps
  imports Gc_Safe
begin

text \<open>
  The steps of the collector's own requests, of checkpoints and of the collector keep the invariant and
  the stored bytes.
\<close>

section \<open>Writing a request\<close>

lemma ent_byte_mem:
  "gc_entries_ok es \<Longrightarrow> e \<in> set es \<Longrightarrow> me_lba e \<le> x \<Longrightarrow> x < me_lba e + me_len e \<Longrightarrow>
   ent_byte objs es x j = obj_byte objs (me_obj e) ((me_offset e + (x - me_lba e)) * 512 + j)"
  by (induction es) auto

lemma stored_same:
  assumes "g_base (g_st s) (g_objs s)" "obj_look (t_objmap (g_st s')) x = obj_look (t_objmap (g_st s)) x"
    "\<And>ob. ob < t_cur_seq (g_st s) \<Longrightarrow> g_objs s' ob = g_objs s ob"
  shows "stored s' x j = stored s x j"
  using assms(2,3) g_baseD(8) [OF assms(1), of x] by (cases "obj_look (t_objmap (g_st s)) x") (simp_all add: stored_def)

lemma reqs_ok_drop: "reqs_ok st objs (r # rs) \<Longrightarrow> reqs_ok st objs rs"
  by (simp add: reqs_ok_def)

lemma moved_bytes:
  assumes base: "g_base st objs" and reqs: "reqs_ok st objs (r # rs)" and m: "gc_moves (t_objmap st) (tr_entries r) x"
  obtains q where "obj_look (t_objmap st) x = Some q" "\<And>j. ent_byte objs (tr_entries r) x j = objs (obj q) ! nat (512 * offset q + j)"
proof -
  obtain e q where e: "e \<in> set (tr_entries r)" "me_lba e \<le> x" "x < me_lba e + me_len e" "obj_look (t_objmap st) x = Some q" "obj q = me_obj e"
    using m by (auto simp: gc_moves_def)
  have es: "gc_entries_ok (tr_entries r)" using reqs by (simp add: reqs_ok_def)
  have off: "offset q = me_offset e + (x - me_lba e)" using reqs e by (auto simp: reqs_ok_def)
  show thesis
    by (rule that [OF e(4)]) (simp add: ent_byte_mem [OF es e(1-3)] obj_byte_def e(5) off mult.commute)
qed

lemma covers_written:
  assumes cov: "covers st S (tr_entries r @ es)" and pk: "picked st objs S" and rm: "remapped st ps hs st'"
    and mv: "\<And>x. x \<in> covered ps \<longleftrightarrow> gc_moves (t_objmap st) (tr_entries r) x"
  shows "covers st' S es"
  unfolding covers_def
proof (intro allI impI)
  fix x q assume q: "obj_look (t_objmap st') x = Some q" "obj q \<in> fst ` set S"
  have lt: "obj q < t_cur_seq st" by (rule pickedD(2) [OF pk q(2)])
  have lk: "obj_look (t_objmap st) x = Some q" by (rule evolvesD(3) [OF remapped_evolves [OF rm] q(1) lt])
  obtain e where e: "e \<in> set (tr_entries r @ es)" "me_lba e \<le> x" "x < me_lba e + me_len e" "me_obj e = obj q"
    using cov lk q(2) unfolding covers_def by blast
  have "e \<notin> set (tr_entries r)"
  proof
    assume "e \<in> set (tr_entries r)"
    then have "x \<in> covered ps" using e lk mv by (auto simp: gc_moves_def)
    then obtain i where "batch_pos ps hs x = Some i" using batch_pos_covered [of ps hs x] by auto
    then have "obj q = t_cur_seq st" using q(1) rm by (simp add: remapped_def) auto
    then show False using lt by simp
  qed
  then show "\<exists>e\<in>set es. me_lba e \<le> x \<and> x < me_lba e + me_len e \<and> me_obj e = obj q" using e by auto
qed

lemma step_gcput:
  assumes inv: "gc_inv s" and q: "t_queue (g_st s) = r # q" "is_gc r" and seq: "t_cur_seq (g_st s) + 1 < 2 ^ 31"
    and fits: "gc_fits (t_objmap (g_st s)) r"
    and w: "worker_step zcrc (g_st s) = Some st'" and out: "t_out st' = t_out (g_st s) @ [Aio_write nm bs r']"
  defines "s' \<equiv> s\<lparr>g_st := st', g_wrote := Suc (g_wrote s), g_objs := (g_objs s)(t_cur_seq (g_st s) := bs)\<rparr>"
  shows "gc_inv s'" "0 \<le> j \<Longrightarrow> j < 512 \<Longrightarrow> stored s' x j = stored s x j"
proof -
  note I = gc_invD [OF inv]
  let ?rs = "filter is_gc q @ pending (g_pc s)"
  have al: "gc_alive s = r # ?rs" using q by (simp add: gc_alive_def)
  have reqs: "reqs_ok (g_st s) (g_objs s) (r # ?rs)" using I(2) al by simp
  obtain ps where P: "remapped (g_st s) ps (data_hdr_sectors (length ps)) st'" "int (length bs) = (data_hdr_sectors (length ps) + total_len ps) * 512"
    "\<forall>(b, n)\<in>set ps. b + n \<le> 2 ^ 35" "\<And>x. x \<in> covered ps \<longleftrightarrow> gc_moves (t_objmap (g_st s)) (tr_entries r) x"
    "\<And>x k j. batch_pos ps 0 x = Some k \<Longrightarrow> 0 \<le> j \<Longrightarrow> j < 512 \<Longrightarrow>
       bs ! nat (512 * (data_hdr_sectors (length ps) + k) + j) = ent_byte (g_objs s) (tr_entries r) x j"
    by (rule worker_gc [OF I(1) reqs q seq fits w out]) (rule that)
  let ?hs = "data_hdr_sectors (length ps)"
  have q': "t_queue st' = q" using P(1) q by (simp add: remapped_def)
  note ev = remapped_evolves [OF P(1), of "g_objs s" bs]
  have al': "gc_alive s' = ?rs" by (simp add: gc_alive_def s'_def q')
  have sd: "sending (g_pc s)" using I(6) q by simp
  have ph: "phase_ok (g_pc s) s'"
  proof (cases "g_pc s")
    case (Gc_send S ps')
    have "picked (g_st s) (g_objs s) S" "covers (g_st s) S (tr_entries r @ concat (map tr_entries ?rs))" using I(3) al Gc_send by simp_all
    then show ?thesis using Gc_send covers_written [OF _ _ P(1,4)] picked_evolves [OF _ ev] al' by (simp add: s'_def)
  qed (use sd in simp_all)
  have nc: "\<not> ckpt_queued (g_st s)" using I(7) sd by (cases "g_pc s") auto
  then have "\<not> ckpt_queued st'" using q q' by (simp add: ckpt_queued_def)
  then show "gc_inv s'"
    using remapped_base [OF I(1) P(1-3) seq] reqs_ok_evolves [OF reqs_ok_drop [OF reqs] ev] ph al' I(4,5) sd q q'
    unfolding gc_inv_def by (simp add: s'_def)
  have lk: "obj_look (t_objmap st') x = (case batch_pos ps ?hs x of Some i \<Rightarrow> Some (Obj_offset (t_cur_seq (g_st s)) i) | None \<Rightarrow> obj_look (t_objmap (g_st s)) x)"
    using P(1) by (simp add: remapped_def)
  assume j: "0 \<le> j" "j < 512"
  have sh: "batch_pos ps ?hs x = map_option ((+) ?hs) (batch_pos ps 0 x)" using batch_pos_shift [of ps 0 ?hs x] by simp
  show "stored s' x j = stored s x j"
  proof (cases "batch_pos ps 0 x")
    case None
    then show ?thesis using sh lk by (intro stored_same [OF I(1)]) (simp_all add: s'_def)
  next
    case (Some k)
    have "gc_moves (t_objmap (g_st s)) (tr_entries r) x" using P(4) [of x] batch_pos_covered [of ps 0 x] Some by auto
    then obtain q0 where q0: "obj_look (t_objmap (g_st s)) x = Some q0"
      "\<And>j. ent_byte (g_objs s) (tr_entries r) x j = g_objs s (obj q0) ! nat (512 * offset q0 + j)"
      by (rule moved_bytes [OF I(1) reqs]) (rule that)
    show ?thesis using Some sh lk q0 P(5) [OF Some j] by (simp add: stored_def s'_def)
  qed
qed

section \<open>Checkpoints\<close>

lemma step_ckpt:
  assumes inv: "gc_inv s" and q: "t_queue (g_st s) = r # q" "tr_op r = REQ_CKPT" and seq: "t_cur_seq (g_st s) + 1 < 2 ^ 31"
    and w: "worker_step zcrc (g_st s) = Some st'"
  defines "s' \<equiv> s\<lparr>g_st := st', g_ckpt := obj_look (t_objmap (g_st s))\<rparr>"
  shows "gc_inv s'" "stored s' x j = stored s x j"
    "\<exists>b sb. t_out st' = t_out (g_st s) @ [Be_write (oname (t_name (g_st s)) (t_cur_seq (g_st s))) b, Be_write (t_name (g_st s)) sb]
       @ map (\<lambda>c. Be_delete (oname (t_name (g_st s)) c)) (snd (keep_ckpts (t_checkpoints (g_st s) @ [t_cur_seq (g_st s)])))"
proof -
  note I = gc_invD [OF inv]
  note B = g_baseD [OF I(1)]
  let ?st = "g_st s" and ?c = "t_cur_seq (g_st s)"
  have u: "ubf 32 (?c + 1) = ?c + 1" using B(5) seq by (intro ubf_id) auto
  obtain kept dead where kd: "keep_ckpts (t_checkpoints ?st @ [?c]) = (kept, dead)" by fastforce
  obtain b sb where st': "st' = ?st\<lparr>t_queue := q, t_cur_seq := ?c + 1, t_checkpoints := kept, t_superblock_buf := sb,
      t_out := t_out ?st @ [Be_write (oname (t_name ?st) ?c) b, Be_write (t_name ?st) sb] @ map (\<lambda>c. Be_delete (oname (t_name ?st) c)) dead\<rparr>"
    using w q kd by (auto simp: worker_step_def write_checkpoint_def Let_def u)
  show "\<exists>b sb. t_out st' = t_out ?st @ [Be_write (oname (t_name ?st) ?c) b, Be_write (t_name ?st) sb]
       @ map (\<lambda>c. Be_delete (oname (t_name ?st) c)) (snd (keep_ckpts (t_checkpoints ?st @ [?c])))"
    unfolding kd by (intro exI [of _ b] exI [of _ sb]) (simp add: st')
  have k: "kept \<noteq> []" "set kept \<subseteq> insert ?c (set (t_checkpoints ?st))"
    using kd by (auto simp: keep_ckpts_def dest: in_set_dropD)
  have ck: "0 \<le> c \<and> c < ?c + 1 \<and> (\<forall>x q. obj_look (t_objmap ?st) x = Some q \<longrightarrow> obj q \<noteq> c)" if "c \<in> set kept" for c
  proof (cases "c = ?c")
    case True
    then show ?thesis using B(5,8) by fastforce
  next
    case False
    then show ?thesis using B(11) [of c] that k(2) by auto
  qed
  have base: "g_base st' (g_objs s)"
    using B(1-4,7,12,13) q k(1) ck B(5) seq B(8,9) unfolding g_base_def st' by (simp add: less_le_trans [of _ ?c "?c + 1"]) fastforce
  have ev: "evolves ?st (g_objs s) st' (g_objs s)" by (simp add: evolves_def st')
  obtain S where S: "g_pc s = Gc_ckpt S" using I(7) q by (cases "g_pc s") (auto simp: ckpt_queued_def)
  have gq: "filter is_gc q = []" using I(6) q S by (auto simp: filter_empty_conv)
  have un: "untouched ?st (fst ` set S)" using I(3) S by simp
  then have "ckpt_free s' S" by (simp add: untouched_def ckpt_free_def s'_def)
  then have "phase_ok (g_pc s') s'" using S untouched_evolves [OF un ev] by (simp add: s'_def)
  moreover have "reqs_ok st' (g_objs s) []" by (simp add: reqs_ok_def)
  ultimately show "gc_inv s'" using base I(4,5) S gq q by (simp add: gc_inv_def s'_def gc_alive_def st')
  show "stored s' x j = stored s x j" by (simp add: stored_def s'_def st')
qed

section \<open>The phases of the collector\<close>

lemma gc_delete_dead_spec:
  "t_clones st = [] \<Longrightarrow> gc_delete_dead obs st =
     Some (st\<lparr>t_out := t_out st @ map (\<lambda>ob. Aio_delete (oname (t_name st) ob)) (filter (\<lambda>ob. \<not> pinned st ob) obs)\<rparr>)"
  by (induction obs arbitrary: st) (simp_all add: prefix_def pinned_def)

lemma gc_delete_objs_spec:
  "t_clones st = [] \<Longrightarrow> \<exists>k. gc_delete_objs S st =
     Some (st\<lparr>t_out := t_out st @ map (\<lambda>(ob, n). Be_delete (oname (t_name st) ob)) (filter (\<lambda>(ob, n). \<not> pinned st ob) S), t_gc_deleted := k\<rparr>)"
proof (induction S arbitrary: st)
  case Nil
  show ?case by (rule exI [of _ "t_gc_deleted st"]) simp
next
  case (Cons a S)
  obtain ob n where a: "a = (ob, n)" by (cases a)
  show ?case
  proof (cases "pinned st ob")
    case True
    then show ?thesis using Cons by (simp add: a)
  next
    case False
    let ?st = "st\<lparr>t_out := t_out st @ [Be_delete (oname (t_name st) ob)], t_gc_deleted := t_gc_deleted st + 1\<rparr>"
    have "pinned ?st = pinned st" by (simp add: pinned_def fun_eq_iff)
    then show ?thesis using Cons.IH [of ?st] Cons.prems False by (simp add: a prefix_def)
  qed
qed

lemma entries_lookup: "(k, v) \<in> set (RBT.entries t) \<longleftrightarrow> RBT.lookup t k = Some v"
  using map_of_eq_Some_iff [OF RBT.distinct_entries, of t k v] by (simp add: RBT.map_of_entries)

lemma foldl_delete_lookup: "RBT.lookup (foldl (\<lambda>info ob. RBT.delete ob info) t obs) k = (if k \<in> set obs then None else RBT.lookup t k)"
  by (induction obs arbitrary: t) auto

lemma gc_retire_spec:
  "\<exists>tot info. gc_retire S st = st\<lparr>t_total_sectors := tot, t_object_info := info\<rparr>
     \<and> (\<forall>k. RBT.lookup info k = (if k \<in> fst ` set S then None else RBT.lookup (t_object_info st) k))"
proof (induction S arbitrary: st)
  case Nil
  show ?case by (rule exI [of _ "t_total_sectors st"], rule exI [of _ "t_object_info st"]) simp
next
  case (Cons a S)
  obtain ob n where a: "a = (ob, n)" by (cases a)
  let ?tot = "t_total_sectors st - (case RBT.lookup (t_object_info st) ob of None \<Rightarrow> 0 | Some oi \<Rightarrow> oi_data oi)"
  obtain tot info where i: "gc_retire S (st\<lparr>t_total_sectors := ?tot, t_object_info := RBT.delete ob (t_object_info st)\<rparr>)
      = st\<lparr>t_total_sectors := tot, t_object_info := info\<rparr>"
    "\<forall>k. RBT.lookup info k = (if k \<in> fst ` set S then None else RBT.lookup (RBT.delete ob (t_object_info st)) k)"
    using Cons.IH [of "st\<lparr>t_total_sectors := ?tot, t_object_info := RBT.delete ob (t_object_info st)\<rparr>"] by auto
  have "gc_retire (a # S) st = st\<lparr>t_total_sectors := tot, t_object_info := info\<rparr>" using i(1) by (simp add: a)
  moreover have "\<forall>k. RBT.lookup info k = (if k \<in> fst ` set (a # S) then None else RBT.lookup (t_object_info st) k)" using i(2) by (auto simp: a)
  ultimately show ?case by blast
qed

lemma dead_untouched:
  assumes base: "g_base st objs"
  shows "untouched st (set (gc_dead st))"
proof -
  note B = g_baseD [OF base]
  have dead: "\<exists>oi. RBT.lookup (t_object_info st) ob = Some oi \<and> oi_live oi = 0" if "ob \<in> set (gc_dead st)" for ob
    using that by (auto simp: gc_dead_def entries_lookup)
  have lt: "0 \<le> ob \<and> ob < t_cur_seq st" if "ob \<in> set (gc_dead st)" for ob
  proof -
    obtain oi where "RBT.lookup (t_object_info st) ob = Some oi" using dead [OF \<open>ob \<in> set (gc_dead st)\<close>] by blast
    then have "obj_size (t_object_info st) ob = Some (oi_hdr oi + oi_data oi)" by (simp add: obj_size_def)
    from B(9) [OF this] show ?thesis by simp
  qed
  have "obj q \<notin> set (gc_dead st)" if q: "obj_look (t_objmap st) x = Some q" for x q
  proof
    assume "obj q \<in> set (gc_dead st)"
    then obtain oi where "RBT.lookup (t_object_info st) (obj q) = Some oi" "oi_live oi = 0" using dead by blast
    then have "live_count (t_objmap st) (obj q) = 0" using B(2) by (simp add: live_ok_def)
    then have "live_set (t_objmap st) (obj q) = {}" using finite_live_set [OF B(1), of "obj q"] by (simp add: live_count_def)
    moreover have "x \<in> live_set (t_objmap st) (obj q)" using q by (cases q) (simp add: live_set_def)
    ultimately show False by simp
  qed
  then show ?thesis using lt by (simp add: untouched_def)
qed

lemma gc_pick_subset: "set (gc_pick t us acc) \<subseteq> set acc \<union> {(ob, n). \<exists>u. (u, ob, n) \<in> set us}"
  by (induction t us acc rule: gc_pick.induct) auto

lemma gc_pick_distinct:
  "distinct (map fst acc @ map (\<lambda>(u, ob, n). ob) us) \<Longrightarrow> distinct (map fst (gc_pick t us acc))"
  by (induction t us acc rule: gc_pick.induct) auto

lemma gc_choose_picked:
  assumes base: "g_base st objs"
  shows "picked st objs (gc_choose c st)" "\<forall>(ob, n)\<in>set (gc_choose c st). ob \<le> c"
proof -
  note B = g_baseD [OF base]
  let ?us = "gc_utilization c (t_object_info st)"
  have mem: "\<exists>oi. RBT.lookup (t_object_info st) ob = Some oi \<and> n = oi_hdr oi + oi_data oi \<and> ob \<le> c
      \<and> u = of_int (oi_live oi) / of_int (oi_data oi)" if "(u, ob, n) \<in> set ?us" for u ob n
    using that by (auto simp: gc_utilization_def entries_lookup)
  have "inj_on (\<lambda>(u, ob, n). ob) (set ?us)"
  proof (rule inj_onI)
    fix a b assume m: "a \<in> set ?us" "b \<in> set ?us" "(\<lambda>(u, ob, n). ob) a = (\<lambda>(u, ob, n). ob) b"
    obtain u1 ob n1 u2 n2 where ab: "a = (u1, ob, n1)" "b = (u2, ob, n2)" using m(3) by (cases a; cases b) simp
    show "a = b" using mem [OF m(1) [unfolded ab]] mem [OF m(2) [unfolded ab]] by (auto simp: ab)
  qed
  moreover have "distinct ?us" by (simp add: gc_utilization_def)
  ultimately have d: "distinct (map fst (gc_choose c st))" unfolding gc_choose_def
    by (intro gc_pick_distinct) (simp add: distinct_map)
  have sub: "\<exists>u. (u, ob, n) \<in> set ?us" if "(ob, n) \<in> set (gc_choose c st)" for ob n
    using that gc_pick_subset [of "of_int (gc_threshold_pc (t_cfg st)) / 100" ?us "[]"] by (auto simp: gc_choose_def)
  show "\<forall>(ob, n)\<in>set (gc_choose c st). ob \<le> c" using sub mem by blast
  have "0 \<le> ob \<and> ob < t_cur_seq st \<and> 0 \<le> n \<and> int (length (objs ob)) = n * 512" if m: "(ob, n) \<in> set (gc_choose c st)" for ob n
  proof -
    obtain oi where "RBT.lookup (t_object_info st) ob = Some oi" "n = oi_hdr oi + oi_data oi" using sub [OF m] mem by blast
    then have "obj_size (t_object_info st) ob = Some n" by (simp add: obj_size_def)
    then show ?thesis by (rule B(9))
  qed
  then show "picked st objs (gc_choose c st)" using d by (auto simp: picked_def)
qed

lemma gc_scan_spec:
  assumes base: "g_base st objs" and pk: "picked st objs S" "\<forall>(ob, n)\<in>set S. ob \<le> m"
  defines "live \<equiv> gc_live_extents m S (t_objmap st)"
  shows "live_fits S live" "copied st S (obj_look live)" "\<not> 0 < size_map live \<Longrightarrow> untouched st (fst ` set S)"
proof -
  note B = g_baseD [OF base]
  note L = gc_live_extents_spec [OF B(1), of m S, folded live_def]
  have "x < 2 ^ 35 \<and> 0 \<le> obj q \<and> obj q < 2 ^ 31 \<and> (\<exists>n. (obj q, n) \<in> set S \<and> offset q < n)" if q: "obj_look live x = Some q" for x q
  proof -
    have om: "obj_look (t_objmap st) x = Some q" "obj q \<in> fst ` set S" using q L(2) [of x] by (auto split: option.splits if_splits)
    obtain n where n: "(obj q, n) \<in> set S" using om(2) by force
    then have "int (length (objs (obj q))) = n * 512" using pk(1) by (auto simp: picked_def)
    then have "offset q < n" using B(8) [OF om(1)] by simp
    then show ?thesis using B(6) B(8) [OF om(1)] n by auto
  qed
  then show "live_fits S live" using L(1) pk(1) by (simp add: live_fits_def picked_def)
  show cp: "copied st S (obj_look live)" unfolding copied_def
  proof (intro allI impI)
    fix x q assume q: "obj_look (t_objmap st) x = Some q" "obj q \<in> fst ` set S"
    then have "obj q \<le> m" using pk(2) by auto
    then show "obj_look live x = Some q" using q L(2) [of x] by simp
  qed
  assume "\<not> 0 < size_map live"
  moreover have "struct_inv lba2obj live" using L(1) by (simp add: map_ok_def)
  ultimately have "flat live = []" by (simp add: size_map_def struct_inv_def)
  then have no: "obj_look live x = None" for x by (simp add: lookup_fun_def)
  have "obj q \<notin> fst ` set S" if "obj_look (t_objmap st) x = Some q" for x q using cp that no [of x] unfolding copied_def by force
  then show "untouched st (fst ` set S)" using pickedD [OF pk(1)] by (simp add: untouched_def)
qed

section \<open>A step of the collector\<close>

text \<open>What the thread leaves alone.\<close>

definition same_maps :: "tstate \<Rightarrow> tstate \<Rightarrow> bool" where
  "same_maps st st' \<longleftrightarrow> t_objmap st' = t_objmap st \<and> t_uuid st' = t_uuid st \<and> t_clones st' = t_clones st
     \<and> t_cur_seq st' = t_cur_seq st \<and> t_cfg st' = t_cfg st \<and> t_checkpoints st' = t_checkpoints st
     \<and> t_name st' = t_name st
     \<and> (\<forall>k v. RBT.lookup (t_object_info st') k = Some v \<longrightarrow> RBT.lookup (t_object_info st) k = Some v)"

lemma same_mapsD:
  assumes "same_maps st st'"
  shows "untouched st' A = untouched st A" "picked st' objs S = picked st objs S" "copied st' S live = copied st S live"
    "covers st' S es = covers st S es" "reqs_ok st' objs rs = reqs_ok st objs rs"
  using assms by (simp_all add: same_maps_def untouched_def picked_def copied_def covers_def reqs_ok_def)

lemma same_maps_base:
  assumes "g_base st objs" "same_maps st st'" "put_ok (t_current st')" "\<And>r. r \<in> set (t_queue st') \<Longrightarrow> tr_op r = REQ_PUT \<Longrightarrow> put_ok r"
  shows "g_base st' objs"
proof -
  have m: "t_objmap st' = t_objmap st" "t_uuid st' = t_uuid st" "t_clones st' = t_clones st" "t_cur_seq st' = t_cur_seq st"
    "t_cfg st' = t_cfg st" "t_checkpoints st' = t_checkpoints st"
    "\<And>k v. RBT.lookup (t_object_info st') k = Some v \<Longrightarrow> RBT.lookup (t_object_info st) k = Some v"
    using assms(2) by (simp_all add: same_maps_def)
  note B = g_baseD [OF assms(1)]
  have "live_ok (t_object_info st') (t_objmap st')" using B(2) m(1,7) by (simp add: live_ok_def)
  moreover have "0 \<le> ob \<and> ob < t_cur_seq st \<and> 0 \<le> n \<and> int (length (objs ob)) = n * 512" if "obj_size (t_object_info st') ob = Some n" for ob n
    using that m(7) B(9) [of ob n] by (auto simp: obj_size_def)
  ultimately show ?thesis using assms(1,3,4) unfolding g_base_def m(1-6) by simp
qed

text \<open>A step that leaves the queue alone and after which no request of the collector is pending.\<close>

lemma inv_pc:
  assumes inv: "gc_inv s" and sm: "same_maps (g_st s) st'" and q: "t_queue st' = t_queue (g_st s)" "t_current st' = t_current (g_st s)"
    and ph: "phase_ok pc' (s\<lparr>g_pc := pc', g_st := st'\<rparr>)" and pd: "pending pc' = []"
    and sd: "sending (g_pc s) \<Longrightarrow> sending pc' \<or> g_done s = g_sent s" and ck: "at_ckpt (g_pc s) \<Longrightarrow> \<not> ckpt_queued (g_st s)"
  shows "gc_inv (s\<lparr>g_pc := pc', g_st := st'\<rparr>)"
proof -
  note I = gc_invD [OF inv]
  note B = g_baseD [OF I(1)]
  have base: "g_base st' (g_objs s)" by (rule same_maps_base [OF I(1) sm]) (use q B(12,13) in auto)
  have nc: "\<not> ckpt_queued (g_st s)" using I(7) ck by blast
  have "reqs_ok (g_st s) (g_objs s) (filter is_gc (t_queue (g_st s)))" using I(2) by (auto simp: gc_alive_def reqs_ok_def)
  moreover have "filter is_gc (t_queue (g_st s)) \<noteq> [] \<longrightarrow> sending pc'"
  proof
    assume n: "filter is_gc (t_queue (g_st s)) \<noteq> []"
    then have "g_wrote s < g_sent s" using I(4) by (metis add.right_neutral add_strict_left_mono length_greater_0_conv)
    then show "sending pc'" using I(5) I(6) [OF n] sd by auto
  qed
  ultimately show ?thesis
    using base ph I(4,5) q(1) pd nc same_mapsD(5) [OF sm] unfolding gc_inv_def gc_alive_def by (simp add: ckpt_queued_def)
qed

lemma same_maps_refl: "same_maps st st"
  by (simp add: same_maps_def)

text \<open>The phases that neither build nor queue anything.\<close>

lemma gc_plain_step:
  assumes inv: "gc_inv s" and st: "gc_step (\<lambda>_. False) rd mem0 (g_pc s, g_st s, g_sent s, g_done s) (pc', st', n', d')"
    and pl: "\<not> sending (g_pc s)" "\<And>S live. g_pc s \<noteq> Gc_read S live" "\<And>S. g_pc s \<noteq> Gc_erase S"
  shows "n' = g_sent s" "d' = g_done s" "same_maps (g_st s) st'" "gc_inv (s\<lparr>g_pc := pc', g_st := st'\<rparr>)"
proof -
  note I = gc_invD [OF inv]
  note B = g_baseD [OF I(1)]
  have "n' = g_sent s \<and> d' = g_done s \<and> same_maps (g_st s) st' \<and> t_queue st' = t_queue (g_st s) \<and> t_current st' = t_current (g_st s)
      \<and> phase_ok pc' (s\<lparr>g_pc := pc', g_st := st'\<rparr>) \<and> pending pc' = [] \<and> (at_ckpt (g_pc s) \<longrightarrow> \<not> ckpt_queued (g_st s))"
    using st
  proof cases
    case (gc_start max_obj dead)
    have "sbf 32 (t_cur_seq (g_st s)) = t_cur_seq (g_st s)" using B(5,6) by (intro sbf_id) auto
    moreover have "last (t_checkpoints (g_st s)) < t_cur_seq (g_st s)" using B(11) [of "last (t_checkpoints (g_st s))"] B(10) by simp
    moreover have "same_maps (g_st s) st'" "t_queue st' = t_queue (g_st s)" "t_current st' = t_current (g_st s)"
      using gc_start by (auto simp: gc_begin_def Let_def same_maps_def)
    ultimately show ?thesis using gc_start dead_untouched [OF I(1)] same_mapsD(1)
      by (auto simp: gc_begin_def gc_dead_def Let_def same_maps_def)
  next
    case (gc_reap dead max_obj)
    then show ?thesis using I(3) gc_delete_dead_spec [OF B(4), of dead] by (auto simp: same_maps_def untouched_def)
  next
    case (gc_drop max_obj dead)
    then show ?thesis using I(3) by (auto simp: gc_forget_def same_maps_def foldl_delete_lookup)
  next
    case (gc_some objs max_obj)
    then show ?thesis using I(3) gc_choose_picked [OF I(1), of "gc_last_ckpt (g_st s)"] B(10) same_maps_refl
      by (fastforce simp: gc_last_ckpt_def)
  next
    case (gc_scan live max_obj objs)
    then show ?thesis using I(3) gc_scan_spec [OF I(1), of objs max_obj] same_maps_refl by auto
  next
    case (gc_ckpt objs)
    then show ?thesis using I(3) same_maps_refl by (auto simp: ckpt_queued_def ckpt_free_def)
  next
    case (gc_delete objs)
    obtain k where "gc_delete_objs objs (g_st s) = Some ((g_st s)\<lparr>t_out := t_out (g_st s)
        @ map (\<lambda>(ob, n). Be_delete (oname (t_name (g_st s)) ob)) (filter (\<lambda>(ob, n). \<not> pinned (g_st s) ob) objs), t_gc_deleted := k\<rparr>)"
      using gc_delete_objs_spec [OF B(4), of objs] by blast
    then show ?thesis using gc_delete by (auto simp: same_maps_def)
  qed (use pl same_maps_refl in auto)
  then show "n' = g_sent s" "d' = g_done s" "same_maps (g_st s) st'" "gc_inv (s\<lparr>g_pc := pc', g_st := st'\<rparr>)"
    using inv_pc [OF inv, of st' pc'] pl(1) by auto
qed

end
