(* ===== verification/Gc_Correct.thy ===== *)
theory Gc_Correct
  imports Gc_Steps Pipeline_Correct Image_Manage
begin

text \<open>
  What the collector guarantees: it never deletes an object that the volume or the last checkpoint still
  needs, it changes no byte of the volume, and none of its assertions fails.
\<close>

section \<open>The other steps of the collector\<close>

lemma gc_read_objs_state: "gc_read_objs full rd objs room fm content st = Some (fm', content', st') \<Longrightarrow> \<exists>m. st' = st\<lparr>t_gc_sectors_read := m\<rparr>"
proof (induction objs arbitrary: room fm content st)
  case Nil
  then have "st' = st\<lparr>t_gc_sectors_read := t_gc_sectors_read st\<rparr>" by simp
  then show ?case by blast
next
  case (Cons a objs)
  obtain ob n where a: "a = (ob, n)" by (cases a)
  show ?case using Cons.prems Cons.IH [of _ _ _ "st\<lparr>t_gc_sectors_read := t_gc_sectors_read st + n\<rparr>"]
    by (auto simp: a Let_def split: option.splits if_splits)
qed

lemma gc_built_ok:
  assumes pk: "picked st objs S" and lf: "live_fits S live" and cp: "copied st S (obj_look live)"
    and rs: "concat (map tr_entries rs) = map ext_entry (gc_extents live)" "\<forall>r\<in>set rs. req_data_ok objs r"
  shows "reqs_ok st objs rs" "covers st S (concat (map tr_entries rs))"
proof -
  note E = gc_extents_spec [OF lf]
  have ent: "obj_look live x = Some (Obj_offset (me_obj e) (me_offset e + (x - me_lba e)))"
    if "e \<in> set (map ext_entry (gc_extents live))" "me_lba e \<le> x" "x < me_lba e + me_len e" for e x
    using that E(3) [of x "me_obj e" "me_offset e + (x - me_lba e)"] by blast
  have inS: "me_obj e \<in> fst ` set S" if e: "e \<in> set (map ext_entry (gc_extents live))" for e
  proof -
    have "0 < me_len e" using E(1) e by (force simp: gc_entries_ok_def ranges_ok_def list_all_iff)
    then have "obj_look live (me_lba e) = Some (Obj_offset (me_obj e) (me_offset e))" using ent [OF e, of "me_lba e"] by simp
    then show ?thesis using lf unfolding live_fits_def by force
  qed
  have "me_obj e < t_cur_seq st \<and> (\<forall>x q. me_lba e \<le> x \<longrightarrow> x < me_lba e + me_len e \<longrightarrow> obj_look (t_objmap st) x = Some q
      \<longrightarrow> obj q = me_obj e \<longrightarrow> offset q = me_offset e + (x - me_lba e))" if e: "e \<in> set (map ext_entry (gc_extents live))" for e
  proof (intro conjI allI impI)
    show "me_obj e < t_cur_seq st" by (rule pickedD(2) [OF pk inS [OF e]])
    fix x q assume x: "me_lba e \<le> x" "x < me_lba e + me_len e" "obj_look (t_objmap st) x = Some q" "obj q = me_obj e"
    then have "obj_look live x = Some q" using cp inS [OF e] by (simp add: copied_def)
    then show "offset q = me_offset e + (x - me_lba e)" using ent [OF e x(1,2)] by auto
  qed
  then show "reqs_ok st objs rs" using rs E(1) by (simp only: reqs_ok_def) blast
  show "covers st S (concat (map tr_entries rs))" unfolding covers_def rs(1)
  proof (intro allI impI)
    fix x q assume "obj_look (t_objmap st) x = Some q" "obj q \<in> fst ` set S"
    then have "obj_look live x = Some (Obj_offset (obj q) (offset q))" using cp by (simp add: copied_def)
    then show "\<exists>e\<in>set (map ext_entry (gc_extents live)). me_lba e \<le> x \<and> x < me_lba e + me_len e \<and> me_obj e = obj q"
      using E(3) [of x "obj q" "offset q"] by blast
  qed
qed

lemma gc_read_step:
  assumes inv: "gc_inv s" and rd: "reads_store rd (t_name (g_st s)) (g_objs s)" and pc: "g_pc s = Gc_read S live"
    and st: "gc_step (\<lambda>_. False) rd mem0 (g_pc s, g_st s, g_sent s, g_done s) (pc', st', n', d')"
  shows "n' = g_sent s" "d' = g_done s" "same_maps (g_st s) st'" "t_out st' = t_out (g_st s)" "gc_inv (s\<lparr>g_pc := pc', g_st := st'\<rparr>)"
proof -
  note I = gc_invD [OF inv]
  note B = g_baseD [OF I(1)]
  have ph: "picked (g_st s) (g_objs s) S" "live_fits S live" "copied (g_st s) S (obj_look live)" using I(3) pc by simp_all
  have stop: "same_maps (g_st s) st' \<Longrightarrow> t_queue st' = t_queue (g_st s) \<Longrightarrow> t_current st' = t_current (g_st s) \<Longrightarrow>
      gc_inv (s\<lparr>g_pc := Gc_exit, g_st := st'\<rparr>)"
    by (rule inv_pc [OF inv]) (simp_all add: pc)
  have "n' = g_sent s \<and> d' = g_done s \<and> same_maps (g_st s) st' \<and> t_out st' = t_out (g_st s) \<and> gc_inv (s\<lparr>g_pc := pc', g_st := st'\<rparr>)"
    using st
  proof cases
    case (gc_read objs live' rs)
    have e: "objs = S" "live' = live" "pc' = Gc_send S rs" using gc_read pc by simp_all
    have sz: "\<forall>(ob, n)\<in>set S. 0 \<le> n \<and> int (length (g_objs s ob)) = n * 512" using ph(1) by (auto simp: picked_def)
    obtain rs' m where R: "gc_requests (\<lambda>_. False) rd (mem0 (gc_buf_sectors S (g_st s) * 512)) S live (g_st s) = Some (rs', (g_st s)\<lparr>t_gc_sectors_read := m\<rparr>)"
      "concat (map tr_entries rs') = map ext_entry (gc_extents live)" "\<forall>r\<in>set rs'. req_data_ok (g_objs s) r"
      by (rule gc_requests_spec [OF rd B(4) _ ph(2) sz B(7), where full = "\<lambda>_. False"]) auto
    have r: "rs = rs'" "st' = (g_st s)\<lparr>t_gc_sectors_read := m\<rparr>" using gc_read R(1) e by simp_all
    have sm: "same_maps (g_st s) st'" by (simp add: same_maps_def r)
    have nq: "filter is_gc (t_queue (g_st s)) = []" using I(6) pc by auto
    have al: "gc_alive (s\<lparr>g_pc := pc', g_st := st'\<rparr>) = rs" using nq by (simp add: gc_alive_def e r)
    have base: "g_base st' (g_objs s)" by (rule same_maps_base [OF I(1) sm]) (use B(12,13) r in auto)
    note G = gc_built_ok [OF ph R(2,3)]
    have "\<not> ckpt_queued st'" using I(7) pc by (auto simp: ckpt_queued_def r)
    then have "gc_inv (s\<lparr>g_pc := pc', g_st := st'\<rparr>)"
      using base G ph(1) I(4,5) nq al same_mapsD [OF sm] unfolding gc_inv_def by (simp add: e r)
    then show ?thesis using sm gc_read by (simp add: r)
  next
    case (gc_stop max_obj objs live rs)
    then show ?thesis using stop same_maps_refl by auto
  next
    case (gc_stop_read k objs fm content live)
    obtain m where "st' = (g_st s)\<lparr>t_gc_sectors_read := m\<rparr>" using gc_read_objs_state gc_stop_read by blast
    then show ?thesis using gc_stop_read stop by (auto simp: same_maps_def)
  qed (use pc in auto)
  then show "n' = g_sent s" "d' = g_done s" "same_maps (g_st s) st'" "t_out st' = t_out (g_st s)" "gc_inv (s\<lparr>g_pc := pc', g_st := st'\<rparr>)" by simp_all
qed

lemma retired_same_maps: "same_maps st (gc_retire S st)" "t_queue (gc_retire S st) = t_queue st" "t_current (gc_retire S st) = t_current st"
  "t_out (gc_retire S st) = t_out st"
proof -
  obtain tot info where r: "gc_retire S st = st\<lparr>t_total_sectors := tot, t_object_info := info\<rparr>"
    "\<And>k. RBT.lookup info k = (if k \<in> fst ` set S then None else RBT.lookup (t_object_info st) k)" using gc_retire_spec [of S st] by blast
  show "same_maps st (gc_retire S st)" "t_queue (gc_retire S st) = t_queue st" "t_current (gc_retire S st) = t_current st"
    "t_out (gc_retire S st) = t_out st" using r(2) by (simp_all add: r(1) same_maps_def split: if_splits)
qed

lemma covers_Nil: "covers st S [] \<Longrightarrow> picked st objs S \<Longrightarrow> untouched st (fst ` set S)"
  by (auto simp: covers_def untouched_def picked_def)

lemma gc_send_step:
  assumes inv: "gc_inv s" and pc: "g_pc s = Gc_send S rs"
    and st: "gc_step (\<lambda>_. False) rd mem0 (g_pc s, g_st s, g_sent s, g_done s) (pc', st', n', d')"
  shows "d' = g_done s" "same_maps (g_st s) st'" "t_out st' = t_out (g_st s)" "gc_inv (s\<lparr>g_pc := pc', g_st := st', g_sent := n'\<rparr>)"
proof -
  note I = gc_invD [OF inv]
  note B = g_baseD [OF I(1)]
  have ph: "picked (g_st s) (g_objs s) S" "covers (g_st s) S (concat (map tr_entries (gc_alive s)))" using I(3) pc by simp_all
  have stop: "same_maps (g_st s) st' \<Longrightarrow> t_queue st' = t_queue (g_st s) \<Longrightarrow> t_current st' = t_current (g_st s) \<Longrightarrow>
      gc_inv (s\<lparr>g_pc := Gc_exit, g_st := st'\<rparr>)"
    by (rule inv_pc [OF inv]) (simp_all add: pc)
  have "d' = g_done s \<and> same_maps (g_st s) st' \<and> t_out st' = t_out (g_st s) \<and> gc_inv (s\<lparr>g_pc := pc', g_st := st', g_sent := n'\<rparr>)"
    using st
  proof cases
    case (gc_send objs r rs')
    have e: "objs = S" "rs = r # rs'" "pc' = Gc_send S rs'" "st' = (g_st s)\<lparr>t_queue := t_queue (g_st s) @ [r]\<rparr>" "n' = Suc (g_sent s)"
      using gc_send pc by simp_all
    have op: "is_gc r" using I(2) pc e(2) by (auto simp: gc_alive_def reqs_ok_def req_data_ok_def)
    have sm: "same_maps (g_st s) st'" by (simp add: same_maps_def e)
    have al: "gc_alive (s\<lparr>g_pc := pc', g_st := st', g_sent := n'\<rparr>) = gc_alive s" using op by (simp add: gc_alive_def e pc)
    have base: "g_base st' (g_objs s)" by (rule same_maps_base [OF I(1) sm]) (use B(12,13) op e in auto)
    have "\<not> ckpt_queued st'" using I(7) pc op by (auto simp: ckpt_queued_def e)
    then show ?thesis using gc_send base ph I(2,4,5) al op sm same_mapsD [OF sm] unfolding gc_inv_def by (simp add: e)
  next
    case (gc_sent objs)
    have e: "objs = S" "rs = []" "g_done s = g_sent s" "pc' = Gc_erase S" "st' = g_st s" "n' = g_sent s" using gc_sent pc by simp_all
    have "length (filter is_gc (t_queue (g_st s))) = 0" using I(4,5) e(3) by linarith
    then have "filter is_gc (t_queue (g_st s)) = []" by simp
    then have "untouched (g_st s) (fst ` set S)" using ph covers_Nil by (simp add: gc_alive_def pc e)
    then have "gc_inv (s\<lparr>g_pc := pc', g_st := st'\<rparr>)" by (intro inv_pc [OF inv]) (simp_all add: same_maps_refl pc e)
    then show ?thesis using gc_sent same_maps_refl by (simp add: e)
  next
    case (gc_stop max_obj objs live rs)
    then show ?thesis using stop same_maps_refl by auto
  next
    case (gc_stop_sent objs)
    then show ?thesis using stop retired_same_maps by auto
  qed (use pc in auto)
  then show "d' = g_done s" "same_maps (g_st s) st'" "t_out st' = t_out (g_st s)" "gc_inv (s\<lparr>g_pc := pc', g_st := st', g_sent := n'\<rparr>)" by simp_all
qed

lemma put_ok_new: "put_ok (new_put_req p n)"
  by (simp add: put_ok_def batch_ok_def new_put_req_def ranges_ok_def)

lemma gc_erase_step:
  assumes inv: "gc_inv s" and pc: "g_pc s = Gc_erase S"
    and st: "gc_step (\<lambda>_. False) rd mem0 (g_pc s, g_st s, g_sent s, g_done s) (pc', st', n', d')"
  shows "n' = g_sent s" "d' = g_done s" "same_maps (g_st s) st'" "t_out st' = t_out (g_st s)" "gc_inv (s\<lparr>g_pc := pc', g_st := st'\<rparr>)"
proof -
  note I = gc_invD [OF inv]
  note B = g_baseD [OF I(1)]
  have ph: "untouched (g_st s) (fst ` set S)" using I(3) pc by simp
  have "n' = g_sent s \<and> d' = g_done s \<and> same_maps (g_st s) st' \<and> t_out st' = t_out (g_st s) \<and> gc_inv (s\<lparr>g_pc := pc', g_st := st'\<rparr>)"
    using st
  proof cases
    case (gc_erase objs p)
    have e: "objs = S" "pc' = Gc_ckpt S" "st' = checkpoint p (gc_retire S (g_st s))" using gc_erase pc by simp_all
    note R = retired_same_maps [where st = "g_st s" and S = S]
    have sm: "same_maps (g_st s) st'" using R(1) by (simp add: same_maps_def e checkpoint_def roll_batch_def Let_def)
    obtain xs where xs: "t_queue st' = t_queue (g_st s) @ xs @ [new_req REQ_CKPT]" "set xs \<subseteq> {t_current (g_st s)}"
      "put_ok (t_current st')" "filter is_gc xs = []"
    proof (cases "0 < tr_len (t_current (g_st s))")
      case True
      then show thesis using R(2,3) B(12) put_ok_new [of p]
        by (intro that [of "[t_current (g_st s)]"]) (simp_all add: e(3) checkpoint_def roll_batch_def Let_def put_ok_def)
    next
      case False
      then show thesis using R(2,3) B(12) by (intro that [of "[]"]) (simp_all add: e(3) checkpoint_def Let_def)
    qed
    have base: "g_base st' (g_objs s)" by (rule same_maps_base [OF I(1) sm]) (use B(12,13) xs in \<open>auto simp: new_req_def\<close>)
    have nq: "filter is_gc (t_queue (g_st s)) = []" using I(6) pc by auto
    have ck: "ckpt_queued st'" by (simp add: ckpt_queued_def xs(1) new_req_def)
    have al: "gc_alive (s\<lparr>g_pc := pc', g_st := st'\<rparr>) = []" using nq xs(4) by (simp add: gc_alive_def e(2) xs(1) new_req_def)
    have "gc_inv (s\<lparr>g_pc := pc', g_st := st'\<rparr>)"
      unfolding gc_inv_def al using base ph I(4,5) nq xs ck same_mapsD(1) [OF sm] by (simp add: e(2) reqs_ok_def new_req_def)
    then show ?thesis using gc_erase sm R(4) by (simp add: e checkpoint_def roll_batch_def Let_def)
  next
    case (gc_stop_erase objs)
    have "gc_inv (s\<lparr>g_pc := Gc_exit, g_st := gc_retire S (g_st s)\<rparr>)"
      by (rule inv_pc [OF inv]) (simp_all add: pc retired_same_maps)
    then show ?thesis using gc_stop_erase pc retired_same_maps by simp
  qed (use pc in auto)
  then show "n' = g_sent s" "d' = g_done s" "same_maps (g_st s) st'" "t_out st' = t_out (g_st s)" "gc_inv (s\<lparr>g_pc := pc', g_st := st'\<rparr>)" by simp_all
qed

lemma step_gc:
  assumes inv: "gc_inv s" and rd: "reads_store rd (t_name (g_st s)) (g_objs s)"
    and st: "gc_step (\<lambda>_. False) rd mem0 (g_pc s, g_st s, g_sent s, g_done s) (pc', st', n', d')"
  shows "gc_inv (s\<lparr>g_pc := pc', g_st := st', g_sent := n', g_done := d'\<rparr>)" "same_maps (g_st s) st'"
proof -
  have "gc_inv (s\<lparr>g_pc := pc', g_st := st', g_sent := n', g_done := d'\<rparr>) \<and> same_maps (g_st s) st'"
  proof (cases "g_pc s")
    case (Gc_read S live)
    then show ?thesis using gc_read_step [OF inv rd Gc_read st] by simp
  next
    case (Gc_send S rs)
    then show ?thesis using gc_send_step [OF inv Gc_send st] by simp
  next
    case (Gc_erase S)
    then show ?thesis using gc_erase_step [OF inv Gc_erase st] by simp
  next
    case Gc_exit
    show ?thesis using st by cases (use Gc_exit in simp_all)
  qed (use gc_plain_step [OF inv st] in simp_all)
  then show "gc_inv (s\<lparr>g_pc := pc', g_st := st', g_sent := n', g_done := d'\<rparr>)" "same_maps (g_st s) st'" by simp_all
qed

text \<open>Every step keeps the invariant and does to the volume what its event says.\<close>

lemma gstep_sound:
  assumes inv: "gc_inv s" and st: "gstep zcrc s e s'"
  shows "gc_inv s' \<and> (\<forall>x j. 0 \<le> j \<longrightarrow> j < 512 \<longrightarrow> stored s' x j = vol_event e (stored s) x j)"
  using st
proof cases
  case (gs_gc rd mem0 pc' st' n' d')
  note G = step_gc [OF inv gs_gc(4,3)]
  then show ?thesis using gs_gc by (simp add: stored_def same_maps_def)
next
  case (gs_put r q st' pf n bs' nm bs r')
  then show ?thesis using step_put [OF inv gs_put(3-7)] by simp
next
  case (gs_gcput r q st' nm bs r')
  then show ?thesis using step_gcput [OF inv gs_gcput(3-8)] by simp
next
  case (gs_flush r q st')
  moreover have "t_objmap st' = t_objmap (g_st s)" using gs_flush(3-5) by (auto simp: worker_step_def Let_def split: if_splits)
  ultimately show ?thesis using step_flush [OF inv gs_flush(3-5)] by (simp add: stored_def)
next
  case (gs_ckpt r q st')
  then show ?thesis using step_ckpt [OF inv gs_ckpt(3-6)] by simp
next
  case (gs_gc_done r u)
  then show ?thesis using step_notify [OF inv, of "Suc (g_done s)"] by (simp add: stored_def notify_fields)
next
  case (gs_put_done r u)
  then show ?thesis using step_notify [OF inv, of "g_done s"] gc_invD(5) [OF inv] by (simp add: stored_def notify_fields)
next
  case (gs_trim off len u st')
  then show ?thesis using step_trim [OF inv gs_trim(3-6)] by simp
next
  case (gs_client c rs bm mem pins)
  then show ?thesis using step_client [OF inv gs_client(3,4)] by (simp add: stored_def)
qed

lemma vol_event_cong: "(\<And>x j. 0 \<le> j \<Longrightarrow> j < 512 \<Longrightarrow> v x j = w x j) \<Longrightarrow> 0 \<le> j \<Longrightarrow> j < 512 \<Longrightarrow> vol_event e v x j = vol_event e w x j"
  by (cases e) (simp_all split: option.split)

lemma vol_events_cong:
  assumes "\<And>x j. 0 \<le> j \<Longrightarrow> j < 512 \<Longrightarrow> v x j = w x j" "0 \<le> j" "j < 512"
  shows "fold vol_event es v x j = fold vol_event es w x j"
  using assms
proof (induction es arbitrary: v w)
  case (Cons e es)
  have "fold vol_event es (vol_event e v) x j = fold vol_event es (vol_event e w) x j"
    by (rule Cons.IH [OF vol_event_cong [OF Cons.prems(1)] Cons.prems(2,3)])
  then show ?case by simp
qed simp

lemma gsteps_sound:
  assumes "gsteps zcrc s es s'" "gc_inv s"
  shows "gc_inv s' \<and> (\<forall>x j. 0 \<le> j \<longrightarrow> j < 512 \<longrightarrow> stored s' x j = fold vol_event es (stored s) x j)"
  using assms
proof (induction rule: gsteps.induct)
  case (gsteps_step s e s' es s'')
  have a: "gc_inv s'" "\<And>x j. 0 \<le> j \<Longrightarrow> j < 512 \<Longrightarrow> stored s' x j = vol_event e (stored s) x j"
    using gstep_sound [OF gsteps_step.prems gsteps_step.hyps(1)] by simp_all
  have "fold vol_event es (stored s') x j = fold vol_event es (vol_event e (stored s)) x j" if "0 \<le> j" "j < 512" for x j
    by (rule vol_events_cong [of "stored s'" "vol_event e (stored s)", OF a(2) that])
  then show ?case using gsteps_step.IH [OF a(1)] by simp
qed simp

section \<open>The state a volume opens in\<close>

definition gc_opened :: "tstate \<Rightarrow> (int \<Rightarrow> byte list) \<Rightarrow> (int \<Rightarrow> obj_offset option) \<Rightarrow> gsys" where
  "gc_opened st objs ck = \<lparr>g_pc = Gc_sleep, g_st = st, g_sent = 0, g_wrote = 0, g_done = 0, g_objs = objs, g_ckpt = ck\<rparr>"

text \<open>A volume that was recovered from a checkpoint, with the objects of its table in the store.\<close>

definition gc_open_ok :: "lsvd_config \<Rightarrow> byte list \<Rightarrow> objmap \<Rightarrow> int \<Rightarrow> (int, data_obj_info) rbt \<Rightarrow> int list \<Rightarrow> (int \<Rightarrow> byte list) \<Rightarrow> bool" where
  "gc_open_ok cfg uuid om last_seq info ckpts objs \<longleftrightarrow>
     512 \<le> backend_obj_bytes cfg \<and> length uuid = 16 \<and> objmap_ok om \<and> live_ok info om \<and> 0 \<le> last_seq \<and> last_seq + 1 < 2 ^ 31
     \<and> (\<forall>x q. obj_look om x = Some q \<longrightarrow> x < 2 ^ 35 \<and> 0 \<le> obj q \<and> obj q \<le> last_seq \<and> 512 * (offset q + 1) \<le> int (length (objs (obj q))))
     \<and> (\<forall>ob n. obj_size info ob = Some n \<longrightarrow> 0 \<le> ob \<and> ob \<le> last_seq \<and> 0 \<le> n \<and> int (length (objs ob)) = n * 512)
     \<and> ckpts \<noteq> [] \<and> (\<forall>c\<in>set ckpts. 0 \<le> c \<and> c \<le> last_seq \<and> (\<forall>x q. obj_look om x = Some q \<longrightarrow> obj q \<noteq> c))"

lemma gc_opened_inv:
  assumes ok: "gc_open_ok cfg uuid om last_seq info ckpts objs"
  shows "gc_inv (gc_opened (make_translate name cfg vol uuid mem om bm last_seq [] info ckpts p) objs ck)"
proof -
  let ?st = "make_translate name cfg vol uuid mem om bm last_seq [] info ckpts p"
  note O = ok [unfolded gc_open_ok_def]
  have u: "ubf 32 (last_seq + 1) = last_seq + 1" using O by (intro ubf_id) auto
  have f: "t_objmap ?st = om" "t_object_info ?st = info" "t_uuid ?st = uuid" "t_clones ?st = []" "t_cur_seq ?st = last_seq + 1" "t_cfg ?st = cfg"
    "t_checkpoints ?st = ckpts" "t_current ?st = new_put_req p (backend_obj_bytes cfg)" "t_queue ?st = []" by (simp_all add: make_translate_def u)
  have le: "a < last_seq + 1 \<longleftrightarrow> a \<le> last_seq" for a by linarith
  have "g_base ?st objs" using O put_ok_new unfolding g_base_def f le by simp
  then show ?thesis by (simp add: gc_inv_def gc_opened_def gc_alive_def reqs_ok_def ckpt_queued_def make_translate_def)
qed

section \<open>Deletions\<close>

fun del_name :: "be_req \<Rightarrow> string option" where
  "del_name (Be_delete nm) = Some nm"
| "del_name (Aio_delete nm) = Some nm"
| "del_name b = None"

text \<open>The objects a step deletes: nothing is mapped to them, and the checkpoint does not need those that were cleaned.\<close>

definition garbage :: "gsys \<Rightarrow> be_req \<Rightarrow> bool" where
  "garbage s b \<longleftrightarrow> (\<forall>nm. del_name b = Some nm \<longrightarrow> (\<exists>ob. nm = oname (t_name (g_st s)) ob \<and> u32 ob
     \<and> (\<forall>x q. obj_look (t_objmap (g_st s)) x = Some q \<longrightarrow> obj q \<noteq> ob)
     \<and> (\<forall>S. g_pc s = Gc_delete S \<longrightarrow> (\<forall>x q. g_ckpt s x = Some q \<longrightarrow> obj q \<noteq> ob))))"

lemma untouched_garbage:
  assumes "g_base (g_st s) objs" "untouched (g_st s) A" "ob \<in> A" "del_name b = Some (oname (t_name (g_st s)) ob)"
    "\<And>S x q. g_pc s = Gc_delete S \<Longrightarrow> g_ckpt s x = Some q \<Longrightarrow> obj q \<noteq> ob"
  shows "garbage s b"
proof -
  have "u32 ob" using assms(2,3) g_baseD(6) [OF assms(1)] by (auto simp: u32_def untouched_def)
  then have "oname (t_name (g_st s)) ob = oname (t_name (g_st s)) ob \<and> u32 ob
     \<and> (\<forall>x q. obj_look (t_objmap (g_st s)) x = Some q \<longrightarrow> obj q \<noteq> ob)
     \<and> (\<forall>S. g_pc s = Gc_delete S \<longrightarrow> (\<forall>x q. g_ckpt s x = Some q \<longrightarrow> obj q \<noteq> ob))"
    using assms(2,3,5) by (auto simp: untouched_def)
  then show ?thesis unfolding garbage_def assms(4) option.inject by blast
qed

lemma gc_outputs:
  assumes inv: "gc_inv s" and rd: "reads_store rd (t_name (g_st s)) (g_objs s)"
    and st: "gc_step (\<lambda>_. False) rd mem0 (g_pc s, g_st s, g_sent s, g_done s) (pc', st', n', d')"
  obtains new where "t_out st' = t_out (g_st s) @ new" "\<forall>b\<in>set new. garbage s b"
proof -
  note I = gc_invD [OF inv]
  note B = g_baseD [OF I(1)]
  have none: "t_out st' = t_out (g_st s) \<Longrightarrow> thesis" using that [of "[]"] by simp
  show thesis using st
  proof cases
    case (gc_start max_obj dead)
    then show thesis by (intro none) (auto simp: gc_begin_def Let_def)
  next
    case (gc_reap dead max_obj)
    let ?new = "map (\<lambda>ob. Aio_delete (oname (t_name (g_st s)) ob)) (filter (\<lambda>ob. \<not> pinned (g_st s) ob) dead)"
    have un: "untouched (g_st s) (set dead)" using I(3) gc_reap by simp
    show thesis
    proof (rule that [of ?new])
      show "t_out st' = t_out (g_st s) @ ?new" using gc_reap gc_delete_dead_spec [OF B(4), of dead] by auto
      show "\<forall>b\<in>set ?new. garbage s b" using untouched_garbage [OF I(1) un] gc_reap by auto
    qed
  next
    case (gc_drop max_obj dead)
    then show thesis by (intro none) (simp add: gc_forget_def)
  next
    case (gc_read objs live rs)
    then show thesis using gc_read_step(4) [OF inv rd _ st, of objs live] by (intro none) simp
  next
    case (gc_stop_read k objs fm content live)
    then show thesis using gc_read_step(4) [OF inv rd _ st, of objs live] by (intro none) simp
  next
    case (gc_delete objs)
    let ?new = "map (\<lambda>(ob, n). Be_delete (oname (t_name (g_st s)) ob)) (filter (\<lambda>(ob, n). \<not> pinned (g_st s) ob) objs)"
    have un: "untouched (g_st s) (fst ` set objs)" "ckpt_free s objs" using I(3) gc_delete by simp_all
    show thesis
    proof (rule that [of ?new])
      show "t_out st' = t_out (g_st s) @ ?new" using gc_delete gc_delete_objs_spec [OF B(4), of objs] by auto
      have "garbage s (Be_delete (oname (t_name (g_st s)) ob))" if "(ob, n) \<in> set objs" for ob n
        by (rule untouched_garbage [OF I(1) un(1), of ob]) (use that un(2) gc_delete in \<open>force simp: ckpt_free_def\<close>)+
      then show "\<forall>b\<in>set ?new. garbage s b" by auto
    qed
  next
    case (gc_erase objs p)
    then show thesis using gc_erase_step(4) [OF inv _ st, of objs] by (intro none) simp
  next
    case (gc_stop_sent objs)
    then show thesis by (intro none) (simp add: retired_same_maps)
  next
    case (gc_stop_erase objs)
    then show thesis by (intro none) (simp add: retired_same_maps)
  qed (auto intro: none)
qed

lemma gstep_outputs:
  assumes inv: "gc_inv s" and st: "gstep zcrc s e s'"
  obtains new where "t_out (g_st s') = t_out (g_st s) @ new" "\<forall>b\<in>set new. garbage s b"
proof -
  note I = gc_invD [OF inv]
  note B = g_baseD [OF I(1)]
  have none: "t_out (g_st s') = t_out (g_st s) \<Longrightarrow> thesis" using that [of "[]"] by simp
  have nodel: "garbage s b" if "del_name b = None" for b using that by (simp add: garbage_def)
  show thesis using st
  proof cases
    case (gs_gc rd mem0 pc' st' n' d')
    show thesis by (rule gc_outputs [OF inv gs_gc(4,3)]) (use gs_gc in \<open>auto intro: that\<close>)
  next
    case (gs_put r q st' pf n bs' nm bs r')
    then show thesis using nodel by (intro that [of "[Rcache_insert pf n bs', Aio_write nm bs r']"]) auto
  next
    case (gs_gcput r q st' nm bs r')
    then show thesis using nodel by (intro that [of "[Aio_write nm bs r']"]) auto
  next
    case (gs_flush r q st')
    then show thesis by (intro none) (auto simp: worker_step_def Let_def split: if_splits)
  next
    case (gs_ckpt r q st')
    let ?cs = "snd (keep_ckpts (t_checkpoints (g_st s) @ [t_cur_seq (g_st s)]))"
    obtain b sb where out: "t_out st' = t_out (g_st s) @ [Be_write (oname (t_name (g_st s)) (t_cur_seq (g_st s))) b, Be_write (t_name (g_st s)) sb]
        @ map (\<lambda>c. Be_delete (oname (t_name (g_st s)) c)) ?cs" using step_ckpt(3) [OF inv gs_ckpt(3-6)] by blast
    have cs: "c \<in> set (t_checkpoints (g_st s))" if "c \<in> set ?cs" for c
      using that B(10) by (auto simp: keep_ckpts_def dest: in_set_takeD)
    have "\<not> (\<exists>S. g_pc s = Gc_delete S)" using I(7) gs_ckpt by (auto simp: ckpt_queued_def)
    then have "garbage s (Be_delete (oname (t_name (g_st s)) c))" if "c \<in> set ?cs" for c
      using B(6) B(11) [OF cs [OF that]] by (auto simp: garbage_def u32_def)
    then show thesis using out nodel gs_ckpt
      by (intro that [of "[Be_write (oname (t_name (g_st s)) (t_cur_seq (g_st s))) b, Be_write (t_name (g_st s)) sb]
        @ map (\<lambda>c. Be_delete (oname (t_name (g_st s)) c)) ?cs"]) auto
  next
    case (gs_trim off len u st')
    then show thesis using step_trim(3) [OF inv gs_trim(3-6)] by (intro none) simp
  qed (auto intro: none simp: notify_fields)
qed

end
