(* ===== verification/Gc_Safety.thy ===== *)
theory Gc_Safety
  imports Gc_Correct
begin

text \<open>
  The properties of the garbage collector, and the places where it does not do what its comments say.
\<close>

section \<open>What the last checkpoint names\<close>

lemma gstep_ckpt_u32:
  assumes "gstep zcrc s e s'" "gc_inv s" "\<forall>x q. g_ckpt s x = Some q \<longrightarrow> u32 (obj q)"
  shows "\<forall>x q. g_ckpt s' x = Some q \<longrightarrow> u32 (obj q)"
  using assms(1)
proof cases
  case (gs_ckpt r q st')
  note B = g_baseD [OF gc_invD(1) [OF assms(2)]]
  have "u32 (obj q)" if "obj_look (t_objmap (g_st s)) x = Some q" for x q using B(6) B(8) [OF that] by (simp add: u32_def)
  then show ?thesis using gs_ckpt by simp
qed (use assms(3) in simp_all)

lemma gsteps_inv:
  assumes "gsteps zcrc s es s'" "gc_inv s" "\<forall>x q. g_ckpt s x = Some q \<longrightarrow> u32 (obj q)"
  shows "gc_inv s' \<and> (\<forall>x q. g_ckpt s' x = Some q \<longrightarrow> u32 (obj q))"
  using assms
proof (induction rule: gsteps.induct)
  case (gsteps_step s e s' es s'')
  then show ?case using gstep_sound [OF gsteps_step.prems(1) gsteps_step.hyps(1)] gstep_ckpt_u32 [OF gsteps_step.hyps(1)] by simp
qed simp

text \<open>The state after opening: the map is that of the last checkpoint.\<close>

definition gc_start_state :: "string \<Rightarrow> lsvd_config \<Rightarrow> int \<Rightarrow> byte list \<Rightarrow> memory \<Rightarrow> objmap \<Rightarrow> int \<Rightarrow> (int, data_obj_info) rbt \<Rightarrow> int list \<Rightarrow>
    int \<Rightarrow> (int \<Rightarrow> byte list) \<Rightarrow> gsys" where
  "gc_start_state name cfg vol uuid mem om last_seq info ckpts p objs =
     gc_opened (make_translate name cfg vol uuid mem om extmap_empty last_seq [] info ckpts p) objs (obj_look om)"

lemma gc_start_inv:
  assumes "gc_open_ok cfg uuid om last_seq info ckpts objs"
  shows "gc_inv (gc_start_state name cfg vol uuid mem om last_seq info ckpts p objs)"
    "\<forall>x q. g_ckpt (gc_start_state name cfg vol uuid mem om last_seq info ckpts p objs) x = Some q \<longrightarrow> u32 (obj q)"
proof -
  show "gc_inv (gc_start_state name cfg vol uuid mem om last_seq info ckpts p objs)"
    unfolding gc_start_state_def by (rule gc_opened_inv [OF assms])
  have "u32 (obj q)" if "obj_look om x = Some q" for x q using assms that unfolding gc_open_ok_def u32_def by fastforce
  then show "\<forall>x q. g_ckpt (gc_start_state name cfg vol uuid mem om last_seq info ckpts p objs) x = Some q \<longrightarrow> u32 (obj q)"
    by (simp add: gc_start_state_def gc_opened_def)
qed

section \<open>Correctness\<close>



lemma gc_can_step:
  assumes inv: "gc_inv s" and rd: "reads_store rd (t_name (g_st s)) (g_objs s)"
  shows "(\<exists>pc' st' n'. pc' \<noteq> Gc_exit \<and> gc_step (\<lambda>_. False) rd mem0 (g_pc s, g_st s, g_sent s, g_done s) (pc', st', n', g_done s))
      \<or> g_pc s = Gc_exit \<or> (\<exists>S. g_pc s = Gc_send S [] \<and> g_done s < g_sent s) \<or> (\<exists>S. g_pc s = Gc_ckpt S \<and> ckpt_queued (g_st s))"
proof -
  note I = gc_invD [OF inv]
  note B = g_baseD [OF I(1)]
  let ?go = "\<lambda>pc' st' n'. gc_step (\<lambda>_. False) rd mem0 (g_pc s, g_st s, g_sent s, g_done s) (pc', st', n', g_done s)"
  have go: "?thesis" if "?go pc' st' n'" "pc' \<noteq> Gc_exit" for pc' st' n' using that by blast
  show ?thesis
  proof (cases "g_pc s")
    case Gc_sleep
    obtain m dead st' where st': "gc_begin (g_st s) = (m, dead, st')" using prod_cases3 by blast
    have "?go (Gc_reap m dead) st' (g_sent s)" unfolding Gc_sleep by (rule gc_start [OF st'])
    from go [OF this] show ?thesis by simp
  next
    case (Gc_reap m dead)
    obtain st' where st': "gc_delete_dead dead (g_st s) = Some st'" using gc_delete_dead_spec [OF B(4), of dead] by blast
    have "?go (Gc_drop m dead) st' (g_sent s)" unfolding Gc_reap by (rule gc_reap [OF st'])
    from go [OF this] show ?thesis by simp
  next
    case (Gc_drop m dead)
    have "?go (Gc_pick m) (gc_forget dead (g_st s)) (g_sent s)" unfolding Gc_drop by (rule gc_drop)
    from go [OF this] show ?thesis by simp
  next
    case (Gc_pick m)
    let ?S = "gc_choose (gc_last_ckpt (g_st s)) (g_st s)"
    have "?go (if ?S = [] then Gc_sleep else Gc_scan m ?S) (g_st s) (g_sent s)" unfolding Gc_pick using gc_none gc_some by auto
    from go [OF this] show ?thesis by simp
  next
    case (Gc_scan m S)
    let ?l = "gc_live_extents m S (t_objmap (g_st s))"
    have "?go (if 0 < size_map ?l then Gc_read S ?l else Gc_erase S) (g_st s) (g_sent s)" unfolding Gc_scan by (rule gc_scan [OF refl])
    from go [OF this] show ?thesis by simp
  next
    case (Gc_read S live)
    have ph: "picked (g_st s) (g_objs s) S" "live_fits S live" using I(3) Gc_read by simp_all
    have sz: "\<forall>(ob, n)\<in>set S. 0 \<le> n \<and> int (length (g_objs s ob)) = n * 512" using ph(1) by (auto simp: picked_def)
    obtain rs m where r: "gc_requests (\<lambda>_. False) rd (mem0 (gc_buf_sectors S (g_st s) * 512)) S live (g_st s) = Some (rs, (g_st s)\<lparr>t_gc_sectors_read := m\<rparr>)"
      by (rule gc_requests_spec [OF rd B(4) _ ph(2) sz B(7), where full = "\<lambda>_. False"]) auto
    have "?go (Gc_send S rs) ((g_st s)\<lparr>t_gc_sectors_read := m\<rparr>) (g_sent s)" unfolding Gc_read by (rule gc_read) (rule r)
    from go [OF this] show ?thesis by simp
  next
    case (Gc_send S rs)
    show ?thesis
    proof (cases rs)
      case Nil
      have "g_done s \<le> g_sent s" using I(4,5) by linarith
      moreover have "?go (Gc_erase S) (g_st s) (g_sent s)" if "g_done s = g_sent s" unfolding Gc_send Nil that by (rule gc_sent)
      ultimately show ?thesis using go Gc_send Nil by (cases "g_done s = g_sent s") auto
    next
      case (Cons r rs')
      have "?go (Gc_send S rs') ((g_st s)\<lparr>t_queue := t_queue (g_st s) @ [r]\<rparr>) (Suc (g_sent s))" unfolding Gc_send Cons by (rule gc_send)
      from go [OF this] show ?thesis by simp
    qed
  next
    case (Gc_erase S)
    have "?go (Gc_ckpt S) (checkpoint 0 (gc_retire S (g_st s))) (g_sent s)" unfolding Gc_erase by (rule gc_erase)
    from go [OF this] show ?thesis by simp
  next
    case (Gc_ckpt S)
    have "?go (Gc_delete S) (g_st s) (g_sent s)" if "\<not> ckpt_queued (g_st s)" unfolding Gc_ckpt using that by (intro gc_ckpt) (simp add: ckpt_queued_def)
    then show ?thesis using go Gc_ckpt by (cases "ckpt_queued (g_st s)") auto
  next
    case (Gc_delete S)
    obtain st' where st': "gc_delete_objs S (g_st s) = Some st'" using gc_delete_objs_spec [OF B(4), of S] by blast
    have "?go Gc_sleep st' (g_sent s)" unfolding Gc_delete by (rule gc_delete [OF st'])
    from go [OF this] show ?thesis by simp
  qed simp
qed

lemma gc_worker_runs:
  assumes inv: "gc_inv s" and q: "t_queue (g_st s) = r # q" "is_gc r" and seq: "t_cur_seq (g_st s) + 1 < 2 ^ 31"
    and fits: "gc_fits (t_objmap (g_st s)) r"
  shows "worker_step zcrc (g_st s) \<noteq> None"
proof -
  note I = gc_invD [OF inv]
  note B = g_baseD [OF I(1)]
  let ?st = "(g_st s)\<lparr>t_queue := q, t_cur_seq := t_cur_seq (g_st s) + 1\<rparr>"
  have es: "gc_entries_ok (tr_entries r)" "holds (entry_ranges (tr_entries r)) (tr_gc_data r) (ent_byte (g_objs s) (tr_entries r))"
  proof -
    have "reqs_ok (g_st s) (g_objs s) (r # filter is_gc q @ pending (g_pc s))" using I(2) q by (simp add: gc_alive_def)
    then show "gc_entries_ok (tr_entries r)" "holds (entry_ranges (tr_entries r)) (tr_gc_data r) (ent_byte (g_objs s) (tr_entries r))"
      by (simp_all add: reqs_ok_def req_data_ok_def)
  qed
  have u: "ubf 32 (t_cur_seq (g_st s) + 1) = t_cur_seq (g_st s) + 1" using B(5) seq by (intro ubf_id) auto
  have pf: "prefix ?st (t_cur_seq (g_st s)) = Some (t_name (g_st s))" using B(4) by (simp add: prefix_def)
  have pre: "objmap_ok (t_objmap ?st)" "live_ok (t_object_info ?st) (t_objmap ?st)" "gc_fits (t_objmap ?st) r"
    "fresh_seq (t_cur_seq (g_st s)) (t_objmap ?st)" "length (t_uuid ?st) = 16" using B(1-3) fits base_fresh [OF I(1)] by simp_all
  have "write_gc zcrc (t_cur_seq (g_st s)) r ?st \<noteq> None"
    by (rule write_gc_run [OF pre(1,2) es pre(3-5) pf, where zcrc = zcrc]) (simp only: option.distinct not_False_eq_True)
  then show ?thesis using q by (simp add: worker_step_def Let_def u)
qed


section \<open>A run\<close>

text \<open>A volume with one object of four sectors, in the last checkpoint; its sectors are trimmed, and the collector starts.\<close>

definition demo_gc :: gsys where
  "demo_gc = gc_start_state ''vol'' demo_cfg (2 ^ 30) (replicate 16 7) (\<lambda>_. 0) (t_objmap demo_vol) 2 (t_object_info demo_vol) [2] 8192
     (\<lambda>_. replicate 6144 5)"

lemma demo_gc_ok: "gc_open_ok demo_cfg (replicate 16 7) (t_objmap demo_vol) 2 (t_object_info demo_vol) [2] (\<lambda>_. replicate 6144 5)"
proof -
  have "live_ok (t_object_info demo_vol) (t_objmap demo_vol)"
    using demo_vol_live(1) by (auto simp: live_ok_def live_count_def demo_vol_def split: if_splits)
  moreover have "obj_size (t_object_info demo_vol) ob = (if ob = 1 then Some 12 else None)" for ob
    by (simp add: obj_size_def demo_vol_def)
  ultimately show ?thesis by (auto simp: gc_open_ok_def demo_vol_ok demo_cfg_bytes split: if_splits)
qed

lemma demo_gc_inv: "gc_inv demo_gc"
  unfolding demo_gc_def by (rule gc_start_inv(1) [OF demo_gc_ok])

lemma demo_gc_fields: "t_objmap (g_st demo_gc) = t_objmap demo_vol" "t_out (g_st demo_gc) = []" "t_name (g_st demo_gc) = ''vol''"
  "g_pc demo_gc = Gc_sleep" "t_object_info (g_st demo_gc) = t_object_info demo_vol" "t_obj_read_refcount (g_st demo_gc) = RBT.empty"
  "g_ckpt demo_gc = obj_look (t_objmap demo_vol)" "t_clones (g_st demo_gc) = []" "g_objs demo_gc = (\<lambda>_. replicate 6144 5)"
  "t_name (g_st demo_gc) = ''vol''"
  by (simp_all add: demo_gc_def gc_start_state_def gc_opened_def make_translate_def)

lemma demo_gc_run:
  obtains s s' new where "gsteps zcrc demo_gc [G_trim 10 14, G_internal] s" "gstep zcrc s G_internal s'"
    "t_out (g_st s') = t_out (g_st s) @ new" "Aio_delete (oname ''vol'' 1) \<in> set new" "t_name (g_st s) = ''vol''"
    "g_ckpt s = obj_look (t_objmap demo_vol)" "g_objs s = (\<lambda>_. replicate 6144 5)"
proof -
  note I = gc_invD [OF demo_gc_inv]
  note B = g_baseD [OF I(1)]
  have rng: "(0::int) \<le> 5120" "5120 div 512 < (5120 + 2048) div (512::int)" "(5120 + 2048) div 512 \<le> obj_amax" by (simp_all add: obj_amax_def)
  obtain om info D where T: "trim_xl (Obj_offset 0 0) (g_st demo_gc) 5120 2048 = Some ((g_st demo_gc)\<lparr>t_objmap := om, t_object_info := info,
      t_total_live_sectors := t_total_live_sectors (g_st demo_gc) - tracked_len (t_object_info (g_st demo_gc)) D\<rparr>)"
    "objmap_ok om" "live_ok info om"
    "\<And>x. obj_look om x = (if 5120 div 512 \<le> x \<and> x < (5120 + 2048) div 512 then None else obj_look (t_objmap (g_st demo_gc)) x)"
    "\<And>ob. RBT.lookup info ob = map_option (\<lambda>oi. oi\<lparr>oi_live := oi_live oi - disc_count D ob\<rparr>) (RBT.lookup (t_object_info (g_st demo_gc)) ob)"
    by (rule trim_run [OF B(1,2) rng, where u = "Obj_offset 0 0"]) (rule that)
  let ?st1 = "(g_st demo_gc)\<lparr>t_objmap := om, t_object_info := info,
      t_total_live_sectors := t_total_live_sectors (g_st demo_gc) - tracked_len (t_object_info (g_st demo_gc)) D\<rparr>"
  let ?s1 = "demo_gc\<lparr>g_st := ?st1\<rparr>"
  have one: "gstep zcrc demo_gc (G_trim 10 14) ?s1" using gs_trim [OF rng T(1), of zcrc] by simp
  have no: "obj_look om x = None" for x using T(4) [of x] by (simp add: demo_gc_fields demo_vol_ok)
  obtain oi where oi: "RBT.lookup info 1 = Some oi" using T(5) [of 1] by (auto simp: demo_gc_fields demo_vol_def)
  have "oi_live oi = live_count om 1" using T(3) oi by (simp add: live_ok_def)
  then have "oi_live oi = 0" by (simp add: live_count_def live_set_def no)
  then have dead: "1 \<in> set (gc_dead ?st1)" using oi by (auto simp: gc_dead_def entries_lookup intro!: image_eqI [of _ fst "(1, oi)"])
  obtain m st2 where b: "gc_begin ?st1 = (m, gc_dead ?st1, st2)" "t_obj_read_refcount st2 = RBT.empty" "t_clones st2 = []" "t_name st2 = ''vol''"
    by (auto simp: gc_begin_def gc_dead_def Let_def demo_gc_fields)
  let ?rd = "\<lambda>nm off len. (0 :: int, take (nat len) (replicate 6144 (5 :: byte)))"
  have rd: "reads_store ?rd nm (\<lambda>_. replicate 6144 5)" for nm by (simp add: reads_store_def)
  let ?s2 = "?s1\<lparr>g_pc := Gc_reap m (gc_dead ?st1), g_st := st2\<rparr>"
  have "gstep zcrc ?s1 G_internal (?s1\<lparr>g_pc := Gc_reap m (gc_dead ?st1), g_st := st2, g_sent := g_sent ?s1, g_done := g_done ?s1\<rparr>)"
    by (rule gs_gc [where rd = ?rd and ?mem0.0 = "\<lambda>_. []"]) (use gc_start [OF b(1)] rd in \<open>simp_all add: demo_gc_fields\<close>)
  then have two: "gstep zcrc ?s1 G_internal ?s2" by simp
  let ?new = "map (\<lambda>ob. Aio_delete (oname (t_name st2) ob)) (filter (\<lambda>ob. \<not> pinned st2 ob) (gc_dead ?st1))"
  let ?st3 = "st2\<lparr>t_out := t_out st2 @ ?new\<rparr>"
  have "gstep zcrc ?s2 G_internal (?s2\<lparr>g_pc := Gc_drop m (gc_dead ?st1), g_st := ?st3, g_sent := g_sent ?s2, g_done := g_done ?s2\<rparr>)"
    by (rule gs_gc [where rd = ?rd and ?mem0.0 = "\<lambda>_. []"]) (use gc_reap [OF gc_delete_dead_spec [OF b(3)]] rd in \<open>simp_all add: demo_gc_fields\<close>)
  moreover have "Aio_delete (oname ''vol'' 1) \<in> set ?new" using dead b(2,4) by (auto simp: pinned_def)
  moreover have "gsteps zcrc demo_gc [G_trim 10 14, G_internal] ?s2" by (rule gsteps_step [OF one gsteps_step [OF two gsteps_refl]])
  ultimately show thesis using that [of ?s2 _ ?new] b(4) by (simp add: demo_gc_fields)
qed




section \<open>Where the collector goes wrong\<close>



definition demo_dead :: tstate where
  "demo_dead = demo_state\<lparr>t_object_info := RBT.insert 1 \<lparr>oi_hdr = 8, oi_data = 4, oi_live = 0\<rparr> RBT.empty\<rparr>"


text \<open>
  C40. Objects newer than the scan. An object that is chosen although its number is above the limit that
  the cycle took at its start is deleted without its live sectors having been copied: the scan skips
  them, and nothing checks again. On a volume without a checkpoint the choice is only bounded by the
  current sequence number, so that this happens to an object that was written, and mostly overwritten,
  after the cycle began.
\<close>

theorem gc_deletes_unscanned:
  assumes "objmap_ok (t_objmap st)" "t_clones st = []" "S = gc_choose (gc_last_ckpt st) st"
    and "obj_look (t_objmap st) x = Some q" "obj q \<in> fst ` set S" "max_obj < obj q" "\<not> pinned st (obj q)"
  shows "obj_look (gc_live_extents max_obj S (t_objmap st)) x = None
    \<and> (\<exists>st' new. gc_delete_objs S st = Some st' \<and> t_out st' = t_out st @ new \<and> Be_delete (oname (t_name st) (obj q)) \<in> set new)"
proof -
  have "obj_look (gc_live_extents max_obj S (t_objmap st)) x = None" using gc_live_extents_spec(2) [OF assms(1), of max_obj S x] assms(4,6) by simp
  moreover obtain k where "gc_delete_objs S st = Some (st\<lparr>t_out := t_out st
      @ map (\<lambda>(ob, n). Be_delete (oname (t_name st) ob)) (filter (\<lambda>(ob, n). \<not> pinned st ob) S), t_gc_deleted := k\<rparr>)"
    using gc_delete_objs_spec [OF assms(2), of S] by blast
  moreover have "Be_delete (oname (t_name st) (obj q)) \<in> set (map (\<lambda>(ob, n). Be_delete (oname (t_name st) ob)) (filter (\<lambda>(ob, n). \<not> pinned st ob) S))"
    using assms(5,7) by force
  ultimately show ?thesis by auto
qed

text \<open>Object 2 has one live sector of four; the cycle started when the sequence number was 1.\<close>

definition demo_newer :: tstate where
  "demo_newer = demo_state\<lparr>t_objmap := update lba2obj extmap_empty 10 11 (Obj_offset 2 8), t_cur_seq := 4,
     t_object_info := RBT.insert 2 \<lparr>oi_hdr = 8, oi_data = 4, oi_live = 1\<rparr> RBT.empty\<rparr>"

theorem gc_deletes_unscanned_witness:
  "obj_look (t_objmap demo_newer) 10 = Some (Obj_offset 2 8)
    \<and> obj_look (gc_live_extents 1 (gc_choose (gc_last_ckpt demo_newer) demo_newer) (t_objmap demo_newer)) 10 = None
    \<and> (\<exists>st' new. gc_delete_objs (gc_choose (gc_last_ckpt demo_newer) demo_newer) demo_newer = Some st'
        \<and> t_out st' = t_out demo_newer @ new \<and> Be_delete (oname ''vol'' 2) \<in> set new)"
proof -
  have "obj_pok (Obj_offset 2 8) (11 - 10)" by (simp add: obj_pok_def)
  from om.update_ok [OF map_ok_empty _ _ _ this]
  have m: "objmap_ok (t_objmap demo_newer)" "obj_look (t_objmap demo_newer) 10 = Some (Obj_offset 2 8)"
    by (simp_all add: demo_newer_def obj_amax_def map_upd_def obj_offset_plus_in)
  have c: "gc_choose (gc_last_ckpt demo_newer) demo_newer = [(2, 12)]"
    by (simp add: gc_choose_def gc_utilization_def gc_last_ckpt_def demo_newer_def rbt_entries_one demo_state_def make_translate_def demo_cfg_def get_default_def)
  have s: "t_clones demo_newer = []" "\<not> pinned demo_newer 2" "t_name demo_newer = ''vol''"
    by (simp_all add: demo_newer_def demo_state_def make_translate_def pinned_def)
  show ?thesis using gc_deletes_unscanned [OF m(1) s(1) refl m(2), of 1] m(2) s(2,3) by (simp add: c)
qed

end
