(* ===== verification/Image_Request.thy ===== *)
theory Image_Request
  imports Image_Read Write_Cache
begin

text \<open>
  The requests that clients make of an image (\<^verbatim>\<open>image.cc\<close>) and the reference counts that decide how long
  they live (\<^verbatim>\<open>request.h\<close>). An operation on a request that has been freed is \<open>None\<close>.
\<close>

section \<open>Reference counts\<close>

text \<open>
  \<^verbatim>\<open>aio_request\<close> with the count of its base class \<^verbatim>\<open>self_refcount_request\<close>. \<open>a_calls\<close> are the values that the
  callback got, in order.
\<close>

record aio_request =
  a_offset :: int
  a_iovs :: smartiov
  a_bytes :: int
  a_refcount :: int
  a_freed :: bool
  a_done :: bool
  a_calls :: "int list"

definition dec_and_free :: "'a aio_request_scheme \<Rightarrow> 'a aio_request_scheme option" where
  "dec_and_free r =
     (if a_freed r then None else Some (r\<lparr>a_refcount := a_refcount r - 1, a_freed := (a_refcount r = 1)\<rparr>))"

definition req_release :: "'a aio_request_scheme \<Rightarrow> 'a aio_request_scheme option" where
  "req_release r = dec_and_free r"

definition complete_request :: "int \<Rightarrow> 'a aio_request_scheme \<Rightarrow> 'a aio_request_scheme option" where
  "complete_request val r =
     (if a_freed r then None else dec_and_free (r\<lparr>a_calls := a_calls r @ [val], a_done := True\<rparr>))"

text \<open>\<^verbatim>\<open>wait\<close>, up to where it blocks and from where it goes on.\<close>

definition wait_enter :: "'a aio_request_scheme \<Rightarrow> 'a aio_request_scheme option" where
  "wait_enter r = (if a_freed r then None else Some (r\<lparr>a_refcount := a_refcount r + 1\<rparr>))"

definition wait_leave :: "'a aio_request_scheme \<Rightarrow> 'a aio_request_scheme option" where
  "wait_leave r = dec_and_free r"

section \<open>Reads\<close>

record read_request = aio_request +
  rd_num_subreqs :: int

definition image_read :: "int \<Rightarrow> smartiov \<Rightarrow> read_request" where
  "image_read off iovs =
     \<lparr>a_offset = off, a_iovs = iovs, a_bytes = bytes iovs, a_refcount = 2, a_freed = False, a_done = False, a_calls = [],
      rd_num_subreqs = 0\<rparr>"

definition read_notify :: "read_request \<Rightarrow> read_request option" where
  "read_notify r =
     (if a_freed r then None
      else let old = rd_num_subreqs r; r' = r\<lparr>rd_num_subreqs := old - 1\<rparr>
           in if 1 < old then Some r' else complete_request (sbf 32 (a_bytes r)) r')"

definition read_run ::
  "(int \<Rightarrow> string option) \<Rightarrow> bufmap \<Rightarrow> objmap \<Rightarrow> memory \<Rightarrow> read_request \<Rightarrow> (memory \<times> cache_read list \<times> read_request) option" where
  "read_run pf bm om mem r =
     (case handle_reads pf bm om mem (a_offset r) (a_iovs r) of
        None \<Rightarrow> None
      | Some (mem', reqs) \<Rightarrow>
          let r' = r\<lparr>rd_num_subreqs := int (length reqs)\<rparr>
          in if rd_num_subreqs r' = 0 then map_option (\<lambda>r''. (mem', reqs, r'')) (read_notify r')
             else Some (mem', reqs, r'))"

section \<open>Writes\<close>

record write_request = aio_request +
  wr_n_req :: int

definition image_write :: "int \<Rightarrow> smartiov \<Rightarrow> write_request" where
  "image_write off iovs =
     \<lparr>a_offset = off, a_iovs = iovs, a_bytes = bytes iovs, a_refcount = 2, a_freed = False, a_done = False, a_calls = [],
      wr_n_req = 0\<rparr>"

definition write_notify :: "write_request \<Rightarrow> wcache \<Rightarrow> (write_request \<times> wcache) option" where
  "write_notify r w =
     (if a_freed r then None
      else let old = wr_n_req r; r' = r\<lparr>wr_n_req := old - 1\<rparr>
           in if 1 < old then Some (r', w)
              else map_option (\<lambda>r''. (r'', release_room (a_bytes r div 512) w)) (complete_request 0 r'))"

text \<open>
  The pieces a write is split into, with the sector each is written to. \<open>max_sectors\<close> is positive where
  the loop is reached: the division before it traps otherwise.
\<close>

function write_pieces :: "int \<Rightarrow> int \<Rightarrow> smartiov \<Rightarrow> int \<Rightarrow> int \<Rightarrow> (int \<times> smartiov) list option" where
  "write_pieces max_sectors size_sectors iovs cur_offset s_offset =
     (if s_offset < size_sectors \<and> 0 < max_sectors
      then let n = min (size_sectors - s_offset) max_sectors
           in case iov_slice iovs (s_offset * 512) (s_offset * 512 + n * 512) of
                None \<Rightarrow> None
              | Some tmp \<Rightarrow>
                  map_option ((#) (cur_offset div 512, mk_smartiov tmp))
                    (write_pieces max_sectors size_sectors iovs (cur_offset + n * 512) (s_offset + max_sectors))
      else Some [])"
  by pat_completeness auto
termination by (relation "measure (\<lambda>(mx, sz, v, c, s). nat (sz - s))") auto

declare write_pieces.simps [simp del]

text \<open>The loop: each piece goes to the write cache; \<open>ps\<close> gives the addresses of new batch buffers.\<close>

fun write_loop ::
  "(nat \<Rightarrow> int) \<Rightarrow> (int \<times> smartiov) list \<Rightarrow> wcache \<Rightarrow> tstate \<Rightarrow> (dev_write list list \<times> wcache \<times> tstate) outcome" where
  "write_loop ps [] w st = Done ([], w, st)"
| "write_loop ps ((lba, iov) # qs) w st =
     (case wc_writev (ps 0) lba iov w st of
        Abort \<Rightarrow> Abort
      | Done (ws, w', st') \<Rightarrow>
          (case write_loop (\<lambda>i. ps (Suc i)) qs w' st' of
             Abort \<Rightarrow> Abort
           | Done (wss, w'', st'') \<Rightarrow> Done (ws # wss, w'', st'')))"

text \<open>
  \<^verbatim>\<open>run\<close> of a write. \<open>None\<close>: it waits, for room in the journal or for the uploads. \<open>Abort\<close>: the division by
  the size of a piece traps, or an assertion fails. The result has the device writes of every piece.
\<close>

definition write_run ::
  "(nat \<Rightarrow> int) \<Rightarrow> write_request \<Rightarrow> wcache \<Rightarrow> tstate \<Rightarrow> (write_request \<times> dev_write list list \<times> wcache \<times> tstate) outcome option" where
  "write_run ps r w st =
     (let size_sectors = a_bytes r div 512; max_sectors = wlog_chunk_bytes (t_cfg st) div 512
      in case reserve_room size_sectors w of
           None \<Rightarrow> None
         | Some w1 \<Rightarrow>
             if \<not> backend_backpressure st then None
             else if sbf 32 max_sectors = 0 then Some Abort
             else
               let r' = r\<lparr>wr_n_req := wr_n_req r + div_round_up size_sectors max_sectors\<rparr>
               in case write_pieces max_sectors size_sectors (a_iovs r) (a_offset r) 0 of
                    None \<Rightarrow> Some Abort
                  | Some qs \<Rightarrow>
                      (case write_loop ps qs w1 st of
                         Abort \<Rightarrow> Some Abort
                       | Done (wss, w2, st') \<Rightarrow> Some (Done (r', wss, w2, st'))))"

section \<open>Trims and flushes\<close>

definition image_trim :: "int \<Rightarrow> int \<Rightarrow> aio_request" where
  "image_trim off len =
     \<lparr>a_offset = off, a_iovs = [], a_bytes = len, a_refcount = 2, a_freed = False, a_done = False, a_calls = []\<rparr>"

definition trim_req_run :: "obj_offset \<Rightarrow> aio_request \<Rightarrow> tstate \<Rightarrow> (aio_request \<times> tstate) option" where
  "trim_req_run u r st =
     (case trim_xl u st (a_offset r) (a_bytes r) of
        None \<Rightarrow> None
      | Some st' \<Rightarrow> map_option (\<lambda>r'. (r', st')) (complete_request 0 r))"

definition image_flush :: "aio_request" where
  "image_flush =
     \<lparr>a_offset = 0, a_iovs = [], a_bytes = 0, a_refcount = 2, a_freed = False, a_done = False, a_calls = []\<rparr>"

text \<open>\<^verbatim>\<open>run\<close> of a flush: the part before it waits for the worker, and the part after.\<close>

definition flush_run :: "int \<Rightarrow> tstate \<Rightarrow> tstate" where
  "flush_run p st = flush p st"

definition flush_done :: "aio_request \<Rightarrow> aio_request option" where
  "flush_done r = complete_request 0 r"

section \<open>Completion of a write\<close>

text \<open>
  A device write of piece \<open>i\<close> completes: \<^verbatim>\<open>notify\<close> of the journal request of the piece, which notifies the
  write when no device write of the piece is missing. \<open>cnts\<close> has the missing device writes of every piece.
\<close>

definition dev_done :: "nat \<Rightarrow> int list \<times> write_request \<times> wcache \<Rightarrow> (int list \<times> write_request \<times> wcache) option" where
  "dev_done i = (\<lambda>(cnts, r, w).
     (let ((c, fin), w') = write_req_notify (cnts ! i) w; cnts' = cnts[i := c]
      in if fin then map_option (\<lambda>(r', w''). (cnts', r', w'')) (write_notify r w') else Some (cnts', r, w')))"

text \<open>
  The completion of a device write by the kernel (\<^verbatim>\<open>nvme.cc\<close>), with its result: a failure and a short
  write are logged, and then notified like a success.
\<close>

definition on_complete :: "int \<Rightarrow> nat \<Rightarrow> int list \<times> write_request \<times> wcache \<Rightarrow> (int list \<times> write_request \<times> wcache) option" where
  "on_complete result i s = dev_done i s"

definition on_fail :: "int \<Rightarrow> nat \<Rightarrow> int list \<times> write_request \<times> wcache \<Rightarrow> (int list \<times> write_request \<times> wcache) option" where
  "on_fail errnum i s = dev_done i s"

definition uring_completion :: "nat \<times> int \<Rightarrow> int list \<times> write_request \<times> wcache \<Rightarrow> (int list \<times> write_request \<times> wcache) option" where
  "uring_completion = (\<lambda>(i, res) s. if res < 0 then on_fail (- res) i s else on_complete res i s)"

fun uring_completions :: "(nat \<times> int) list \<Rightarrow> int list \<times> write_request \<times> wcache \<Rightarrow> (int list \<times> write_request \<times> wcache) option" where
  "uring_completions [] s = Some s"
| "uring_completions (e # es) s = (case uring_completion e s of None \<Rightarrow> None | Some s' \<Rightarrow> uring_completions es s')"

section \<open>Closing an image\<close>

text \<open>
  The destructor of an image: \<open>None\<close> while it waits for the journal; an exception; or the journal device
  with its checkpoint, and the translation layer with the checkpoint that \<^verbatim>\<open>shutdown\<close> asks for.
\<close>

definition image_close ::
  "(io_op \<Rightarrow> int option) \<Rightarrow> int \<Rightarrow> wcache \<Rightarrow> byte list \<Rightarrow> tstate \<Rightarrow> (exn + (byte list \<times> tstate)) option" where
  "image_close fail p w dev st =
     (case wc_flush w of
        None \<Rightarrow> None
      | Some w' \<Rightarrow>
          (case wc_write_checkpoint fail w' dev of
             Inl e \<Rightarrow> Some (Inl e)
           | Inr dev' \<Rightarrow> Some (Inr (dev', checkpoint p st))))"

end
