(* ===== verification/Image_Write.thy ===== *)
theory Image_Write
  imports Image_Request Pipeline_Correct
begin

text \<open>
  What a write request does: its pieces have the effect of the whole write, and its callback is called
  once, when all of its device writes are done.
\<close>

section \<open>The pieces\<close>

lemma mk_smartiov_addrs: "addrs (mk_smartiov s) = addrs s"
  by (induction s) (auto simp: mk_smartiov_def)

lemma disk_write_append: "disk_write (disk_write d off xs) (off + int (length xs)) ys = disk_write d off (xs @ ys)"
proof
  fix a
  show "disk_write (disk_write d off xs) (off + int (length xs)) ys a = disk_write d off (xs @ ys) a"
  proof (cases "off + int (length xs) \<le> a \<and> a < off + int (length xs) + int (length ys)")
    case True
    then have "\<not> nat (a - off) < length xs" "nat (a - off) - length xs = nat (a - (off + int (length xs)))" by linarith+
    then show ?thesis using True by (simp add: disk_write_def nth_append)
  next
    case False
    then show ?thesis by (auto simp: disk_write_def nth_append)
  qed
qed

lemma pieces_count:
  fixes sz s mx :: int
  assumes "0 < mx" "s < sz"
  shows "(sz - s + mx - 1) div mx = 1 + (if s + mx < sz then (sz - (s + mx) + mx - 1) div mx else 0)"
proof -
  have "sz - s + mx - 1 = (sz - s - 1) + 1 * mx" by simp
  then have "(sz - s + mx - 1) div mx = 1 + (sz - s - 1) div mx" using assms(1) by (metis add.commute div_mult_self1 less_irrefl)
  moreover have "(sz - s - 1) div mx = 0" if "\<not> s + mx < sz" using that assms by (intro div_pos_pos_trivial) auto
  ultimately show ?thesis by (simp add: algebra_simps)
qed

lemma take_pieces:
  fixes s sz mx :: int
  assumes "0 \<le> s" "0 < mx"
  shows "take (nat (512 * min (sz - s) mx)) (drop (nat (512 * s)) xs) @ take (nat (512 * (sz - (s + mx)))) (drop (nat (512 * (s + mx))) xs)
    = take (nat (512 * (sz - s))) (drop (nat (512 * s)) xs)"
proof (cases "mx \<le> sz - s")
  case True
  then have "nat (512 * (sz - s)) = nat (512 * mx) + nat (512 * (sz - (s + mx)))" "nat (512 * (s + mx)) = nat (512 * s) + nat (512 * mx)"
    using assms by (simp_all add: nat_add_distrib [symmetric] algebra_simps)
  then show ?thesis using True by (simp add: take_add add.commute)
next
  case False
  then have "min (sz - s) mx = sz - s" "nat (512 * (sz - (s + mx))) = 0" by simp_all
  then show ?thesis by simp
qed

lemma write_pieces_spec:
  assumes ok: "iov_ok iovs" and n: "512 * sz \<le> bytes iovs" and m: "0 < mx" and s: "0 \<le> s" and fit: "sz - s < 2 ^ 63"
  shows "\<exists>qs. write_pieces mx sz iovs (512 * c) s = Some qs
    \<and> concat (map (\<lambda>(lba, v). addrs v) qs) = take (nat (512 * (sz - s))) (drop (nat (512 * s)) (addrs iovs))
    \<and> (\<forall>d mem. disk_run d (map (\<lambda>(lba, v). Wrote lba (map mem (addrs v))) qs)
        = disk_write d (512 * c) (map mem (take (nat (512 * (sz - s))) (drop (nat (512 * s)) (addrs iovs)))))
    \<and> int (length qs) = (if s < sz then (sz - s + mx - 1) div mx else 0)
    \<and> (\<forall>(lba, v)\<in>set qs. iov_ok v \<and> 0 < bytes v \<and> bytes v \<le> 512 * mx \<and> bytes v mod 512 = 0)"
  using s fit
proof (induction "nat (sz - s)" arbitrary: s c rule: less_induct)
  case less
  show ?case
  proof (cases "s < sz")
    case False
    then have "write_pieces mx sz iovs (512 * c) s = Some []" by (simp add: write_pieces.simps [of mx sz iovs "512 * c" s])
    then show ?thesis using False by (auto simp: disk_write_def fun_eq_iff)
  next
    case True
    let ?n = "min (sz - s) mx" and ?A = "addrs iovs"
    have n0: "0 < ?n" "s + ?n \<le> sz" using True m by simp_all
    have lim: "(s + ?n) * 512 \<le> bytes iovs" using n mult_right_mono [OF n0(2), of 512] by simp
    have dist: "s * 512 + ?n * 512 = (s + ?n) * 512" by (simp only: distrib_right)
    note S = iov_slice_addrs [OF ok, of "s * 512" "s * 512 + ?n * 512", unfolded dist]
    let ?t = "slice_loop iovs (s * 512) ((s + ?n) * 512 - s * 512)"
    have pre: "0 \<le> s * 512" "s * 512 \<le> (s + ?n) * 512" using less.prems(1) n0(1) by simp_all
    have sl: "iov_slice iovs (s * 512) ((s + ?n) * 512) = Some ?t" "addrs ?t = take (nat (512 * ?n)) (drop (nat (512 * s)) ?A)" "iov_ok ?t"
      "length (addrs ?t) = nat (512 * ?n)"
      using S(1-4) [OF pre lim] by (simp_all add: algebra_simps)
    have "nat (sz - (s + mx)) < nat (sz - s)" using True m by simp
    from less.hyps [OF this, of "c + ?n"] less.prems m obtain qs where
      Q: "write_pieces mx sz iovs (512 * (c + ?n)) (s + mx) = Some qs"
      "concat (map (\<lambda>(lba, v). addrs v) qs) = take (nat (512 * (sz - (s + mx)))) (drop (nat (512 * (s + mx))) ?A)"
      "\<And>d mem. disk_run d (map (\<lambda>(lba, v). Wrote lba (map mem (addrs v))) qs)
        = disk_write d (512 * (c + ?n)) (map mem (take (nat (512 * (sz - (s + mx)))) (drop (nat (512 * (s + mx))) ?A)))"
      "int (length qs) = (if s + mx < sz then (sz - (s + mx) + mx - 1) div mx else 0)"
      "\<forall>(lba, v)\<in>set qs. iov_ok v \<and> 0 < bytes v \<and> bytes v \<le> 512 * mx \<and> bytes v mod 512 = 0" by auto
    let ?qs = "(c, mk_smartiov ?t) # qs" and ?rest = "take (nat (512 * (sz - (s + mx)))) (drop (nat (512 * (s + mx))) ?A)"
    have run: "write_pieces mx sz iovs (512 * c) s = Some ?qs"
      using True m sl(1) Q(1) unfolding write_pieces.simps [of mx sz iovs "512 * c" s] Let_def dist by (simp add: algebra_simps)
    have app: "addrs ?t @ ?rest = take (nat (512 * (sz - s))) (drop (nat (512 * s)) ?A)"
      unfolding sl(2) by (rule take_pieces [OF less.prems(1) m])
    have "disk_run d (map (\<lambda>(lba, v). Wrote lba (map mem (addrs v))) ?qs)
        = disk_write d (512 * c) (map mem (take (nat (512 * (sz - s))) (drop (nat (512 * s)) ?A)))" for d mem
    proof -
      have "512 * (c + ?n) = 512 * c + int (length (map mem (addrs ?t)))" using n0(1) sl(4) by (simp add: distrib_left)
      then have w: "disk_write (disk_write d (512 * c) (map mem (addrs ?t))) (512 * (c + ?n)) ys = disk_write d (512 * c) (map mem (addrs ?t) @ ys)" for ys
        using disk_write_append [of d "512 * c" "map mem (addrs ?t)" ys] by simp
      have "disk_run d (map (\<lambda>(lba, v). Wrote lba (map mem (addrs v))) ?qs) = disk_write d (512 * c) (map mem (addrs ?t) @ map mem ?rest)"
        by (simp only: list.map prod.case disk_run.simps mk_smartiov_addrs Q(3) w)
      then show ?thesis by (simp only: map_append [symmetric] app)
    qed
    moreover have "concat (map (\<lambda>(lba, v). addrs v) ?qs) = take (nat (512 * (sz - s))) (drop (nat (512 * s)) ?A)"
      using app Q(2) by (simp add: mk_smartiov_addrs)
    moreover have "int (length ?qs) = (if s < sz then (sz - s + mx - 1) div mx else 0)"
      using Q(4) pieces_count [OF m True] True by simp
    moreover have "\<forall>(lba, v)\<in>set ?qs. iov_ok v \<and> 0 < bytes v \<and> bytes v \<le> 512 * mx \<and> bytes v mod 512 = 0"
    proof -
      have "iov_ok (mk_smartiov ?t)" using sl(3) by (auto simp: iov_ok_def mk_smartiov_addrs) (simp add: mk_smartiov_def list_all_iff)
      then have "bytes (mk_smartiov ?t) = 512 * ?n" "iov_ok (mk_smartiov ?t)" using bytes_addrs sl(4) n0(1) by (simp_all add: mk_smartiov_addrs)
      then show ?thesis using Q(5) n0(1) by auto
    qed
    ultimately show ?thesis using run by (intro exI [of _ ?qs]) blast
  qed
qed

text \<open>
  C10. Splitting is invisible. A write is cut into pieces of at most \<^verbatim>\<open>wlog_chunk_bytes\<close>, each written to the
  translation layer on its own. For an aligned write on an open volume the cut never fails; it has as many
  pieces as the request counts, none empty and none larger than the limit; and the state after all the
  pieces is, as a disk, the state after one write of the whole buffer at the requested offset.
\<close>

theorem split_write_equiv:
  assumes "open_ok cfg uuid om last_seq info p"
    and "psteps zcrc (opened name cfg vol uuid mem om last_seq info ckpts p objs) es s"
    and "iov_ok iovs" "bytes iovs mod 512 = 0" "512 \<le> chunk" "chunk < 2 ^ 39" "bytes iovs < 2 ^ 39"
  shows "\<exists>qs. write_pieces (chunk div 512) (bytes iovs div 512) iovs (512 * lba) 0 = Some qs
    \<and> int (length qs) = div_round_up (bytes iovs div 512) (chunk div 512)
    \<and> (\<forall>(b, v)\<in>set qs. 0 < bytes v \<and> bytes v \<le> chunk)
    \<and> (\<forall>s'. psteps zcrc s (map (\<lambda>(b, v). Wrote b (map (t_mem (ps_st s)) (addrs v))) qs) s' \<longrightarrow>
         disk s' = disk_write (disk s) (512 * lba) (map (t_mem (ps_st s)) (addrs iovs)))"
proof -
  let ?mx = "chunk div 512" and ?sz = "bytes iovs div 512"
  have inv: "pipe_inv s" using psteps_refine [OF assms(2) opened_inv [OF assms(1)]] by simp
  have mx: "0 < ?mx" "512 * ?mx \<le> chunk" "?mx < 2 ^ 30" using assms(5,6) by auto
  have len: "bytes iovs = int (length (addrs iovs))" by (rule bytes_addrs [OF assms(3)])
  have b: "512 * ?sz = bytes iovs" using assms(4) by auto
  have sz: "0 \<le> ?sz" "?sz < 2 ^ 30" using len assms(7) by auto
  have whole: "take (nat (512 * (?sz - 0))) (drop (nat (512 * 0)) (addrs iovs)) = addrs iovs" using b len by simp
  obtain qs where Q: "write_pieces ?mx ?sz iovs (512 * lba) 0 = Some qs"
    "\<And>d mem. disk_run d (map (\<lambda>(b, v). Wrote b (map mem (addrs v))) qs) = disk_write d (512 * lba) (map mem (addrs iovs))"
    "int (length qs) = (if 0 < ?sz then (?sz - 0 + ?mx - 1) div ?mx else 0)"
    "\<forall>(b, v)\<in>set qs. iov_ok v \<and> 0 < bytes v \<and> bytes v \<le> 512 * ?mx \<and> bytes v mod 512 = 0"
    using write_pieces_spec [OF assms(3) _ mx(1), of ?sz 0 lba] b sz unfolding whole by auto
  have "div_round_up ?sz ?mx = (?sz + ?mx - 1) div ?mx" using sz mx by (intro div_round_up_eq) auto
  moreover have "(?mx - 1) div ?mx = 0" using mx(1) by simp
  ultimately have "int (length qs) = div_round_up ?sz ?mx" using Q(3) sz(1) by (cases "?sz = 0") auto
  moreover have "\<forall>(b, v)\<in>set qs. 0 < bytes v \<and> bytes v \<le> chunk" using Q(4) mx(2) by fastforce
  moreover have "disk s' = disk_write (disk s) (512 * lba) (map (t_mem (ps_st s)) (addrs iovs))"
    if "psteps zcrc s (map (\<lambda>(b, v). Wrote b (map (t_mem (ps_st s)) (addrs v))) qs) s'" for s'
    using psteps_refine [OF that inv] by (simp add: Q(2))
  ultimately show ?thesis using Q(1) by blast
qed

section \<open>Completion\<close>

definition todo :: "int list \<Rightarrow> nat" where
  "todo cnts = length (filter (\<lambda>c. 0 < c) cnts)"

lemma todo_upd:
  assumes "i < length cnts" "0 < cnts ! i"
  shows "todo (cnts[i := cnts ! i - 1]) = (if cnts ! i = 1 then todo cnts - 1 else todo cnts)" "0 < todo cnts"
proof -
  have c: "cnts = take i cnts @ cnts ! i # drop (Suc i) cnts" using assms(1) by (simp add: id_take_nth_drop)
  have u: "cnts[i := cnts ! i - 1] = take i cnts @ (cnts ! i - 1) # drop (Suc i) cnts" using assms(1) by (simp add: upd_conv_take_nth_drop)
  have t: "todo cnts = todo (take i cnts) + 1 + todo (drop (Suc i) cnts)"
    using arg_cong [OF c, of todo] assms(2) by (simp add: todo_def)
  then show "0 < todo cnts" by simp
  show "todo (cnts[i := cnts ! i - 1]) = (if cnts ! i = 1 then todo cnts - 1 else todo cnts)"
    unfolding u t using assms(2) by (simp add: todo_def)
qed

text \<open>The write while device writes are missing, and when none is.\<close>

definition wr_inv :: "write_request \<Rightarrow> wcache \<Rightarrow> int list \<times> write_request \<times> wcache \<Rightarrow> bool" where
  "wr_inv r0 w0 = (\<lambda>(cnts, r, w). (\<forall>c\<in>set cnts. 0 \<le> c) \<and> a_bytes r = a_bytes r0
     \<and> w_outstanding_writes w = w_outstanding_writes w0 + int (todo cnts)
     \<and> (if todo cnts = 0 then a_calls r = [0] \<and> a_done r \<and> a_refcount r = a_refcount r0 - 1 \<and> w_total_write_pages w = w_total_write_pages (release_room (a_bytes r0 div 512) w0)
        else a_calls r = [] \<and> \<not> a_done r \<and> a_refcount r = a_refcount r0 \<and> \<not> a_freed r \<and> wr_n_req r = int (todo cnts)
          \<and> w_total_write_pages w = w_total_write_pages w0))"

lemma dev_done_inv:
  assumes inv: "wr_inv r0 w0 (cnts, r, w)" and i: "i < length cnts" "0 < cnts ! i"
  shows "\<exists>r' w'. dev_done i (cnts, r, w) = Some (cnts[i := cnts ! i - 1], r', w') \<and> wr_inv r0 w0 (cnts[i := cnts ! i - 1], r', w')"
proof -
  note T = todo_upd [OF i]
  let ?cnts = "cnts[i := cnts ! i - 1]"
  have I: "\<forall>c\<in>set cnts. 0 \<le> c" "a_bytes r = a_bytes r0" "w_outstanding_writes w = w_outstanding_writes w0 + int (todo cnts)"
    "a_calls r = []" "\<not> a_done r" "a_refcount r = a_refcount r0" "\<not> a_freed r" "wr_n_req r = int (todo cnts)"
    "w_total_write_pages w = w_total_write_pages w0" using inv T(2) by (simp_all add: wr_inv_def split: if_splits)
  have nn: "\<forall>c\<in>set ?cnts. 0 \<le> c" using I(1) i by (auto dest: subsetD [OF set_update_subset_insert])
  show ?thesis
  proof (cases "cnts ! i = 1")
    case False
    then have "dev_done i (cnts, r, w) = Some (?cnts, r, w)" using i(2) by (simp add: dev_done_def write_req_notify_def)
    moreover have "wr_inv r0 w0 (?cnts, r, w)" using I T False nn by (simp add: wr_inv_def)
    ultimately show ?thesis by blast
  next
    case one: True
    have td: "todo ?cnts = todo cnts - 1" using T(1) one by simp
    let ?w = "w\<lparr>w_outstanding_writes := w_outstanding_writes w - 1\<rparr>"
    show ?thesis
    proof (cases "todo cnts = 1")
      case False
      then have "dev_done i (cnts, r, w) = Some (?cnts, r\<lparr>wr_n_req := wr_n_req r - 1\<rparr>, ?w)"
        using one I(7,8) T(2) by (simp add: dev_done_def write_req_notify_def write_notify_def Let_def)
      moreover have "wr_inv r0 w0 (?cnts, r\<lparr>wr_n_req := wr_n_req r - 1\<rparr>, ?w)"
        using I td False T(2) nn by (simp add: wr_inv_def of_nat_diff)
      ultimately show ?thesis by blast
    next
      case True
      let ?r = "r\<lparr>a_calls := [0], a_done := True, a_refcount := a_refcount r - 1, a_freed := (a_refcount r = 1), wr_n_req := wr_n_req r - 1\<rparr>"
      have "dev_done i (cnts, r, w) = Some (?cnts, ?r, release_room (a_bytes r div 512) ?w)"
        using one I(4,7,8) True by (simp add: dev_done_def write_req_notify_def write_notify_def complete_request_def dec_and_free_def Let_def)
      moreover have "wr_inv r0 w0 (?cnts, ?r, release_room (a_bytes r div 512) ?w)"
        using I td True nn by (simp add: wr_inv_def release_room_def)
      ultimately show ?thesis by blast
    qed
  qed
qed

lemma uring_completion_done: "uring_completion e s = dev_done (fst e) s"
  by (simp add: uring_completion_def on_fail_def on_complete_def case_prod_beta)

lemma uring_completions_inv:
  assumes "wr_inv r0 w0 (cnts, r, w)" "\<And>i. count_list (map fst es) i \<le> (if i < length cnts then nat (cnts ! i) else 0)"
  shows "\<exists>cnts' r' w'. uring_completions es (cnts, r, w) = Some (cnts', r', w') \<and> wr_inv r0 w0 (cnts', r', w') \<and> length cnts' = length cnts
    \<and> (\<forall>i<length cnts. cnts' ! i = cnts ! i - int (count_list (map fst es) i))"
  using assms
proof (induction es arbitrary: cnts r w)
  case (Cons e es)
  let ?j = "fst e"
  have j: "?j < length cnts" "0 < cnts ! ?j" using Cons.prems(2) [of ?j] by (auto split: if_splits)
  obtain r' w' where d: "dev_done ?j (cnts, r, w) = Some (cnts[?j := cnts ! ?j - 1], r', w')" "wr_inv r0 w0 (cnts[?j := cnts ! ?j - 1], r', w')"
    using dev_done_inv [OF Cons.prems(1) j] by blast
  have "count_list (map fst es) i \<le> (if i < length (cnts[?j := cnts ! ?j - 1]) then nat (cnts[?j := cnts ! ?j - 1] ! i) else 0)" for i
    using Cons.prems(2) [of i] j by (auto simp: nth_list_update split: if_splits)
  from Cons.IH [OF d(2) this] obtain cnts' r'' w'' where e: "uring_completions es (cnts[?j := cnts ! ?j - 1], r', w') = Some (cnts', r'', w'')"
    "wr_inv r0 w0 (cnts', r'', w'')" "length cnts' = length cnts"
    "\<forall>i<length cnts. cnts' ! i = cnts[?j := cnts ! ?j - 1] ! i - int (count_list (map fst es) i)" by auto
  then show ?case using d(1) j by (auto simp: nth_list_update uring_completion_done)
qed simp

text \<open>
  C11. A write completes once, and always with success. Let the pieces of a write each have some device writes
  to wait for, and let these complete in any order, each once, with any results. As long as one is missing the
  callback has not been called and the room that the write reserved in the journal is still taken; when the
  last one completes the callback is called with 0, exactly once, also if device writes failed, and the
  room is given back. No step touches a request that was freed.
\<close>

theorem write_completes_once:
  assumes "wr_n_req r = int (length cnts)" "a_calls r = []" "\<not> a_done r" "\<not> a_freed r" "cnts \<noteq> []" "\<forall>c\<in>set cnts. 0 < c"
    and "\<And>i. count_list (map fst es) i \<le> (if i < length cnts then nat (cnts ! i) else 0)"
  shows "case uring_completions es (cnts, r, w) of None \<Rightarrow> False
    | Some (cnts', r', w') \<Rightarrow>
        if \<forall>i<length cnts. int (count_list (map fst es) i) = cnts ! i
        then a_calls r' = [0] \<and> a_refcount r' = a_refcount r - 1 \<and> w_outstanding_writes w' = w_outstanding_writes w - int (length cnts)
          \<and> w_total_write_pages w' = w_total_write_pages (release_room (a_bytes r div 512) w)
        else a_calls r' = [] \<and> \<not> a_freed r' \<and> w_total_write_pages w' = w_total_write_pages w"
proof -
  let ?w0 = "w\<lparr>w_outstanding_writes := w_outstanding_writes w - int (length cnts)\<rparr>"
  have t: "todo cnts = length cnts" using assms(6) by (simp add: todo_def)
  have "wr_inv r ?w0 (cnts, r, w)" using assms(1-6) t by (auto simp: wr_inv_def)
  from uring_completions_inv [OF this assms(7)] obtain cnts' r' w' where D: "uring_completions es (cnts, r, w) = Some (cnts', r', w')"
    "wr_inv r ?w0 (cnts', r', w')" "length cnts' = length cnts" "\<forall>i<length cnts. cnts' ! i = cnts ! i - int (count_list (map fst es) i)" by blast
  have "todo cnts' = 0 \<longleftrightarrow> (\<forall>c\<in>set cnts'. \<not> 0 < c)" by (simp add: todo_def filter_empty_conv)
  also have "\<dots> \<longleftrightarrow> (\<forall>i<length cnts. int (count_list (map fst es) i) = cnts ! i)"
    using D(2-4) unfolding wr_inv_def by (force simp: all_set_conv_all_nth)
  finally show ?thesis using D(1,2) by (simp add: wr_inv_def release_room_def)
qed

text \<open>
  C36. Writes that never complete. A write of less than a sector has no pieces: it returns with no device
  write outstanding and no room reserved, and with its callback not called, so that nothing ever calls
  it. And a write of more pages than the window of the journal never gets its room, whatever completes.
\<close>

theorem write_never_completes:
  assumes "iov_ok iovs" "bytes iovs < 512" "w_total_write_pages w \<le> w_max_write_pages w" "backend_backpressure st"
    and "512 \<le> wlog_chunk_bytes (t_cfg st)" "wlog_chunk_bytes (t_cfg st) < 2 ^ 39"
  shows "write_run ps (image_write off iovs) w st = Some (Done (image_write off iovs, [], w, st)) \<and> a_calls (image_write off iovs) = []
    \<and> (\<forall>n w'. 0 \<le> w_total_write_pages w' \<longrightarrow> w_max_write_pages w' < n div 8 \<longrightarrow> 0 \<le> n \<longrightarrow> n < 2 ^ 34 \<longrightarrow> reserve_room n w' = None)"
proof -
  let ?mx = "wlog_chunk_bytes (t_cfg st) div 512"
  have z: "bytes iovs div 512 = 0" using assms(2) bytes_addrs [OF assms(1)] by simp
  have mx: "0 < ?mx" "?mx < 2 ^ 30" using assms(5,6) by auto
  have s: "sbf 32 ?mx = ?mx" using mx by (intro sbf_id) auto
  have d: "div_round_up 0 ?mx = 0" using mx by (simp add: div_round_up_eq)
  have p: "write_pieces ?mx 0 iovs off 0 = Some []" by (simp add: write_pieces.simps)
  have r: "reserve_room 0 w = Some w" using assms(3) by (simp add: reserve_room_def cdiv_def sbf_def)
  have "write_run ps (image_write off iovs) w st = Some (Done (image_write off iovs, [], w, st))"
    using z r mx(1) s d p assms(4) by (simp add: write_run_def image_write_def Let_def)
  moreover have "reserve_room n w' = None" if "0 \<le> w_total_write_pages w'" "w_max_write_pages w' < n div 8" "0 \<le> n" "n < 2 ^ 34" for n w'
  proof -
    have "cdiv n 8 = n div 8" using that(3) by (simp add: cdiv_nonneg)
    moreover have "sbf 32 (n div 8) = n div 8" using that(3,4) by (intro sbf_id) auto
    ultimately show ?thesis using that(1,2) by (simp add: reserve_room_def)
  qed
  ultimately show ?thesis by (simp add: image_write_def)
qed

section \<open>Examples\<close>

lemma one_iov: "0 \<le> n \<Longrightarrow> n < 2 ^ 62 \<Longrightarrow> iov_ok [\<lparr>iov_base = a, iov_len = n\<rparr>]" "0 \<le> n \<Longrightarrow> n < 2 ^ 62 \<Longrightarrow> bytes [\<lparr>iov_base = a, iov_len = n\<rparr>] = n"
  by (simp_all add: iov_ok_def bytes_def ubf_id del: upto.simps)

theorem split_write_equiv_witness:
  "\<exists>qs. write_pieces 1 2 [\<lparr>iov_base = 64, iov_len = 1024\<rparr>] (512 * 10) 0 = Some qs \<and> length qs = 2
     \<and> (\<forall>s'. psteps (\<lambda>_. 0) demo_open (map (\<lambda>(b, v). Wrote b (map (t_mem (ps_st demo_open)) (addrs v))) qs) s' \<longrightarrow>
         disk s' 5120 = 7 \<and> disk s' 6144 = 0)"
proof -
  let ?v = "[\<lparr>iov_base = 64, iov_len = 1024\<rparr>]"
  have v: "iov_ok ?v" "bytes ?v = 1024" by (simp_all add: one_iov del: upto.simps)
  have len: "length (addrs ?v) = 1024" using bytes_addrs [OF v(1)] v(2) by linarith
  have "div_round_up 2 1 = 2" by (simp add: div_round_up_eq)
  then obtain qs where q: "write_pieces 1 2 ?v (512 * 10) 0 = Some qs" "length qs = 2"
    "\<And>s'. psteps (\<lambda>_. 0) demo_open (map (\<lambda>(b, v). Wrote b (map (t_mem (ps_st demo_open)) (addrs v))) qs) s' \<Longrightarrow>
         disk s' = disk_write (disk demo_open) (512 * 10) (map (t_mem (ps_st demo_open)) (addrs ?v))"
    using split_write_equiv [OF demo_open_ok psteps_refl v(1), where zcrc = "\<lambda>_. 0" and name = "''vol''" and vol = "2 ^ 30" and mem = "\<lambda>_. 7"
        and ckpts = "[]" and objs = "\<lambda>_. []" and chunk = 512 and lba = 10, folded demo_open_def] v(2) by auto
  have "disk_write (disk demo_open) (512 * 10) (map (t_mem (ps_st demo_open)) (addrs ?v)) 5120 = 7"
    "disk_write (disk demo_open) (512 * 10) (map (t_mem (ps_st demo_open)) (addrs ?v)) 6144 = 0"
    by (simp_all only: disk_write_def length_map len demo_batches demo_disk) (simp_all add: len del: addrs_simps)
  then show ?thesis using q by auto
qed

theorem write_completes_once_witness:
  "\<forall>w. case uring_completions [(1, 4096), (0, - 5), (1, 8192)] ([1, 2], (image_write 0 [])\<lparr>wr_n_req := 2\<rparr>, w) of None \<Rightarrow> False
     | Some (cnts', r', w') \<Rightarrow> a_calls r' = [0]"
proof
  fix w :: wcache
  let ?es = "[(1, 4096), (0, - 5), (1, 8192)] :: (nat \<times> int) list"
  have c: "count_list (map fst ?es) i \<le> (if i < length [1, 2 :: int] then nat ([1, 2] ! i) else 0)" for i :: nat
    by (cases "i = 0"; cases "i = 1") auto
  have e: "\<forall>i<length [1, 2 :: int]. int (count_list (map fst ?es) i) = [1, 2] ! i" by (auto simp: less_Suc_eq numeral_2_eq_2)
  show "case uring_completions ?es ([1, 2], (image_write 0 [])\<lparr>wr_n_req := 2\<rparr>, w) of None \<Rightarrow> False | Some (cnts', r', w') \<Rightarrow> a_calls r' = [0]"
    using write_completes_once [of "(image_write 0 [])\<lparr>wr_n_req := 2\<rparr>" "[1, 2]" ?es w, OF _ _ _ _ _ _ c] e
    by (auto simp: image_write_def simp del: uring_completions.simps split: option.splits)
qed

theorem write_never_completes_witness:
  "\<exists>w. write_run (\<lambda>_. 8192) (image_write 0 [\<lparr>iov_base = 64, iov_len = 100\<rparr>]) w demo_state
     = Some (Done (image_write 0 [\<lparr>iov_base = 64, iov_len = 100\<rparr>], [], w, demo_state))"
proof -
  have d: "backend_backpressure demo_state" "wlog_chunk_bytes (t_cfg demo_state) = 2 ^ 21"
    by (simp_all add: backend_backpressure_def demo_state_def make_translate_def demo_cfg_def get_default_def)
  have v: "iov_ok [\<lparr>iov_base = 64, iov_len = 100\<rparr>]" "bytes [\<lparr>iov_base = 64, iov_len = 100\<rparr>] < 512" by (simp_all add: one_iov del: upto.simps)
  show ?thesis
    using write_never_completes [OF v _ d(1), of "undefined\<lparr>w_total_write_pages := 0, w_max_write_pages := 0\<rparr>" "\<lambda>_. 8192" 0] d(2) by auto
qed

end
