(* ===== verification/Rbd.thy ===== *)
theory Rbd
  imports Image_Request Image_Open
begin

text \<open>
  The interface that replaces \<^verbatim>\<open>librbd\<close>: completions and the image wrapper of \<^verbatim>\<open>spdk_wrap.cc\<close>, the functions
  of \<^verbatim>\<open>liblsvd.cc\<close>, and the block device of \<^verbatim>\<open>bdev_lsvd.cc\<close>. \<open>None\<close> is a failed assertion or an access to
  memory that was freed or is null. What \<^verbatim>\<open>complete\<close> does is kept in the pieces between which other
  threads can run.
\<close>

section \<open>Completions\<close>

text \<open>
  \<^verbatim>\<open>spdk_completion\<close>. \<open>c_req\<close> is the request it owns, set together with the image by \<^verbatim>\<open>delayed_init\<close>; \<open>c_cb\<close>
  says whether there is a callback, and \<open>c_calls\<close> has the return values at the calls of the callback.
\<close>

record spdk_completion =
  c_refcount :: int
  c_freed :: bool
  c_done :: bool
  c_cb :: bool
  c_retval :: int
  c_req :: "aio_request option"
  c_calls :: "int list"

definition new_completion :: "bool \<Rightarrow> spdk_completion" where
  "new_completion cb =
     \<lparr>c_refcount = 2, c_freed = False, c_done = False, c_cb = cb, c_retval = - 1, c_req = None, c_calls = []\<rparr>"

definition delayed_init :: "aio_request \<Rightarrow> spdk_completion \<Rightarrow> spdk_completion option" where
  "delayed_init r c = (if c_freed c then None else Some (c\<lparr>c_req := Some r\<rparr>))"

definition get_retval :: "spdk_completion \<Rightarrow> int option" where
  "get_retval c = (if c_freed c then None else Some (c_retval c))"

text \<open>The assertion of \<^verbatim>\<open>run\<close>; the request itself then runs on its own.\<close>

definition comp_run :: "spdk_completion \<Rightarrow> spdk_completion option" where
  "comp_run c = (if c_freed c \<or> c_req c = None then None else Some c)"

text \<open>The last reference runs the destructor, which releases the request.\<close>

definition destroy_completion :: "spdk_completion \<Rightarrow> spdk_completion option" where
  "destroy_completion c =
     (case c_req c of
        None \<Rightarrow> Some (c\<lparr>c_freed := True\<rparr>)
      | Some r \<Rightarrow> map_option (\<lambda>r'. c\<lparr>c_freed := True, c_req := Some r'\<rparr>) (req_release r))"

definition comp_dec_and_free :: "spdk_completion \<Rightarrow> spdk_completion option" where
  "comp_dec_and_free c =
     (if c_freed c then None
      else let c' = c\<lparr>c_refcount := c_refcount c - 1\<rparr>
           in if c_refcount c = 1 then destroy_completion c' else Some c')"

definition comp_release :: "spdk_completion \<Rightarrow> spdk_completion option" where
  "comp_release c = comp_dec_and_free c"

text \<open>\<^verbatim>\<open>wait\<close>, up to where it blocks and from where it goes on: the count goes down, but nothing is freed.\<close>

definition comp_wait_enter :: "spdk_completion \<Rightarrow> spdk_completion option" where
  "comp_wait_enter c = (if c_freed c then None else Some (c\<lparr>c_refcount := c_refcount c + 1\<rparr>))"

definition comp_wait_leave :: "spdk_completion \<Rightarrow> spdk_completion option" where
  "comp_wait_leave c = (if c_freed c then None else Some (c\<lparr>c_refcount := c_refcount c - 1\<rparr>))"

section \<open>The image wrapper\<close>

text \<open>
  \<^verbatim>\<open>lsvd_rbd\<close>: the completions by their address, the queue that \<^verbatim>\<open>poll_io_events\<close> takes them from, and
  whether the client polls (\<^verbatim>\<open>ev\<close> has a value).
\<close>

record lsvd_rbd =
  rb_comps :: "nat \<rightharpoonup> spdk_completion"
  rb_queue :: "nat list"
  rb_ev :: bool

definition on_comp :: "(spdk_completion \<Rightarrow> spdk_completion option) \<Rightarrow> nat \<Rightarrow> lsvd_rbd \<Rightarrow> lsvd_rbd option" where
  "on_comp f i s =
     (case rb_comps s i of
        None \<Rightarrow> None
      | Some c \<Rightarrow> map_option (\<lambda>c'. s\<lparr>rb_comps := (rb_comps s)(i \<mapsto> c')\<rparr>) (f c))"

definition create_completion :: "bool \<Rightarrow> nat \<Rightarrow> lsvd_rbd \<Rightarrow> lsvd_rbd" where
  "create_completion cb i s = s\<lparr>rb_comps := (rb_comps s)(i \<mapsto> new_completion cb)\<rparr>"

definition release_completion :: "nat \<Rightarrow> lsvd_rbd \<Rightarrow> lsvd_rbd option" where
  "release_completion i = on_comp comp_release i"

definition on_request_complete :: "nat \<Rightarrow> lsvd_rbd \<Rightarrow> lsvd_rbd" where
  "on_request_complete i s = (if rb_ev s then s\<lparr>rb_queue := rb_queue s @ [i]\<rparr> else s)"

definition switch_to_poll :: "lsvd_rbd \<Rightarrow> lsvd_rbd" where
  "switch_to_poll s = s\<lparr>rb_ev := True\<rparr>"

text \<open>The loop of \<^verbatim>\<open>poll_io_events\<close> reads the magic number of every completion that it takes out.\<close>

fun poll_loop :: "nat \<Rightarrow> nat list \<Rightarrow> lsvd_rbd \<Rightarrow> (nat list \<times> lsvd_rbd) option" where
  "poll_loop 0 comps s = Some (comps, s)"
| "poll_loop (Suc n) comps s =
     (case rb_queue s of
        [] \<Rightarrow> Some (comps, s)
      | p # q \<Rightarrow>
          (case rb_comps s p of
             None \<Rightarrow> None
           | Some c \<Rightarrow> if c_freed c then None else poll_loop n (comps @ [p]) (s\<lparr>rb_queue := q\<rparr>)))"

definition poll_io_events :: "nat \<Rightarrow> lsvd_rbd \<Rightarrow> (nat list \<times> lsvd_rbd) option" where
  "poll_io_events numcomp s = (if rb_ev s then poll_loop numcomp [] s else None)"

text \<open>\<^verbatim>\<open>init_completion\<close> with the new request, and then \<^verbatim>\<open>run\<close> of the completion.\<close>

definition rbd_aio_submit :: "aio_request \<Rightarrow> nat \<Rightarrow> lsvd_rbd \<Rightarrow> lsvd_rbd option" where
  "rbd_aio_submit r i s = (case on_comp (delayed_init r) i s of None \<Rightarrow> None | Some s' \<Rightarrow> on_comp comp_run i s')"

definition rbd_aio_read :: "int \<Rightarrow> int \<Rightarrow> int \<Rightarrow> nat \<Rightarrow> lsvd_rbd \<Rightarrow> lsvd_rbd option" where
  "rbd_aio_read off len p = rbd_aio_submit (aio_request.truncate (image_read off (mk_smartiov1 p len)))"

definition rbd_aio_readv :: "iovec list \<Rightarrow> int \<Rightarrow> nat \<Rightarrow> lsvd_rbd \<Rightarrow> lsvd_rbd option" where
  "rbd_aio_readv iov off = rbd_aio_submit (aio_request.truncate (image_read off (mk_smartiov iov)))"

definition rbd_aio_write :: "int \<Rightarrow> int \<Rightarrow> int \<Rightarrow> nat \<Rightarrow> lsvd_rbd \<Rightarrow> lsvd_rbd option" where
  "rbd_aio_write off len p = rbd_aio_submit (aio_request.truncate (image_write off (mk_smartiov1 p len)))"

definition rbd_aio_writev :: "iovec list \<Rightarrow> int \<Rightarrow> nat \<Rightarrow> lsvd_rbd \<Rightarrow> lsvd_rbd option" where
  "rbd_aio_writev iov off = rbd_aio_submit (aio_request.truncate (image_write off (mk_smartiov iov)))"

definition rbd_aio_discard :: "int \<Rightarrow> int \<Rightarrow> nat \<Rightarrow> lsvd_rbd \<Rightarrow> lsvd_rbd option" where
  "rbd_aio_discard off len = rbd_aio_submit (image_trim off len)"

definition rbd_aio_flush :: "nat \<Rightarrow> lsvd_rbd \<Rightarrow> lsvd_rbd option" where
  "rbd_aio_flush = rbd_aio_submit image_flush"

section \<open>The end of a request\<close>

text \<open>
  How far the thread that ends a request has come: in \<^verbatim>\<open>aio_request::complete_request\<close>, whose callback is
  \<^verbatim>\<open>spdk_completion::complete\<close>. The phase names what was done last.
\<close>

datatype cphase = Fresh | Running | Called | Queued | Flagged | Dropped | ReqFlagged | Finished

definition complete_callback :: "int \<Rightarrow> spdk_completion \<Rightarrow> spdk_completion option" where
  "complete_callback val c =
     (if c_freed c then None else Some (c\<lparr>c_retval := val, c_calls := (if c_cb c then c_calls c @ [val] else c_calls c)\<rparr>))"

definition complete_flag :: "spdk_completion \<Rightarrow> spdk_completion option" where
  "complete_flag c = (if c_freed c then None else Some (c\<lparr>c_done := True\<rparr>))"

definition on_req :: "(aio_request \<Rightarrow> aio_request option) \<Rightarrow> spdk_completion \<Rightarrow> spdk_completion option" where
  "on_req f c = (case c_req c of None \<Rightarrow> None | Some r \<Rightarrow> map_option (\<lambda>r'. c\<lparr>c_req := Some r'\<rparr>) (f r))"

definition req_flag :: "aio_request \<Rightarrow> aio_request option" where
  "req_flag r = (if a_freed r then None else Some (r\<lparr>a_done := True\<rparr>))"

fun complete_step :: "cphase \<Rightarrow> int \<Rightarrow> nat \<Rightarrow> lsvd_rbd \<Rightarrow> (cphase \<times> lsvd_rbd) option" where
  "complete_step Running val i s = map_option (Pair Called) (on_comp (complete_callback val) i s)"
| "complete_step Called val i s = map_option (\<lambda>s'. (Queued, on_request_complete i s')) (on_comp comp_run i s)"
| "complete_step Queued val i s = map_option (Pair Flagged) (on_comp complete_flag i s)"
| "complete_step Flagged val i s = map_option (Pair Dropped) (on_comp comp_dec_and_free i s)"
| "complete_step Dropped val i s = map_option (Pair ReqFlagged) (on_comp (on_req req_flag) i s)"
| "complete_step ReqFlagged val i s = map_option (Pair Finished) (on_comp (on_req dec_and_free) i s)"
| "complete_step Fresh val i s = None"
| "complete_step Finished val i s = None"

section \<open>Calls that wait\<close>

text \<open>
  The synchronous calls make a request without a completion, run it and wait for it; the request ends
  with \<open>val\<close>. All but \<^verbatim>\<open>rbd_discard\<close> then release it.
\<close>

definition run_and_wait :: "int \<Rightarrow> 'a aio_request_scheme \<Rightarrow> 'a aio_request_scheme option" where
  "run_and_wait val r =
     (case complete_request val r of
        None \<Rightarrow> None
      | Some r1 \<Rightarrow> (case wait_enter r1 of None \<Rightarrow> None | Some r2 \<Rightarrow> if a_done r2 then wait_leave r2 else None))"

definition run_wait_release :: "int \<Rightarrow> 'a aio_request_scheme \<Rightarrow> 'a aio_request_scheme option" where
  "run_wait_release val r = (case run_and_wait val r of None \<Rightarrow> None | Some r' \<Rightarrow> req_release r')"

definition rbd_read :: "int \<Rightarrow> int \<Rightarrow> int \<Rightarrow> read_request option" where
  "rbd_read off len p = run_wait_release (sbf 32 len) (image_read off (mk_smartiov1 p len))"

definition rbd_write :: "int \<Rightarrow> int \<Rightarrow> int \<Rightarrow> write_request option" where
  "rbd_write off len p = run_wait_release 0 (image_write off (mk_smartiov1 p len))"

definition rbd_flush :: "aio_request option" where
  "rbd_flush = run_wait_release 0 image_flush"

definition rbd_discard :: "int \<Rightarrow> int \<Rightarrow> aio_request option" where
  "rbd_discard ofs len = run_and_wait 0 (image_trim ofs len)"

section \<open>Repeated writes\<close>

text \<open>
  The loop of \<^verbatim>\<open>rbd_aio_writesame\<close>; where \<^verbatim>\<open>data_len\<close> is 0 the division before it traps. The vectors go into an
  array of \<^verbatim>\<open>div_round_up(len, data_len)\<close> elements; \<open>None\<close> is a store behind its end.
\<close>

function writesame_iovs :: "int \<Rightarrow> int \<Rightarrow> int \<Rightarrow> iovec list" where
  "writesame_iovs len p data_len =
     (if 0 < len \<and> 0 < data_len
      then let b = min len data_len in \<lparr>iov_base = p, iov_len = b\<rparr> # writesame_iovs (len - b) p data_len
      else [])"
  by pat_completeness auto
termination by (relation "measure (\<lambda>(len, p, d). nat len)") auto

declare writesame_iovs.simps [simp del]

definition rbd_aio_writesame :: "int \<Rightarrow> int \<Rightarrow> int \<Rightarrow> int \<Rightarrow> write_request option" where
  "rbd_aio_writesame off len p data_len =
     (if sbf 32 data_len = 0 then None
      else let n = div_round_up len data_len; iov = writesame_iovs len p data_len
           in if int (length iov) \<le> n then Some (image_write off (mk_smartiov iov)) else None)"

definition rbd_aio_write_zeroes :: "int \<Rightarrow> int \<Rightarrow> int \<Rightarrow> write_request option" where
  "rbd_aio_write_zeroes zeropage off len = rbd_aio_writesame off len zeropage 4096"

section \<open>Image information\<close>

record rbd_image_info =
  ri_size :: int
  ri_obj_size :: int
  ri_num_objs :: int
  ri_order :: int

definition rbd_stat :: "image \<Rightarrow> rbd_image_info" where
  "rbd_stat img =
     (let obj_size = 2 ^ 22
      in \<lparr>ri_size = i_size img, ri_obj_size = obj_size, ri_num_objs = i_size img div obj_size, ri_order = 22\<rparr>)"

section \<open>The block device\<close>

datatype bdev_io_type = IO_READ | IO_WRITE | IO_FLUSH | IO_UNMAP | IO_WRITE_ZEROES | IO_RESET | IO_OTHER

definition lsvd_io_type_supported :: "bdev_io_type \<Rightarrow> bool" where
  "lsvd_io_type_supported t = (case t of IO_RESET \<Rightarrow> False | IO_OTHER \<Rightarrow> False | _ \<Rightarrow> True)"

text \<open>\<^verbatim>\<open>spdk_bdev_io\<close>, as far as the device reads it.\<close>

record bdev_io =
  io_type :: bdev_io_type
  io_offset_blocks :: int
  io_num_blocks :: int
  io_iovs :: "iovec list"

definition bdev_blocklen :: int where
  "bdev_blocklen = 4096"

definition bdev_blockcnt :: "image \<Rightarrow> int" where
  "bdev_blockcnt img = i_size img div bdev_blocklen"

datatype image_request = RRead read_request | RWrite write_request | RTrim aio_request | RFlush aio_request

text \<open>The request that \<^verbatim>\<open>lsvd_submit_io\<close> runs; for an unknown type it returns without one.\<close>

definition lsvd_submit_io :: "bdev_io \<Rightarrow> image_request option" where
  "lsvd_submit_io io =
     (let off = ubf 64 (io_offset_blocks io * bdev_blocklen);
          len = ubf 64 (io_num_blocks io * bdev_blocklen);
          iov = mk_smartiov (io_iovs io)
      in case io_type io of
           IO_READ \<Rightarrow> Some (RRead (image_read off iov))
         | IO_WRITE \<Rightarrow> Some (RWrite (image_write off iov))
         | IO_FLUSH \<Rightarrow> Some (RFlush image_flush)
         | IO_UNMAP \<Rightarrow> Some (RTrim (image_trim off len))
         | IO_WRITE_ZEROES \<Rightarrow> Some (RTrim (image_trim off len))
         | _ \<Rightarrow> None)"

text \<open>The status that the callback reports; it does not release the request.\<close>

definition lsvd_io_done :: "int \<Rightarrow> bool" where
  "lsvd_io_done rc = (0 \<le> rc)"

end
