(* ===== verification/Rbd_Correct.thy ===== *)
theory Rbd_Correct
  imports Rbd
begin

text \<open>
  Properties of completions, with clients interleaved with the threads that
  end requests.
\<close>

section \<open>Clients and completing threads\<close>

text \<open>
  Besides the wrapper, the state has for every completion how far the end of its request has come, the
  value the request ends with and the number of threads that wait; the completions that were released; and
  those that were queued and that a poll returned, in order.
\<close>

record rsys =
  rs_rbd :: lsvd_rbd
  rs_pc :: "nat \<Rightarrow> cphase"
  rs_val :: "nat \<Rightarrow> int"
  rs_wait :: "nat \<Rightarrow> nat"
  rs_rel :: "nat set"
  rs_pushed :: "nat list"
  rs_polled :: "nat list"

definition rinit :: "bool \<Rightarrow> rsys" where
  "rinit poll =
     \<lparr>rs_rbd = (let s = \<lparr>rb_comps = Map.empty, rb_queue = [], rb_ev = False\<rparr> in if poll then switch_to_poll s else s),
      rs_pc = (\<lambda>_. Fresh), rs_val = (\<lambda>_. 0), rs_wait = (\<lambda>_. 0), rs_rel = {}, rs_pushed = [], rs_polled = []\<rparr>"

datatype revent =
    Create nat bool
  | Submit nat aio_request int
  | Complete nat
  | Release nat
  | Poll nat
  | WaitEnter nat
  | WaitLeave nat

fun rstep :: "revent \<Rightarrow> rsys \<Rightarrow> rsys option" where
  "rstep (Create i cb) s = Some (s\<lparr>rs_rbd := create_completion cb i (rs_rbd s)\<rparr>)"
| "rstep (Submit i r v) s =
     map_option (\<lambda>b. s\<lparr>rs_rbd := b, rs_pc := (rs_pc s)(i := Running), rs_val := (rs_val s)(i := v)\<rparr>)
       (rbd_aio_submit r i (rs_rbd s))"
| "rstep (Complete i) s =
     map_option (\<lambda>(ph, b). s\<lparr>rs_rbd := b, rs_pc := (rs_pc s)(i := ph),
         rs_pushed := (if rs_pc s i = Called \<and> rb_ev (rs_rbd s) then rs_pushed s @ [i] else rs_pushed s)\<rparr>)
       (complete_step (rs_pc s i) (rs_val s i) i (rs_rbd s))"
| "rstep (Release i) s = map_option (\<lambda>b. s\<lparr>rs_rbd := b, rs_rel := insert i (rs_rel s)\<rparr>) (release_completion i (rs_rbd s))"
| "rstep (Poll n) s = map_option (\<lambda>(xs, b). s\<lparr>rs_rbd := b, rs_polled := rs_polled s @ xs\<rparr>) (poll_io_events n (rs_rbd s))"
| "rstep (WaitEnter i) s =
     map_option (\<lambda>b. s\<lparr>rs_rbd := b, rs_wait := (rs_wait s)(i := Suc (rs_wait s i))\<rparr>) (on_comp comp_wait_enter i (rs_rbd s))"
| "rstep (WaitLeave i) s =
     map_option (\<lambda>b. s\<lparr>rs_rbd := b, rs_wait := (rs_wait s)(i := rs_wait s i - 1)\<rparr>) (on_comp comp_wait_leave i (rs_rbd s))"

text \<open>
  What clients may do: use an address for one completion, submit it once with a new request, release it
  once and not while a thread waits for it, and, when they poll, only after a poll has returned it; poll
  only after switching to polling. A waiting thread goes on when the completion is flagged. The end of a
  request makes its steps at any time after the submission, once.
\<close>

fun allowed :: "revent \<Rightarrow> rsys \<Rightarrow> bool" where
  "allowed (Create i cb) s \<longleftrightarrow> rb_comps (rs_rbd s) i = None"
| "allowed (Submit i r v) s \<longleftrightarrow>
     rb_comps (rs_rbd s) i \<noteq> None \<and> rs_pc s i = Fresh \<and> a_refcount r = 2 \<and> \<not> a_freed r \<and> \<not> a_done r"
| "allowed (Complete i) s \<longleftrightarrow> rs_pc s i \<noteq> Fresh \<and> rs_pc s i \<noteq> Finished"
| "allowed (Release i) s \<longleftrightarrow>
     rb_comps (rs_rbd s) i \<noteq> None \<and> i \<notin> rs_rel s \<and> rs_wait s i = 0 \<and> (rb_ev (rs_rbd s) \<longrightarrow> i \<in> set (rs_polled s))"
| "allowed (Poll n) s \<longleftrightarrow> rb_ev (rs_rbd s)"
| "allowed (WaitEnter i) s \<longleftrightarrow> rb_comps (rs_rbd s) i \<noteq> None \<and> i \<notin> rs_rel s"
| "allowed (WaitLeave i) s \<longleftrightarrow> 0 < rs_wait s i \<and> (\<exists>c. rb_comps (rs_rbd s) i = Some c \<and> c_done c)"

fun protocol :: "revent list \<Rightarrow> rsys \<Rightarrow> bool" where
  "protocol [] s = True"
| "protocol (e # es) s \<longleftrightarrow> allowed e s \<and> (case rstep e s of None \<Rightarrow> True | Some s' \<Rightarrow> protocol es s')"

fun rrun :: "revent list \<Rightarrow> rsys \<Rightarrow> rsys option" where
  "rrun [] s = Some s"
| "rrun (e # es) s = (case rstep e s of None \<Rightarrow> None | Some s' \<Rightarrow> rrun es s')"

section \<open>The invariant\<close>

primrec rank :: "cphase \<Rightarrow> nat" where
  "rank Fresh = 0"
| "rank Running = 1"
| "rank Called = 2"
| "rank Queued = 3"
| "rank Flagged = 4"
| "rank Dropped = 5"
| "rank ReqFlagged = 6"
| "rank Finished = 7"

text \<open>Of a request: one reference until it has ended, one of its completion.\<close>

definition req_inv :: "cphase \<Rightarrow> bool \<Rightarrow> aio_request \<Rightarrow> bool" where
  "req_inv ph held r \<longleftrightarrow>
     a_refcount r = of_bool (rank ph < 7) + of_bool held
     \<and> (a_freed r \<longleftrightarrow> ph = Finished \<and> \<not> held) \<and> (a_done r \<longleftrightarrow> 6 \<le> rank ph)"

text \<open>
  Of a completion: one reference until its request has dropped it, one until it is released, and one of
  every waiting thread.
\<close>

definition comp_inv :: "cphase \<Rightarrow> bool \<Rightarrow> nat \<Rightarrow> int \<Rightarrow> spdk_completion \<Rightarrow> bool" where
  "comp_inv ph rel n v c \<longleftrightarrow>
     c_refcount c = of_bool (rank ph < 5) + of_bool (\<not> rel) + int n
     \<and> (rel \<longrightarrow> n = 0) \<and> (c_freed c \<longleftrightarrow> 5 \<le> rank ph \<and> rel) \<and> (c_done c \<longleftrightarrow> 4 \<le> rank ph)
     \<and> c_retval c = (if 2 \<le> rank ph then v else - 1) \<and> c_calls c = (if 2 \<le> rank ph \<and> c_cb c then [v] else [])
     \<and> (case c_req c of None \<Rightarrow> ph = Fresh | Some r \<Rightarrow> ph \<noteq> Fresh \<and> req_inv ph (\<not> c_freed c) r)"

definition entry_inv :: "cphase \<Rightarrow> bool \<Rightarrow> nat \<Rightarrow> int \<Rightarrow> spdk_completion option \<Rightarrow> bool" where
  "entry_inv ph rel n v m \<longleftrightarrow>
     (case m of None \<Rightarrow> ph = Fresh \<and> \<not> rel \<and> n = 0 | Some c \<Rightarrow> comp_inv ph rel n v c)"

text \<open>Of the queue: it holds what was queued and not polled, and nothing that was released.\<close>

definition queue_inv :: "bool \<Rightarrow> (nat \<Rightarrow> cphase) \<Rightarrow> nat set \<Rightarrow> nat list \<Rightarrow> nat list \<Rightarrow> nat list \<Rightarrow> bool" where
  "queue_inv ev pc rel pushed polled q \<longleftrightarrow>
     pushed = polled @ q \<and> distinct pushed \<and> (\<forall>i. i \<in> set pushed \<longleftrightarrow> ev \<and> 3 \<le> rank (pc i)) \<and> (ev \<longrightarrow> rel \<subseteq> set polled)"

definition rsys_inv :: "rsys \<Rightarrow> bool" where
  "rsys_inv s \<longleftrightarrow>
     (\<forall>i. entry_inv (rs_pc s i) (i \<in> rs_rel s) (rs_wait s i) (rs_val s i) (rb_comps (rs_rbd s) i))
     \<and> queue_inv (rb_ev (rs_rbd s)) (rs_pc s) (rs_rel s) (rs_pushed s) (rs_polled s) (rb_queue (rs_rbd s))"

lemma rinit_inv: "rsys_inv (rinit poll)"
  by (simp add: rsys_inv_def entry_inv_def queue_inv_def rinit_def switch_to_poll_def Let_def)

lemma rsys_invD:
  assumes "rsys_inv s" "rb_comps (rs_rbd s) i = Some c"
  shows "comp_inv (rs_pc s i) (i \<in> rs_rel s) (rs_wait s i) (rs_val s i) c"
  using assms(1) unfolding rsys_inv_def entry_inv_def using assms(2) by (auto dest: spec [of _ i])

lemma rsys_inv_none:
  assumes "rsys_inv s" "rb_comps (rs_rbd s) i = None"
  shows "rs_pc s i = Fresh \<and> i \<notin> rs_rel s \<and> rs_wait s i = 0"
  using assms(1) unfolding rsys_inv_def entry_inv_def using assms(2) by (auto dest: spec [of _ i])

lemma queue_inv_pop: "queue_inv ev pc rel pushed polled (p # q) \<Longrightarrow> queue_inv ev pc rel pushed (polled @ [p]) q"
  by (auto simp: queue_inv_def)

lemma queue_inv_push:
  assumes "queue_inv True pc rel pushed polled q" "pc i = Called"
  shows "queue_inv True (pc(i := Queued)) rel (pushed @ [i]) polled (q @ [i])"
proof -
  have all: "j \<in> set pushed \<longleftrightarrow> 3 \<le> rank (pc j)" for j using assms(1) unfolding queue_inv_def by blast
  have i: "i \<notin> set pushed" using all [of i] assms(2) by simp
  have "j \<in> set (pushed @ [i]) \<longleftrightarrow> True \<and> 3 \<le> rank ((pc(i := Queued)) j)" for j using all [of j] by (cases "j = i") auto
  moreover have "distinct pushed" using assms(1) unfolding queue_inv_def by blast
  then have "distinct (pushed @ [i])" using i by simp
  moreover have "pushed @ [i] = polled @ q @ [i]" "rel \<subseteq> set polled" using assms(1) by (simp_all add: queue_inv_def)
  ultimately show ?thesis unfolding queue_inv_def by blast
qed

lemma queue_inv_same:
  assumes "queue_inv ev pc rel pushed polled q" "\<And>j. j \<noteq> i \<Longrightarrow> pc' j = pc j"
    and "ev \<Longrightarrow> 3 \<le> rank (pc' i) \<longleftrightarrow> 3 \<le> rank (pc i)"
    and "rel' = rel \<or> rel' = insert i rel \<and> (ev \<longrightarrow> i \<in> set polled)"
  shows "queue_inv ev pc' rel' pushed polled q"
proof -
  have "j \<in> set pushed \<longleftrightarrow> ev \<and> 3 \<le> rank (pc' j)" for j
    using assms(1,3) assms(2) [of j] by (cases "j = i") (auto simp: queue_inv_def)
  moreover have "ev \<longrightarrow> rel' \<subseteq> set polled" using assms(1,4) by (auto simp: queue_inv_def)
  ultimately show ?thesis using assms(1) unfolding queue_inv_def by blast
qed

lemma queued_live:
  assumes "rsys_inv s" "p \<in> set (rb_queue (rs_rbd s))"
  shows "\<exists>c. rb_comps (rs_rbd s) p = Some c \<and> \<not> c_freed c"
proof -
  have q: "queue_inv (rb_ev (rs_rbd s)) (rs_pc s) (rs_rel s) (rs_pushed s) (rs_polled s) (rb_queue (rs_rbd s))"
    using assms(1) by (simp add: rsys_inv_def)
  then have set: "p \<in> set (rs_pushed s)" "p \<notin> set (rs_polled s)" using assms(2) by (auto simp: queue_inv_def)
  have r: "3 \<le> rank (rs_pc s p)" and nr: "p \<notin> rs_rel s" using q set unfolding queue_inv_def by blast+
  from r have "rs_pc s p \<noteq> Fresh" by auto
  then obtain c where c: "rb_comps (rs_rbd s) p = Some c" using rsys_inv_none [OF assms(1)] by (cases "rb_comps (rs_rbd s) p") auto
  then show ?thesis using rsys_invD [OF assms(1) c] nr by (simp add: comp_inv_def)
qed

section \<open>Steps of one completion\<close>

lemma new_completion_inv: "comp_inv Fresh False 0 v (new_completion cb)"
  by (simp add: comp_inv_def new_completion_def)

lemma submit_inv:
  assumes "comp_inv Fresh rel n v c" "a_refcount r = 2" "\<not> a_freed r" "\<not> a_done r"
  shows "\<exists>c'. Option.bind (delayed_init r c) comp_run = Some c' \<and> comp_inv Running rel n v' c'"
  using assms by (auto simp: delayed_init_def comp_run_def comp_inv_def req_inv_def split: option.splits)

lemma dec_and_free_req_inv:
  assumes "req_inv ReqFlagged held r"
  shows "\<exists>r'. dec_and_free r = Some r' \<and> req_inv Finished held r'"
  using assms by (cases held) (auto simp: dec_and_free_def req_inv_def)

lemma req_release_inv:
  assumes "req_inv ph True r"
  shows "\<exists>r'. req_release r = Some r' \<and> req_inv ph False r'"
  using assms by (cases ph) (auto simp: req_release_def dec_and_free_def req_inv_def)

text \<open>Dropping a reference, by the thread that ends the request or by the client.\<close>

lemma drop_inv:
  assumes "comp_inv ph rel n v c" "\<not> c_freed c"
    and "ph = Flagged \<and> ph' = Dropped \<and> rel' = rel \<or> \<not> rel \<and> rel' \<and> n = 0 \<and> ph' = ph"
  shows "\<exists>c'. comp_dec_and_free c = Some c' \<and> comp_inv ph' rel' n v c'"
proof (cases "c_refcount c = 1")
  case False
  then show ?thesis using assms
    by (auto simp: comp_dec_and_free_def comp_inv_def req_inv_def Let_def split: option.splits)
next
  case True
  then show ?thesis
  proof (cases "c_req c")
    case None
    then show ?thesis using True assms by (auto simp: comp_inv_def)
  next
    case (Some r)
    with assms have "req_inv ph True r" by (simp add: comp_inv_def)
    then have "req_inv ph' True r" using assms(3) by (auto simp: req_inv_def)
    then obtain r' where r': "req_release r = Some r'" "req_inv ph' False r'" using req_release_inv by blast
    then show ?thesis using True Some assms
      by (auto simp: comp_dec_and_free_def destroy_completion_def comp_inv_def Let_def)
  qed
qed

lemma complete_comp_inv:
  assumes "comp_inv ph rel n v c" "ph \<noteq> Fresh"
  shows "ph = Running \<Longrightarrow> \<exists>c'. complete_callback v c = Some c' \<and> comp_inv Called rel n v c'"
    and "ph = Called \<Longrightarrow> comp_run c = Some c \<and> comp_inv Queued rel n v c"
    and "ph = Queued \<Longrightarrow> \<exists>c'. complete_flag c = Some c' \<and> comp_inv Flagged rel n v c'"
    and "ph = Flagged \<Longrightarrow> \<exists>c'. comp_dec_and_free c = Some c' \<and> comp_inv Dropped rel n v c'"
    and "ph = Dropped \<Longrightarrow> \<exists>c'. on_req req_flag c = Some c' \<and> comp_inv ReqFlagged rel n v c'"
    and "ph = ReqFlagged \<Longrightarrow> \<exists>c'. on_req dec_and_free c = Some c' \<and> comp_inv Finished rel n v c'"
proof -
  show "ph = Running \<Longrightarrow> \<exists>c'. complete_callback v c = Some c' \<and> comp_inv Called rel n v c'"
    using assms by (auto simp: comp_inv_def complete_callback_def req_inv_def split: option.splits)
  show "ph = Called \<Longrightarrow> comp_run c = Some c \<and> comp_inv Queued rel n v c"
    using assms by (auto simp: comp_inv_def comp_run_def req_inv_def split: option.splits)
  show "ph = Queued \<Longrightarrow> \<exists>c'. complete_flag c = Some c' \<and> comp_inv Flagged rel n v c'"
    using assms by (auto simp: comp_inv_def complete_flag_def req_inv_def split: option.splits)
  show "ph = Flagged \<Longrightarrow> \<exists>c'. comp_dec_and_free c = Some c' \<and> comp_inv Dropped rel n v c'"
    using drop_inv [OF assms(1), of Dropped rel] assms(1) by (simp add: comp_inv_def)
  have "case c_req c of None \<Rightarrow> ph = Fresh | Some r \<Rightarrow> req_inv ph (\<not> c_freed c) r"
    using assms(1) unfolding comp_inv_def by (auto split: option.split)
  then obtain r where r: "c_req c = Some r" "req_inv ph (\<not> c_freed c) r" using assms(2) by (cases "c_req c") auto
  show "\<exists>c'. on_req req_flag c = Some c' \<and> comp_inv ReqFlagged rel n v c'" if ph: "ph = Dropped"
  proof -
    have "req_flag r = Some (r\<lparr>a_done := True\<rparr>)" "req_inv ReqFlagged (\<not> c_freed c) (r\<lparr>a_done := True\<rparr>)"
      using r(2) ph by (simp_all add: req_flag_def req_inv_def)
    then show ?thesis using assms(1) r(1) ph by (simp add: comp_inv_def on_req_def)
  qed
  show "\<exists>c'. on_req dec_and_free c = Some c' \<and> comp_inv Finished rel n v c'" if ph: "ph = ReqFlagged"
  proof -
    obtain r' where "dec_and_free r = Some r'" "req_inv Finished (\<not> c_freed c) r'" using dec_and_free_req_inv r(2) ph by blast
    then show ?thesis using assms(1) r(1) ph by (simp add: comp_inv_def on_req_def)
  qed
qed

section \<open>Steps of the system\<close>

lemma comp_update_inv:
  assumes "rsys_inv s" "rb_comps (rs_rbd s) i = Some c"
    and "comp_inv (rs_pc s' i) (i \<in> rs_rel s') (rs_wait s' i) (rs_val s' i) c'"
    and "rs_rbd s' = (rs_rbd s)\<lparr>rb_comps := (rb_comps (rs_rbd s))(i \<mapsto> c')\<rparr>"
    and "\<And>j. j \<noteq> i \<Longrightarrow> rs_pc s' j = rs_pc s j \<and> rs_wait s' j = rs_wait s j \<and> rs_val s' j = rs_val s j"
    and "rs_rel s' = rs_rel s \<or> rs_rel s' = insert i (rs_rel s) \<and> (rb_ev (rs_rbd s) \<longrightarrow> i \<in> set (rs_polled s))"
    and "rs_pushed s' = rs_pushed s" "rs_polled s' = rs_polled s"
    and "rb_ev (rs_rbd s) \<Longrightarrow> 3 \<le> rank (rs_pc s' i) \<longleftrightarrow> 3 \<le> rank (rs_pc s i)"
  shows "rsys_inv s'"
proof -
  have "entry_inv (rs_pc s' j) (j \<in> rs_rel s') (rs_wait s' j) (rs_val s' j) (rb_comps (rs_rbd s') j)" for j
  proof (cases "j = i")
    case True
    then show ?thesis using assms(3,4) by (simp add: entry_inv_def)
  next
    case False
    then have "rb_comps (rs_rbd s') j = rb_comps (rs_rbd s) j" "j \<in> rs_rel s' \<longleftrightarrow> j \<in> rs_rel s" using assms(4,6) by auto
    then show ?thesis using assms(1) assms(5) [OF False] by (simp add: rsys_inv_def)
  qed
  moreover have "queue_inv (rb_ev (rs_rbd s)) (rs_pc s') (rs_rel s') (rs_pushed s) (rs_polled s) (rb_queue (rs_rbd s))"
    by (rule queue_inv_same [of _ "rs_pc s" "rs_rel s" _ _ _ i]) (use assms(1,5,6,9) in \<open>simp_all add: rsys_inv_def\<close>)
  ultimately show ?thesis using assms(4,7,8) by (simp add: rsys_inv_def)
qed

lemma poll_loop_inv:
  assumes "rsys_inv s" "rb_ev (rs_rbd s)"
  shows "\<exists>xs b. poll_loop n ys (rs_rbd s) = Some (ys @ xs, b) \<and> rsys_inv (s\<lparr>rs_rbd := b, rs_polled := rs_polled s @ xs\<rparr>)"
  using assms
proof (induction n arbitrary: s ys)
  case 0
  then show ?case by (intro exI [of _ "[]"] exI [of _ "rs_rbd s"]) simp
next
  case (Suc n)
  show ?case
  proof (cases "rb_queue (rs_rbd s)")
    case Nil
    then show ?thesis using Suc.prems by (intro exI [of _ "[]"] exI [of _ "rs_rbd s"]) simp
  next
    case (Cons p q)
    let ?s = "s\<lparr>rs_rbd := (rs_rbd s)\<lparr>rb_queue := q\<rparr>, rs_polled := rs_polled s @ [p]\<rparr>"
    obtain c where c: "rb_comps (rs_rbd s) p = Some c" "\<not> c_freed c" using queued_live [OF Suc.prems(1), of p] Cons by auto
    have "rsys_inv ?s" using Suc.prems Cons queue_inv_pop by (simp add: rsys_inv_def)
    then obtain xs b where "poll_loop n (ys @ [p]) (rs_rbd ?s) = Some ((ys @ [p]) @ xs, b)"
      "rsys_inv (?s\<lparr>rs_rbd := b, rs_polled := rs_polled ?s @ xs\<rparr>)"
      using Suc.IH [of ?s "ys @ [p]"] Suc.prems(2) by auto
    then show ?thesis using Cons c by (intro exI [of _ "p # xs"] exI [of _ b]) simp
  qed
qed

lemma complete_sound:
  assumes "rsys_inv s" "allowed (Complete i) s"
  shows "\<exists>s'. rstep (Complete i) s = Some s' \<and> rsys_inv s'"
proof -
  obtain c where c: "rb_comps (rs_rbd s) i = Some c" using rsys_inv_none [OF assms(1)] assms(2) by (cases "rb_comps (rs_rbd s) i") auto
  note ci = rsys_invD [OF assms(1) c]
  note cs = complete_comp_inv [OF ci]
  show ?thesis
  proof (cases "rs_pc s i")
    case Called
    let ?b = "(rs_rbd s)\<lparr>rb_comps := (rb_comps (rs_rbd s))(i \<mapsto> c)\<rparr>"
    have upd: "(rb_comps (rs_rbd s))(i \<mapsto> c) = rb_comps (rs_rbd s)" using c by (simp add: fun_upd_idem)
    have run: "comp_run c = Some c" "comp_inv Queued (i \<in> rs_rel s) (rs_wait s i) (rs_val s i) c" using cs(2) Called by auto
    have q: "queue_inv (rb_ev (rs_rbd s)) (rs_pc s) (rs_rel s) (rs_pushed s) (rs_polled s) (rb_queue (rs_rbd s))"
      using assms(1) by (simp add: rsys_inv_def)
    let ?s = "s\<lparr>rs_rbd := on_request_complete i (rs_rbd s), rs_pc := (rs_pc s)(i := Queued),
        rs_pushed := (if rb_ev (rs_rbd s) then rs_pushed s @ [i] else rs_pushed s)\<rparr>"
    have "rstep (Complete i) s = Some ?s" using Called c run upd by (simp add: on_comp_def)
    moreover have "entry_inv (rs_pc ?s j) (j \<in> rs_rel ?s) (rs_wait ?s j) (rs_val ?s j) (rb_comps (rs_rbd ?s) j)" for j
      using assms(1) run(2) c by (cases "j = i") (simp_all add: rsys_inv_def on_request_complete_def entry_inv_def)
    moreover have "queue_inv (rb_ev (rs_rbd ?s)) (rs_pc ?s) (rs_rel ?s) (rs_pushed ?s) (rs_polled ?s) (rb_queue (rs_rbd ?s))"
      using queue_inv_push [of _ _ _ _ _ i] queue_inv_same [OF q, of i "(rs_pc s)(i := Queued)" "rs_rel s"] q Called
      by (cases "rb_ev (rs_rbd s)") (simp_all add: on_request_complete_def)
    ultimately have "rstep (Complete i) s = Some ?s \<and> rsys_inv ?s" unfolding rsys_inv_def by blast
    then show ?thesis by blast
  next
    case Running
    then obtain c' where "complete_callback (rs_val s i) c = Some c'" "comp_inv Called (i \<in> rs_rel s) (rs_wait s i) (rs_val s i) c'" using cs(1) by auto
    then show ?thesis using Running c by (auto simp: on_comp_def intro!: comp_update_inv [OF assms(1) c])
  next
    case Queued
    then obtain c' where "complete_flag c = Some c'" "comp_inv Flagged (i \<in> rs_rel s) (rs_wait s i) (rs_val s i) c'" using cs(3) by auto
    then show ?thesis using Queued c by (auto simp: on_comp_def intro!: comp_update_inv [OF assms(1) c])
  next
    case Flagged
    then obtain c' where "comp_dec_and_free c = Some c'" "comp_inv Dropped (i \<in> rs_rel s) (rs_wait s i) (rs_val s i) c'" using cs(4) by auto
    then show ?thesis using Flagged c by (auto simp: on_comp_def intro!: comp_update_inv [OF assms(1) c])
  next
    case Dropped
    then obtain c' where "on_req req_flag c = Some c'" "comp_inv ReqFlagged (i \<in> rs_rel s) (rs_wait s i) (rs_val s i) c'" using cs(5) by auto
    then show ?thesis using Dropped c by (auto simp: on_comp_def intro!: comp_update_inv [OF assms(1) c])
  next
    case ReqFlagged
    then obtain c' where "on_req dec_and_free c = Some c'" "comp_inv Finished (i \<in> rs_rel s) (rs_wait s i) (rs_val s i) c'" using cs(6) by auto
    then show ?thesis using ReqFlagged c by (auto simp: on_comp_def intro!: comp_update_inv [OF assms(1) c])
  qed (use assms(2) in auto)
qed

lemma rstep_sound:
  assumes "rsys_inv s" "allowed e s"
  shows "\<exists>s'. rstep e s = Some s' \<and> rsys_inv s'"
proof (cases e)
  case (Create i cb)
  let ?s = "s\<lparr>rs_rbd := create_completion cb i (rs_rbd s)\<rparr>"
  have n: "rs_pc s i = Fresh \<and> i \<notin> rs_rel s \<and> rs_wait s i = 0" using rsys_inv_none [OF assms(1)] assms(2) Create by simp
  have "entry_inv (rs_pc ?s j) (j \<in> rs_rel ?s) (rs_wait ?s j) (rs_val ?s j) (rb_comps (rs_rbd ?s) j)" for j
    using assms(1) n by (cases "j = i") (simp_all add: rsys_inv_def create_completion_def entry_inv_def new_completion_inv)
  moreover have "queue_inv (rb_ev (rs_rbd ?s)) (rs_pc ?s) (rs_rel ?s) (rs_pushed ?s) (rs_polled ?s) (rb_queue (rs_rbd ?s))"
    using assms(1) by (simp add: rsys_inv_def create_completion_def)
  ultimately have "rsys_inv ?s" unfolding rsys_inv_def by blast
  then show ?thesis using Create by simp
next
  case (Submit i r v)
  then obtain c where c: "rb_comps (rs_rbd s) i = Some c" and f: "rs_pc s i = Fresh" using assms(2) by auto
  from rsys_invD [OF assms(1) c] f have "comp_inv Fresh (i \<in> rs_rel s) (rs_wait s i) (rs_val s i) c" by simp
  then obtain c' where c': "Option.bind (delayed_init r c) comp_run = Some c'" "comp_inv Running (i \<in> rs_rel s) (rs_wait s i) v c'"
    using submit_inv [of _ _ _ c r v] assms(2) Submit by fastforce
  then have "rbd_aio_submit r i (rs_rbd s) = Some ((rs_rbd s)\<lparr>rb_comps := (rb_comps (rs_rbd s))(i \<mapsto> c')\<rparr>)"
    using c by (auto simp: rbd_aio_submit_def on_comp_def bind_eq_Some_conv comp_run_def split: if_splits)
  then show ?thesis using Submit c' f by (auto intro!: comp_update_inv [OF assms(1) c])
next
  case (Complete i)
  then show ?thesis using complete_sound [OF assms(1)] assms(2) by simp
next
  case (Release i)
  then obtain c where c: "rb_comps (rs_rbd s) i = Some c" and a: "i \<notin> rs_rel s" "rs_wait s i = 0"
    "rb_ev (rs_rbd s) \<longrightarrow> i \<in> set (rs_polled s)" using assms(2) by auto
  have ci: "comp_inv (rs_pc s i) False 0 (rs_val s i) c" using rsys_invD [OF assms(1) c] a by simp
  then have "\<not> c_freed c" by (simp add: comp_inv_def)
  then obtain c' where "comp_release c = Some c'" "comp_inv (rs_pc s i) True 0 (rs_val s i) c'"
    using drop_inv [OF ci, of "rs_pc s i" True] by (auto simp: comp_release_def)
  then show ?thesis using Release c a by (auto simp: release_completion_def on_comp_def intro!: comp_update_inv [OF assms(1) c])
next
  case (Poll n)
  then obtain xs b where "poll_loop n [] (rs_rbd s) = Some (xs, b)" "rsys_inv (s\<lparr>rs_rbd := b, rs_polled := rs_polled s @ xs\<rparr>)"
    using poll_loop_inv [OF assms(1), of n "[]"] assms(2) by auto
  then show ?thesis using Poll assms(2) by (simp add: poll_io_events_def)
next
  case (WaitEnter i)
  then obtain c where c: "rb_comps (rs_rbd s) i = Some c" and a: "i \<notin> rs_rel s" using assms(2) by auto
  let ?c = "c\<lparr>c_refcount := c_refcount c + 1\<rparr>"
  have "comp_wait_enter c = Some ?c" "comp_inv (rs_pc s i) (i \<in> rs_rel s) (Suc (rs_wait s i)) (rs_val s i) ?c"
    using rsys_invD [OF assms(1) c] a by (cases "c_req c"; auto simp: comp_inv_def comp_wait_enter_def)+
  then show ?thesis using WaitEnter c by (auto simp: on_comp_def intro!: comp_update_inv [OF assms(1) c])
next
  case (WaitLeave i)
  then obtain c where c: "rb_comps (rs_rbd s) i = Some c" and a: "0 < rs_wait s i" using assms(2) by auto
  let ?c = "c\<lparr>c_refcount := c_refcount c - 1\<rparr>"
  have "comp_wait_leave c = Some ?c" "comp_inv (rs_pc s i) (i \<in> rs_rel s) (rs_wait s i - 1) (rs_val s i) ?c"
    using rsys_invD [OF assms(1) c] a by (cases "c_req c"; auto simp: comp_inv_def comp_wait_leave_def)+
  then show ?thesis using WaitLeave c by (auto simp: on_comp_def intro!: comp_update_inv [OF assms(1) c])
qed

lemma rrun_sound:
  assumes "protocol es s" "rsys_inv s"
  shows "\<exists>s'. rrun es s = Some s' \<and> rsys_inv s'"
  using assms
proof (induction es arbitrary: s)
  case (Cons e es)
  then obtain s' where "rstep e s = Some s'" "rsys_inv s'" using rstep_sound [of s e] by auto
  then show ?case using Cons by simp
qed simp

text \<open>The requests of the interface are new requests in the sense of \<open>allowed\<close>.\<close>

lemma api_requests_new:
  "rb_comps (rs_rbd s) i \<noteq> None \<Longrightarrow> rs_pc s i = Fresh \<Longrightarrow> allowed (Submit i (aio_request.truncate (image_read off iov)) v) s"
  "rb_comps (rs_rbd s) i \<noteq> None \<Longrightarrow> rs_pc s i = Fresh \<Longrightarrow> allowed (Submit i (aio_request.truncate (image_write off iov)) v) s"
  "rb_comps (rs_rbd s) i \<noteq> None \<Longrightarrow> rs_pc s i = Fresh \<Longrightarrow> allowed (Submit i (image_trim off len) v) s"
  "rb_comps (rs_rbd s) i \<noteq> None \<Longrightarrow> rs_pc s i = Fresh \<Longrightarrow> allowed (Submit i image_flush v) s"
  by (simp_all add: image_read_def image_write_def image_trim_def image_flush_def aio_request.defs)

section \<open>Lifetimes\<close>

text \<open>
  C12. Completions live exactly as long as they are needed. Take any interleaving of clients that keep to the
  rules of \<open>allowed\<close> with the threads that end their requests, these cut at every point where \<^verbatim>\<open>complete\<close> and
  \<^verbatim>\<open>complete_request\<close> touch shared state. No assertion fails and nothing reads or writes a completion or a
  request that was freed. A completion is freed exactly when its request has dropped it and the client has
  released it; its request, when that has happened and the request has ended. A callback is called once at most,
  with the value the request ended with, which \<^verbatim>\<open>get_retval\<close> then gives. A client that polls gets every
  queued completion once, in the order in which they were queued.
\<close>

theorem completion_lifetime:
  assumes "protocol es (rinit poll)"
  shows "case rrun es (rinit poll) of None \<Rightarrow> False
    | Some s \<Rightarrow>
        rs_pushed s = rs_polled s @ rb_queue (rs_rbd s) \<and> distinct (rs_pushed s)
        \<and> (\<forall>i c. rb_comps (rs_rbd s) i = Some c \<longrightarrow>
             (c_freed c \<longleftrightarrow> rs_pc s i \<in> {Dropped, ReqFlagged, Finished} \<and> i \<in> rs_rel s)
             \<and> (\<forall>r. c_req c = Some r \<longrightarrow> (a_freed r \<longleftrightarrow> rs_pc s i = Finished \<and> c_freed c))
             \<and> c_calls c = (if rs_pc s i \<in> {Fresh, Running} \<or> \<not> c_cb c then [] else [rs_val s i])
             \<and> (\<not> c_freed c \<and> c_done c \<longrightarrow> get_retval c = Some (rs_val s i)))"
proof -
  obtain s where s: "rrun es (rinit poll) = Some s" "rsys_inv s" using rrun_sound [OF assms rinit_inv] by blast
  have f: "(c_freed c \<longleftrightarrow> rs_pc s i \<in> {Dropped, ReqFlagged, Finished} \<and> i \<in> rs_rel s)
      \<and> (\<forall>r. c_req c = Some r \<longrightarrow> (a_freed r \<longleftrightarrow> rs_pc s i = Finished \<and> c_freed c))
      \<and> c_calls c = (if rs_pc s i \<in> {Fresh, Running} \<or> \<not> c_cb c then [] else [rs_val s i])
      \<and> (\<not> c_freed c \<and> c_done c \<longrightarrow> get_retval c = Some (rs_val s i))"
    if "rb_comps (rs_rbd s) i = Some c" for i c
    using rsys_invD [OF s(2) that]
    by (cases "rs_pc s i"; cases "c_req c") (auto simp: comp_inv_def req_inv_def get_retval_def)
  have "rs_pushed s = rs_polled s @ rb_queue (rs_rbd s) \<and> distinct (rs_pushed s)"
    using s(2) unfolding rsys_inv_def queue_inv_def by blast
  then show ?thesis unfolding s(1) option.case using f by blast
qed

definition demo_events :: "revent list" where
  "demo_events =
     [Create 1 True, Submit 1 (image_trim 0 4096) 0, Complete 1, Complete 1, Poll 4, Release 1, Complete 1, Complete 1, Complete 1, Complete 1]"

lemmas rbd_ops = create_completion_def new_completion_def rbd_aio_submit_def on_comp_def delayed_init_def comp_run_def
  complete_callback_def on_request_complete_def complete_flag_def comp_dec_and_free_def destroy_completion_def comp_release_def
  release_completion_def on_req_def req_flag_def req_release_def dec_and_free_def poll_io_events_def image_trim_def

theorem completion_lifetime_witness:
  "protocol demo_events (rinit True)
   \<and> (\<exists>s c r. rrun demo_events (rinit True) = Some s \<and> rb_comps (rs_rbd s) 1 = Some c \<and> c_freed c \<and> c_calls c = [0]
        \<and> c_req c = Some r \<and> a_freed r \<and> rs_polled s = [1])"
proof -
  have p: "protocol demo_events (rinit True)"
    by (simp add: demo_events_def rinit_def switch_to_poll_def rbd_ops Let_def eval_nat_numeral)
  obtain s where s: "rrun demo_events (rinit True) = Some s" "rs_pc s 1 = Finished" "1 \<in> rs_rel s" "rs_val s 1 = 0" "rs_polled s = [1]"
    "\<exists>c. rb_comps (rs_rbd s) 1 = Some c \<and> c_cb c \<and> c_req c \<noteq> None"
    by (simp add: demo_events_def rinit_def switch_to_poll_def rbd_ops Let_def eval_nat_numeral)
  then obtain c r where c: "rb_comps (rs_rbd s) 1 = Some c" "c_cb c" "c_req c = Some r" by auto
  have "c_freed c \<and> c_calls c = [0] \<and> a_freed r" using completion_lifetime [OF p] s c by simp
  then show ?thesis using p s c by blast
qed

end
