(* ===== verification/Rbd_Io.thy ===== *)
theory Rbd_Io
  imports Rbd Pipeline_Correct Translate_Trim
begin

text \<open>
  Properties of the requests that \<^verbatim>\<open>liblsvd.cc\<close> and \<^verbatim>\<open>bdev_lsvd.cc\<close> make: what a write of zeroes to the
  block device leaves on the disk, the vectors of repeated writes, and which calls release their request.
\<close>

section \<open>Calls that wait\<close>

lemma run_and_wait_new:
  assumes "a_refcount r = 2" "\<not> a_freed r"
  shows "run_and_wait val r = Some (r\<lparr>a_refcount := 1, a_done := True, a_calls := a_calls r @ [val]\<rparr>)"
  using assms by (simp add: run_and_wait_def complete_request_def dec_and_free_def wait_enter_def wait_leave_def)

lemma sync_calls_free:
  "\<exists>r. rbd_read off len p = Some r \<and> a_freed r \<and> a_calls r = [sbf 32 len]"
  "\<exists>r. rbd_write off len p = Some r \<and> a_freed r \<and> a_calls r = [0]"
  "\<exists>r. rbd_flush = Some r \<and> a_freed r \<and> a_calls r = [0]"
  by (simp_all add: rbd_read_def rbd_write_def rbd_flush_def run_wait_release_def image_read_def image_write_def image_flush_def
      run_and_wait_new req_release_def dec_and_free_def)

lemma discard_leaks: "\<exists>r. rbd_discard off len = Some r \<and> \<not> a_freed r \<and> a_refcount r = 1"
  by (simp add: rbd_discard_def image_trim_def run_and_wait_new)

section \<open>Zeroes on the block device\<close>

lemma trim_request_runs:
  assumes "pipe_inv s" "0 \<le> off" "off div 512 < (off + len) div 512" "(off + len) div 512 \<le> obj_amax"
  obtains r st' where "trim_req_run u (image_trim off len) (ps_st s) = Some (r, st')" "a_calls r = [0]" "\<not> a_freed r" "a_refcount r = 1"
    "t_bufmap st' = t_bufmap (ps_st s)" "t_mem st' = t_mem (ps_st s)"
    "\<And>x. obj_look (t_objmap st') x =
        (if off div 512 \<le> x \<and> x < (off + len) div 512 then None else obj_look (t_objmap (ps_st s)) x)"
proof -
  have m: "objmap_ok (t_objmap (ps_st s))" "live_ok (t_object_info (ps_st s)) (t_objmap (ps_st s))"
    using assms(1) maps_invD(1,2) by (auto simp: pipe_inv_def)
  show thesis
  proof (rule trim_run [OF m assms(2-4), where u = u], goal_cases)
    case (1 om info D)
    then have "trim_req_run u (image_trim off len) (ps_st s) =
        Some ((image_trim off len)\<lparr>a_refcount := 1, a_done := True, a_calls := [0]\<rparr>,
          (ps_st s)\<lparr>t_objmap := om, t_object_info := info,
            t_total_live_sectors := t_total_live_sectors (ps_st s) - tracked_len (t_object_info (ps_st s)) D\<rparr>)"
      by (simp add: trim_req_run_def image_trim_def complete_request_def dec_and_free_def)
    then show ?case by (rule that) (use 1(4) in \<open>simp_all add: image_trim_def\<close>)
  qed
qed

text \<open>
  C13. Writes of zeroes to the block device. The device makes a trim of them. In every state of a run of the
  volume the trim is carried out without a failed assertion and reports success; afterwards the sectors of its range
  read as zeroes only if they are not buffered. A sector of the range that is still in a batch keeps its old
  bytes, and every byte outside the range keeps its value. The request keeps one reference, which
  nothing in the device ever drops.
\<close>

theorem write_zeroes_disk:
  assumes "open_ok cfg uuid om last_seq info p"
    and "psteps zcrc (opened name cfg vol uuid mem om last_seq info ckpts p objs) es s"
    and "io_type io = IO_WRITE_ZEROES" "0 \<le> io_offset_blocks io" "0 < io_num_blocks io"
    and "8 * (io_offset_blocks io + io_num_blocks io) \<le> obj_amax"
  shows "\<exists>r r' st'. lsvd_submit_io io = Some (RTrim r) \<and> trim_req_run u r (ps_st s) = Some (r', st')
    \<and> a_calls r' = [0] \<and> lsvd_io_done 0 \<and> \<not> a_freed r' \<and> a_refcount r' = 1
    \<and> (\<forall>a. disk (s\<lparr>ps_st := st'\<rparr>) a =
         (if 4096 * io_offset_blocks io \<le> a \<and> a < 4096 * (io_offset_blocks io + io_num_blocks io)
             \<and> buf_look (t_bufmap (ps_st s)) (a div 512) = None
          then 0 else disk s a))"
proof -
  let ?off = "4096 * io_offset_blocks io" and ?len = "4096 * io_num_blocks io"
  have inv: "pipe_inv s" using psteps_refine [OF assms(2) opened_inv [OF assms(1)]] by simp
  have u: "ubf 64 ?off = ?off" "ubf 64 ?len = ?len" using assms(4-6) by (simp_all add: ubf_id obj_amax_def)
  have sub: "lsvd_submit_io io = Some (RTrim (image_trim ?off ?len))"
    using assms(3) u by (simp add: lsvd_submit_io_def bdev_blocklen_def Let_def mult.commute)
  have d: "?off div 512 = 8 * io_offset_blocks io" "(?off + ?len) div 512 = 8 * (io_offset_blocks io + io_num_blocks io)"
    using nonzero_mult_div_cancel_left [of 512 "8 * io_offset_blocks io"]
      nonzero_mult_div_cancel_left [of 512 "8 * (io_offset_blocks io + io_num_blocks io)"] by (simp_all add: algebra_simps)
  have pre: "0 \<le> ?off" "?off div 512 < (?off + ?len) div 512" "(?off + ?len) div 512 \<le> obj_amax" unfolding d using assms(4-6) by auto
  obtain r' st' where t: "trim_req_run u (image_trim ?off ?len) (ps_st s) = Some (r', st')" "a_calls r' = [0]" "\<not> a_freed r'" "a_refcount r' = 1"
    and st: "t_bufmap st' = t_bufmap (ps_st s)" "t_mem st' = t_mem (ps_st s)"
    and o: "\<And>x. obj_look (t_objmap st') x =
        (if ?off div 512 \<le> x \<and> x < (?off + ?len) div 512 then None else obj_look (t_objmap (ps_st s)) x)"
    by (rule trim_request_runs [OF inv pre, of u]) blast
  have dv: "X \<le> a div 512 \<longleftrightarrow> 512 * X \<le> a" "a div 512 < X \<longleftrightarrow> a < 512 * X" for X a :: int by linarith+
  have rng: "8 * io_offset_blocks io \<le> a div 512 \<and> a div 512 < 8 * (io_offset_blocks io + io_num_blocks io)
      \<longleftrightarrow> ?off \<le> a \<and> a < 4096 * (io_offset_blocks io + io_num_blocks io)" for a unfolding dv by simp
  have look: "obj_look (t_objmap st') (a div 512) =
      (if ?off \<le> a \<and> a < 4096 * (io_offset_blocks io + io_num_blocks io) then None else obj_look (t_objmap (ps_st s)) (a div 512))" for a
    by (simp only: o d rng)
  have "disk (s\<lparr>ps_st := st'\<rparr>) a =
      (if ?off \<le> a \<and> a < 4096 * (io_offset_blocks io + io_num_blocks io) \<and> buf_look (t_bufmap (ps_st s)) (a div 512) = None
       then 0 else disk s a)" for a
    using st look [of a] by (cases "buf_look (t_bufmap (ps_st s)) (a div 512)") (simp_all add: disk_def volume_def sector_byte_def)
  then show ?thesis using sub t by (auto simp: lsvd_io_done_def)
qed

definition demo_io :: bdev_io where
  "demo_io = \<lparr>io_type = IO_WRITE_ZEROES, io_offset_blocks = 1, io_num_blocks = 1, io_iovs = []\<rparr>"

lemma demo_wrote_disk: "disk demo_wrote 5120 = 7" "buf_look (t_bufmap (ps_st demo_wrote)) 10 \<noteq> None"
proof -
  have "disk demo_wrote = disk_run (disk demo_open) [Wrote 10 (replicate 512 7)]"
    using psteps_refine [OF psteps_step [OF demo_step1 [of "\<lambda>_. 0"] psteps_refl] demo_open_inv] by simp
  then show d: "disk demo_wrote 5120 = 7" by (simp add: disk_write_def)
  have "t_objmap (ps_st demo_wrote) = extmap_empty"
    by (simp add: demo_wrote_def wrote_def Let_def demo_open_def opened_def make_translate_def)
  then show "buf_look (t_bufmap (ps_st demo_wrote)) 10 \<noteq> None"
    using d by (auto simp: disk_def volume_def sector_byte_def lookup_fun_empty split: option.splits)
qed

theorem write_zeroes_disk_witness:
  "\<exists>r r' st'. lsvd_submit_io demo_io = Some (RTrim r) \<and> trim_req_run (Obj_offset 0 0) r (ps_st demo_wrote) = Some (r', st')
     \<and> disk (demo_wrote\<lparr>ps_st := st'\<rparr>) 5120 = 7"
proof -
  have run: "psteps (\<lambda>_. 0) demo_open [Wrote 10 (replicate 512 7)] demo_wrote" by (rule psteps_step [OF demo_step1 psteps_refl])
  have io: "io_type demo_io = IO_WRITE_ZEROES" "0 \<le> io_offset_blocks demo_io" "0 < io_num_blocks demo_io"
    "8 * (io_offset_blocks demo_io + io_num_blocks demo_io) \<le> obj_amax" by (simp_all add: demo_io_def obj_amax_def)
  from write_zeroes_disk [OF demo_open_ok run [unfolded demo_open_def] io, of "Obj_offset 0 0"] demo_wrote_disk
  show ?thesis by fastforce
qed

section \<open>Repeated writes\<close>

lemma writesame_addrs:
  assumes "0 < d" "0 \<le> len"
  shows "addrs (writesame_iovs len p d) = map (\<lambda>k. p + int k mod d) [0..<nat len]
    \<and> int (length (writesame_iovs len p d)) = (len + d - 1) div d \<and> (\<forall>v\<in>set (writesame_iovs len p d). 0 < iov_len v)"
  using assms
proof (induction len p d rule: writesame_iovs.induct)
  case (1 len p d)
  show ?case
  proof (cases "0 < len")
    case False
    then show ?thesis using "1.prems" by (simp add: writesame_iovs.simps)
  next
    case True
    let ?b = "min len d" and ?t = "writesame_iovs (len - min len d) p d"
    have eq: "writesame_iovs len p d = \<lparr>iov_base = p, iov_len = ?b\<rparr> # ?t"
      using True "1.prems" by (subst writesame_iovs.simps) (simp add: Let_def)
    have ih: "addrs ?t = map (\<lambda>k. p + int k mod d) [0..<nat (len - ?b)]"
      "int (length ?t) = (len - ?b + d - 1) div d" "\<forall>v\<in>set ?t. 0 < iov_len v"
      using "1.IH" [OF _ refl] True "1.prems" by auto
    have hd: "[p..p + ?b - 1] = map (\<lambda>k. p + int k mod d) [0..<nat ?b]"
    proof (rule nth_equalityI)
      fix i assume "i < length [p..p + ?b - 1]"
      then have "p + int i \<le> p + ?b - 1" "int i < d" "i < nat ?b" by auto
      then show "[p..p + ?b - 1] ! i = map (\<lambda>k. p + int k mod d) [0..<nat ?b] ! i" by (simp add: nth_upto)
    qed simp
    have sh: "map (\<lambda>k. p + int k mod d) [0..<nat (len - ?b)] = map (\<lambda>k. p + int k mod d) [nat ?b..<nat len]"
    proof (rule nth_equalityI)
      fix i assume "i < length (map (\<lambda>k. p + int k mod d) [0..<nat (len - ?b)])"
      then show "map (\<lambda>k. p + int k mod d) [0..<nat (len - ?b)] ! i = map (\<lambda>k. p + int k mod d) [nat ?b..<nat len] ! i"
        using True "1.prems" by (auto simp: min_def split: if_splits)
    qed (use True "1.prems" in auto)
    have "[0..<nat len] = [0..<nat ?b] @ [nat ?b..<nat len]"
      using upt_add_eq_append [of 0 "nat ?b" "nat len - nat ?b"] True "1.prems" by (simp add: nat_mono)
    then have "addrs (writesame_iovs len p d) = map (\<lambda>k. p + int k mod d) [0..<nat len]" unfolding eq using hd sh ih(1) by simp
    moreover have "1 + (len - ?b + d - 1) div d = (len + d - 1) div d"
    proof (cases "len \<le> d")
      case True
      then show ?thesis using \<open>0 < len\<close> "1.prems" by (simp add: div_pos_geq)
    next
      case False
      have "(len + d - 1) div d = (len - d + d - 1 + d) div d" by (simp add: algebra_simps)
      also have "\<dots> = 1 + (len - d + d - 1) div d" using "1.prems" div_add_self2 [of d "len - d + d - 1"] by simp
      finally show ?thesis using False by simp
    qed
    ultimately show ?thesis using ih(2,3) True "1.prems" eq by auto
  qed
qed

lemma div_round_up_negative:
  assumes "2 ^ 31 \<le> len" "len < 2 ^ 32"
  shows "div_round_up len 4096 \<le> 0"
proof -
  have "(len + 2 ^ 31) mod 2 ^ 32 = (len - 2 ^ 31) mod 2 ^ 32" using mod_add_self2 [of "len - 2 ^ 31" "2 ^ 32"] by (simp add: add.commute)
  then have "(len + 2 ^ 31) mod 2 ^ 32 = len - 2 ^ 31" using assms by (simp add: mod_pos_pos_trivial)
  then have s: "sbf 32 len = len - 2 ^ 32" by (simp add: sbf_def signed_take_bit_eq_take_bit_shift take_bit_int_def)
  have t: "sbf 32 4096 = 4096" by (simp add: sbf_id)
  have u: "sbf 32 (len - 2 ^ 32 + 4096 - 1) = len - 2 ^ 32 + 4095" using assms by (intro trans [OF sbf_id]) auto
  show ?thesis
  proof (cases "len - 2 ^ 32 + 4095 < 0")
    case True
    then show ?thesis by (simp add: div_round_up_def s t u [simplified] cdiv_def)
  next
    case False
    then have "(len - 2 ^ 32 + 4095) div 4096 = 0" using assms by (simp add: div_pos_pos_trivial)
    then show ?thesis using False by (simp add: div_round_up_def s t u [simplified] cdiv_nonneg)
  qed
qed

text \<open>
  C31. Repeated writes. For a pattern and a length that are together below two gigabytes, the vectors of
  \<^verbatim>\<open>rbd_aio_writesame\<close> fit the array, which they fill, and the write they make has exactly the requested length:
  its byte \<open>k\<close> is byte \<open>k\<close> modulo the length of the pattern. From two gigabytes on, up to four, a write of zeroes
  computes an array length that is not positive and stores its vectors outside of the array.
\<close>

theorem writesame_fits:
  assumes "0 \<le> len" "0 < data_len" "len + data_len < 2 ^ 31"
  shows "(case rbd_aio_writesame off len p data_len of None \<Rightarrow> False
     | Some r \<Rightarrow> a_offset r = off \<and> a_bytes r = len \<and> int (length (a_iovs r)) = div_round_up len data_len
         \<and> length (addrs (a_iovs r)) = nat len \<and> (\<forall>k<nat len. addrs (a_iovs r) ! k = p + int k mod data_len))
    \<and> (\<forall>n z. 2 ^ 31 \<le> n \<longrightarrow> n < 2 ^ 32 \<longrightarrow> rbd_aio_write_zeroes z off n = None)"
proof (intro conjI allI impI)
  let ?v = "writesame_iovs len p data_len"
  have w: "addrs ?v = map (\<lambda>k. p + int k mod data_len) [0..<nat len]" "int (length ?v) = (len + data_len - 1) div data_len"
    "\<forall>v\<in>set ?v. 0 < iov_len v" using writesame_addrs [OF assms(2,1), of p] by auto
  have s: "sbf 32 data_len = data_len" using assms by (intro sbf_id) auto
  have d: "div_round_up len data_len = (len + data_len - 1) div data_len" using assms by (intro div_round_up_eq) auto
  have m: "mk_smartiov ?v = ?v" using w(3) by (simp add: mk_smartiov_def)
  have "nat len < 2 ^ 63" using assms by simp
  then have "iov_ok ?v" using w by (auto simp: iov_ok_def list_all_iff less_imp_le)
  then have "bytes ?v = len" using bytes_addrs w(1) assms(1) by simp
  then show "case rbd_aio_writesame off len p data_len of None \<Rightarrow> False
     | Some r \<Rightarrow> a_offset r = off \<and> a_bytes r = len \<and> int (length (a_iovs r)) = div_round_up len data_len
         \<and> length (addrs (a_iovs r)) = nat len \<and> (\<forall>k<nat len. addrs (a_iovs r) ! k = p + int k mod data_len)"
    using w s d m assms(2) by (simp add: rbd_aio_writesame_def Let_def image_write_def)
next
  fix n z :: int assume n: "2 ^ 31 \<le> n" "n < 2 ^ 32"
  have "0 < (n + 4095) div 4096" using n by (simp add: pos_imp_zdiv_pos_iff)
  then have "0 < int (length (writesame_iovs n z 4096))" using writesame_addrs [of 4096 n z] n by simp
  then have "\<not> int (length (writesame_iovs n z 4096)) \<le> div_round_up n 4096" using div_round_up_negative [OF n] by linarith
  then show "rbd_aio_write_zeroes z off n = None" by (simp add: rbd_aio_write_zeroes_def rbd_aio_writesame_def Let_def)
qed

theorem writesame_fits_witness:
  "(\<exists>r. rbd_aio_writesame 8192 10 64 4 = Some r \<and> a_bytes r = 10 \<and> length (a_iovs r) = 3 \<and> addrs (a_iovs r) ! 9 = 65)
   \<and> rbd_aio_write_zeroes 64 8192 (2 ^ 31) = None"
proof -
  have n: "div_round_up 10 4 = 3" by (simp add: div_round_up_eq)
  from writesame_fits [of 10 4 8192 64] obtain r where r: "rbd_aio_writesame 8192 10 64 4 = Some r" "a_bytes r = 10"
    "int (length (a_iovs r)) = 3" "\<forall>k<nat 10. addrs (a_iovs r) ! k = 64 + int k mod 4"
    by (auto simp: n split: option.splits)
  have "addrs (a_iovs r) ! 9 = 65" using r(4) [rule_format, of 9] by simp
  moreover have "rbd_aio_write_zeroes 64 8192 (2 ^ 31) = None" using writesame_fits [of 10 4 8192 64] by simp
  ultimately show ?thesis using r by auto
qed

end
