(* ===== verification/Rados.thy ===== *)
theory Rados
  imports Image_Request Recovery
begin

text \<open>
  The object store on RADOS (\<^verbatim>\<open>rados_backend.cc\<close>, \<^verbatim>\<open>backend.h\<close>). The library \<^verbatim>\<open>librados\<close> is a parameter: \<open>stat\<close>
  gives a result code and a size, \<open>aread\<close> the result of a read and the bytes it returned. Where the library
  holds the objects of a table, the store reads like that table, as the recovery of an image assumes.
\<close>

section \<open>Requests\<close>

text \<open>\<^verbatim>\<open>rados_io_req\<close> with the count of its base class; \<open>ra_ret\<close> is \<^verbatim>\<open>ret\<close>.\<close>

record rados_io_req =
  ra_refcount :: int
  ra_freed :: bool
  ra_ret :: int

definition new_rados_req :: rados_io_req where
  "new_rados_req = \<lparr>ra_refcount = 2, ra_freed = False, ra_ret = 0\<rparr>"

definition ra_dec_and_free :: "rados_io_req \<Rightarrow> rados_io_req option" where
  "ra_dec_and_free r =
     (if ra_freed r then None else Some (r\<lparr>ra_refcount := ra_refcount r - 1, ra_freed := (ra_refcount r = 1)\<rparr>))"

definition rados_callback :: "int \<Rightarrow> rados_io_req \<Rightarrow> rados_io_req option" where
  "rados_callback rv r = (if ra_freed r then None else ra_dec_and_free (r\<lparr>ra_ret := rv\<rparr>))"

definition ra_wait_enter :: "rados_io_req \<Rightarrow> rados_io_req option" where
  "ra_wait_enter r = (if ra_freed r then None else Some (r\<lparr>ra_refcount := ra_refcount r + 1\<rparr>))"

text \<open>
  \<^verbatim>\<open>run_getres_and_free\<close>: the callback comes, with \<open>rv\<close>, before or after the caller starts to wait
  (\<open>early\<close>), and always before the wait ends.
\<close>

definition run_getres_and_free :: "bool \<Rightarrow> int \<Rightarrow> rados_io_req \<Rightarrow> (int \<times> rados_io_req) option" where
  "run_getres_and_free early rv r =
     (case (if early then Option.bind (rados_callback rv r) ra_wait_enter
            else Option.bind (ra_wait_enter r) (rados_callback rv)) of
        None \<Rightarrow> None
      | Some r1 \<Rightarrow>
          (case ra_dec_and_free r1 of
             None \<Rightarrow> None
           | Some r2 \<Rightarrow> if ra_freed r2 then None else map_option (Pair (ra_ret r2)) (ra_dec_and_free r2)))"

lemma run_getres_and_free_ok:
  "\<exists>r. run_getres_and_free early rv new_rados_req = Some (rv, r) \<and> ra_freed r"
  by (simp add: run_getres_and_free_def new_rados_req_def rados_callback_def ra_wait_enter_def ra_dec_and_free_def)

section \<open>The store\<close>

type_synonym rados_stat = "string \<Rightarrow> int \<times> int"

type_synonym rados_aread = "string \<Rightarrow> int \<Rightarrow> int \<Rightarrow> int \<times> byte list"

text \<open>\<^verbatim>\<open>rados_read_req::notify\<close>: the bytes of a read that got some go to the front of the buffer.\<close>

definition read_notify_copy :: "int \<Rightarrow> byte list \<Rightarrow> byte list \<Rightarrow> byte list" where
  "read_notify_copy ret bl dst = (if 0 < ret then take (length dst) bl @ drop (length bl) dst else dst)"

text \<open>\<^verbatim>\<open>read\<close> into a buffer, with its result.\<close>

definition rados_read :: "rados_aread \<Rightarrow> string \<Rightarrow> int \<Rightarrow> byte list \<Rightarrow> int \<times> byte list" where
  "rados_read aread name off dst =
     (let (ret, bl) = aread name (int (length dst)) off in (ret, read_notify_copy ret bl dst))"

definition rados_exists :: "rados_stat \<Rightarrow> string \<Rightarrow> bool" where
  "rados_exists stat name = (fst (stat name) = 0)"

definition get_size :: "rados_stat \<Rightarrow> string \<Rightarrow> int opt_result" where
  "get_size stat name =
     (let (rv, sz) = stat name
      in if rv = 0 then Inr (Some sz) else if rv = - ENOENT then Inr None else Inl (Errno (- rv)))"

definition read_whole_obj :: "rados_stat \<Rightarrow> rados_aread \<Rightarrow> string \<Rightarrow> byte list opt_result" where
  "read_whole_obj stat aread name =
     (case get_size stat name of
        Inl e \<Rightarrow> Inl e
      | Inr None \<Rightarrow> Inr None
      | Inr (Some sz) \<Rightarrow>
          let (r, dst) = rados_read aread name 0 (replicate (nat sz) 0)
          in if r < 0 then Inr None else Inr (Some dst))"

section \<open>The store holds the objects\<close>

text \<open>
  What \<^verbatim>\<open>librados\<close> documents for a pool with the objects \<open>m\<close>: sizes, \<^verbatim>\<open>ENOENT\<close> for what is not there, and reads
  that return the bytes of the range that exist, and their number.
\<close>

definition librados_holds :: "(string \<rightharpoonup> byte list) \<Rightarrow> rados_stat \<Rightarrow> rados_aread \<Rightarrow> bool" where
  "librados_holds m stat aread \<longleftrightarrow>
     (\<forall>name. case m name of
        None \<Rightarrow> fst (stat name) = - ENOENT \<and> (\<forall>len off. aread name len off = (- ENOENT, []))
      | Some bs \<Rightarrow> stat name = (0, int (length bs))
          \<and> (\<forall>len off. 0 \<le> len \<longrightarrow> 0 \<le> off \<longrightarrow>
               aread name len off = (int (length (take (nat len) (drop (nat off) bs))), take (nat len) (drop (nat off) bs))))"

lemma librados_holdsD:
  assumes "librados_holds m stat aread"
  shows "m name = None \<Longrightarrow> fst (stat name) = - ENOENT \<and> aread name len off = (- ENOENT, [])"
    and "m name = Some bs \<Longrightarrow> stat name = (0, int (length bs))"
    and "m name = Some bs \<Longrightarrow> 0 \<le> len \<Longrightarrow> 0 \<le> off \<Longrightarrow>
      aread name len off = (int (length (take (nat len) (drop (nat off) bs))), take (nat len) (drop (nat off) bs))"
proof -
  note A = assms [unfolded librados_holds_def, rule_format, of name]
  show "m name = None \<Longrightarrow> fst (stat name) = - ENOENT \<and> aread name len off = (- ENOENT, [])" using A by simp
  show "m name = Some bs \<Longrightarrow> stat name = (0, int (length bs))" using A by simp
  show "m name = Some bs \<Longrightarrow> 0 \<le> len \<Longrightarrow> 0 \<le> off \<Longrightarrow>
      aread name len off = (int (length (take (nat len) (drop (nat off) bs))), take (nat len) (drop (nat off) bs))" using A by simp
qed

lemma read_whole_obj_holds:
  assumes "librados_holds m stat aread"
  shows "read_whole_obj stat aread name = Inr (m name)" "rados_exists stat name \<longleftrightarrow> m name \<noteq> None"
proof -
  note H = librados_holdsD [OF assms, of name]
  show "read_whole_obj stat aread name = Inr (m name)"
  proof (cases "m name")
    case None
    then show ?thesis using H(1) by (cases "stat name") (auto simp: read_whole_obj_def get_size_def ENOENT_def)
  next
    case (Some bs)
    then show ?thesis using H(2) [of bs] H(3) [of bs "int (length bs)" 0]
      by (simp add: read_whole_obj_def get_size_def rados_read_def read_notify_copy_def)
  qed
  show "rados_exists stat name \<longleftrightarrow> m name \<noteq> None"
    using H(1,2) by (cases "m name") (auto simp: rados_exists_def ENOENT_def)
qed

text \<open>
  A read through the store returns the code and the bytes that recovery assumes of a reader of \<open>m\<close>; behind
  the bytes that exist the buffer keeps its content.
\<close>

lemma rados_read_holds:
  assumes "librados_holds m stat aread" "m name = Some bs" "0 \<le> off"
  shows "rados_read aread name off dst =
     (fst (map_reader m name off (int (length dst))),
      snd (map_reader m name off (int (length dst))) @ drop (length (snd (map_reader m name off (int (length dst))))) dst)"
  using librados_holdsD(3) [OF assms(1,2) _ assms(3), of "int (length dst)"] assms(2,3)
  by (auto simp: rados_read_def read_notify_copy_def map_reader_def min_def)

end
