(* ===== verification/Restart.thy ===== *)
theory Restart
  imports Pipeline_Correct Recovery
begin

text \<open>
  From one life of a volume to the next: the pipeline writes a checkpoint, the process ends at any later
  moment, and the image is opened again. This joins the pipeline, the checkpoint formats and the recovery.
\<close>

text \<open>A volume that was just opened, over the objects in the store.\<close>

definition reopened :: "tstate \<Rightarrow> (int \<Rightarrow> byte list) \<Rightarrow> psys" where
  "reopened st objs = \<lparr>ps_st = st, ps_flight = [], ps_objs = objs\<rparr>"

lemma reopened_disk:
  assumes "t_bufmap st2 = extmap_empty" "obj_look (t_objmap st2) = obj_look (t_objmap (ps_st s))"
    and "buf_look (t_bufmap (ps_st s)) (a div 512) = None"
  shows "disk (reopened st2 (ps_objs s)) a = disk s a"
  using assms by (simp add: disk_def volume_def sector_byte_def reopened_def lookup_fun_empty)

lemma worker_checkpoint:
  assumes "t_queue st = r # q" "tr_op r = REQ_CKPT" "worker_step zcrc st = Some st'" "ckpt_ready (t_cur_seq st) st"
  obtains st1 where "write_checkpoint (t_cur_seq st) st1 = Some st'" "ckpt_ready (t_cur_seq st) st1" "t_name st1 = t_name st"
    "t_out st1 = t_out st" "t_objmap st1 = t_objmap st" "t_object_info st1 = t_object_info st" "t_vol_size st1 = t_vol_size st" "t_uuid st1 = t_uuid st"
proof -
  let ?st1 = "st\<lparr>t_queue := q, t_cur_seq := ubf 32 (t_cur_seq st + 1)\<rparr>"
  have "write_checkpoint (t_cur_seq st) ?st1 = Some st'" using assms(1-3) by (simp add: worker_step_def Let_def)
  moreover have "ckpt_ready (t_cur_seq st) ?st1" using assms(4) by (simp add: ckpt_ready_def)
  ultimately show thesis by (rule that) simp_all
qed

text \<open>
  C4. Restart. Let the worker handle a checkpoint in any state of a run whose values fit the formats, let the
  store then hold the two objects it wrote and no object after it, and let the process end. Opening the
  image succeeds. Every byte that was not in a batch at the checkpoint is the byte of the flat disk to
  which all writes of the run were applied; if nothing was buffered, the whole disk is. But the checkpoint does not wait for
  uploads: a sector that an unfinished upload was about to store is mapped to its object, which the store
  does not have.
\<close>

theorem restart_disk:
  assumes "open_ok cfg uuid om last_seq info p"
    and "psteps zcrc (opened name cfg vol uuid mem om last_seq info ckpts p objs) es s"
    and "t_queue (ps_st s) = r # q" "tr_op r = REQ_CKPT" "worker_step zcrc (ps_st s) = Some st'"
    and "ckpt_ready (t_cur_seq (ps_st s)) (ps_st s)"
    and "holds_writes whole rd (drop (length (t_out (ps_st s))) (t_out st'))"
    and "rd (oname (t_name (ps_st s)) (t_cur_seq (ps_st s) + 1)) 0 4096 = (- ENOENT, [])"
  shows "\<exists>img st2. open_image 1 whole rd (t_name (ps_st s)) cfg' mem' p' = Some (Inr (img, st2))
    \<and> t_cur_seq st2 = t_cur_seq (ps_st s) + 1 \<and> t_vol_size st2 = t_vol_size (ps_st s)
    \<and> (\<forall>a. buf_look (t_bufmap (ps_st s)) (a div 512) = None \<longrightarrow>
         disk (reopened st2 (ps_objs s)) a = disk_run (disk (opened name cfg vol uuid mem om last_seq info ckpts p objs)) es a)
    \<and> (\<forall>x b k. buf_look (t_bufmap (ps_st s)) x \<noteq> None \<longrightarrow> newest (queued (ps_st s)) x = None \<longrightarrow> newest (map fst (ps_flight s)) x = Some (b, k) \<longrightarrow>
         obj_look (t_objmap st2) x = Some (Obj_offset (tr_seq b) (hdr_room b + k)))"
proof -
  note R = psteps_refine [OF assms(2) opened_inv [OF assms(1)]]
  have M: "maps_inv s" using R by (simp add: pipe_inv_def)
  obtain st1 where st1: "write_checkpoint (t_cur_seq (ps_st s)) st1 = Some st'" "ckpt_ready (t_cur_seq (ps_st s)) st1"
    "t_name st1 = t_name (ps_st s)" "t_out st1 = t_out (ps_st s)" "t_objmap st1 = t_objmap (ps_st s)" "t_vol_size st1 = t_vol_size (ps_st s)"
    by (rule worker_checkpoint [OF assms(3-6)])
  from open_checkpoint_run [OF st1(2,1), of whole rd cfg' mem' p'] assms(7,8) st1(3-6)
  obtain img st2 where o: "open_image 1 whole rd (t_name (ps_st s)) cfg' mem' p' = Some (Inr (img, st2))"
    "obj_look (t_objmap st2) = obj_look (t_objmap (ps_st s))" "t_cur_seq st2 = t_cur_seq (ps_st s) + 1"
    "t_vol_size st2 = t_vol_size (ps_st s)" "t_bufmap st2 = extmap_empty" by auto
  show ?thesis
    using o R reopened_disk [OF o(5,2)] maps_invD(6) [OF M] by (intro exI [of _ img] exI [of _ st2]) simp
qed

section \<open>A restart\<close>

text \<open>A volume with one object that holds four sectors.\<close>

definition demo_restart :: psys where
  "demo_restart = opened ''vol'' demo_cfg (2 ^ 30) (replicate 16 7) (\<lambda>_. 0) (t_objmap demo_vol) 1 (t_object_info demo_vol) [] 8192
     (\<lambda>_. replicate 8192 9)"

lemma demo_live_set: "live_set (t_objmap demo_vol) 1 = {10..13}"
  by (auto simp: live_set_def demo_vol_ok(2))

lemma demo_info: "t_object_info demo_vol = RBT.insert 1 \<lparr>oi_hdr = 8, oi_data = 4, oi_live = 4\<rparr> RBT.empty"
  by (simp add: demo_vol_def)

lemma demo_restart_ok: "open_ok demo_cfg (replicate 16 7) (t_objmap demo_vol) 1 (t_object_info demo_vol) 8192"
proof -
  have "live_ok (t_object_info demo_vol) (t_objmap demo_vol)"
    by (auto simp: live_ok_def live_count_def demo_info demo_live_set RBT.lookup_insert)
  then show ?thesis using demo_vol_ok by (simp add: open_ok_def cfg_ok_def)
qed

definition demo_asked :: psys where
  "demo_asked = demo_restart\<lparr>ps_st := checkpoint 67108864 (ps_st demo_restart)\<rparr>"

lemma demo_asked_run: "psteps zcrc demo_restart [Internal] demo_asked"
proof -
  have b: "batches demo_restart = [new_put_req 8192 8388608]" "t_cfg (ps_st demo_restart) = demo_cfg"
    by (simp_all add: demo_restart_def opened_def make_translate_def batches_def queued_def new_put_req_def)
  have "fresh_buf demo_restart 67108864" by (auto simp: fresh_buf_def b demo_region)
  then have "pstep zcrc demo_restart Internal demo_asked" unfolding demo_asked_def by (rule p_roll) simp
  then show ?thesis by (rule psteps_step [OF _ psteps_refl])
qed

lemma demo_asked_state:
  "t_queue (ps_st demo_asked) = [new_req REQ_CKPT]" "t_cur_seq (ps_st demo_asked) = 2" "t_name (ps_st demo_asked) = ''vol''"
  "t_objmap (ps_st demo_asked) = t_objmap demo_vol" "t_bufmap (ps_st demo_asked) = extmap_empty" "ps_objs demo_asked = (\<lambda>_. replicate 8192 9)"
  by (simp_all add: demo_asked_def demo_restart_def opened_def make_translate_def checkpoint_def new_put_req_def ubf_id)

lemma demo_asked_ready: "ckpt_ready 2 (ps_st demo_asked)"
  using demo_vol_ready
  by (simp add: ckpt_ready_def demo_asked_def demo_restart_def opened_def make_translate_def checkpoint_def new_put_req_def demo_vol_def demo_state_def)

lemma demo_ckpt_step: "worker_step zcrc (ps_st demo_asked) = write_checkpoint 2 ((ps_st demo_asked)\<lparr>t_queue := [], t_cur_seq := 3\<rparr>)"
  by (simp add: worker_step_def demo_asked_state new_req_def ubf_id Let_def)

theorem restart_disk_witness:
  "\<exists>st' whole img st2. worker_step (\<lambda>_. 0) (ps_st demo_asked) = Some st'
     \<and> open_image 1 whole (map_reader whole) ''vol'' demo_cfg (\<lambda>_. 0) 8192 = Some (Inr (img, st2))
     \<and> disk (reopened st2 (ps_objs demo_asked)) 6144 = 9 \<and> t_cur_seq st2 = 3"
proof -
  let ?st = "(ps_st demo_asked)\<lparr>t_queue := [], t_cur_seq := 3\<rparr>"
  have "ckpt_ready 2 ?st" using demo_asked_ready by (simp add: ckpt_ready_def)
  then obtain sb kept dead where w: "keep_ckpts (t_checkpoints ?st @ [2]) = (kept, dead)"
    "write_checkpoint 2 ?st = Some (?st\<lparr>t_checkpoints := kept, t_superblock_buf := sb,
       t_out := t_out ?st @ [Be_write (oname (t_name ?st) 2) (ckpt_bytes (t_uuid ?st) (t_ckpt_cache_seq ?st) 2
         (ckpt_objects (t_object_info ?st)) (ckpt_entries (t_objmap ?st))), Be_write (t_name ?st) sb]
         @ map (\<lambda>c. Be_delete (oname (t_name ?st) c)) dead\<rparr>)" by (rule write_checkpoint_run)
  let ?cp = "ckpt_bytes (t_uuid ?st) (t_ckpt_cache_seq ?st) 2 (ckpt_objects (t_object_info ?st)) (ckpt_entries (t_objmap ?st))"
  let ?w = "[''vol'' \<mapsto> sb, oname ''vol'' 2 \<mapsto> ?cp]"
  obtain st' where st': "worker_step (\<lambda>_. 0) (ps_st demo_asked) = Some st'" "t_out st' = t_out (ps_st demo_asked) @
      [Be_write (oname ''vol'' 2) ?cp, Be_write ''vol'' sb] @ map (\<lambda>c. Be_delete (oname ''vol'' c)) dead"
    using w(2) by (simp add: demo_ckpt_step demo_asked_state)
  have h: "holds_writes ?w (map_reader ?w) (drop (length (t_out (ps_st demo_asked))) (t_out st'))"
    unfolding st'(2) using demo_names by (auto simp: holds_writes_def intro!: reads_map_reader)
  have e: "map_reader ?w (oname ''vol'' (2 + 1)) 0 4096 = (- ENOENT, [])" using demo_names by (simp add: map_reader_def)
  have bufs: "buf_look (t_bufmap (ps_st demo_asked)) (6144 div 512) = None" by (simp add: demo_asked_state lookup_fun_empty)
  have start: "disk demo_restart 6144 = 9"
    by (simp add: disk_def volume_def sector_byte_def demo_restart_def opened_def make_translate_def lookup_fun_empty demo_vol_ok obj_byte_def)
  from restart_disk [OF demo_restart_ok demo_asked_run [unfolded demo_restart_def] demo_asked_state(1) _ st'(1), folded demo_restart_def,
      of ?w "map_reader ?w" demo_cfg "\<lambda>_. 0" 8192] demo_asked_ready h e bufs start
  obtain img st2 where "open_image 1 ?w (map_reader ?w) ''vol'' demo_cfg (\<lambda>_. 0) 8192 = Some (Inr (img, st2))"
    "disk (reopened st2 (ps_objs demo_asked)) 6144 = 9" "t_cur_seq st2 = 3"
    by (auto simp: demo_asked_state(2,3) new_req_def)
  then show ?thesis using st'(1) by blast
qed

end
