(* ===== verification/Spec2Isabelle.thy ===== *)
theory Spec2Isabelle
  imports Image_Read_Correct Translate_Trim Log_Replay Image_Manage Read_Cache_Chunks Write_Cache_Open Pipeline_Flush Gc_Safety
    Image_Write Rbd_Correct Rbd_Io Rados Restart
begin

text \<open>
  Verification of the log-structured virtual disk \<^verbatim>\<open>lsvd-rbd\<close> (sources under \<^verbatim>\<open>src/src\<close>).

  \<^bold>\<open>The program.\<close> A virtual disk is stored as a log of immutable objects in an object store. A write goes to a
  journal on a local device (\<^verbatim>\<open>write_cache.cc\<close>) and, at the same time, into the current batch of the
  translation layer (\<^verbatim>\<open>translate.cc\<close>); full batches are uploaded by a worker, each as one object with a header
  that lists its sectors. Two extent maps (\<^verbatim>\<open>extent.h\<close>) say where a sector is: the buffer map, if it is still in
  a batch, and the object map, if it is in an object. A read (\<^verbatim>\<open>image.cc\<close>) asks the two maps in this order and gets
  object data through a cache of chunks (\<^verbatim>\<open>shared_read_cache.cc\<close>). Checkpoints store the object map; opening an image
  loads the last one and replays the headers of later objects. A garbage collector copies the live sectors of
  sparse objects into new ones and deletes the old. Clients use the interface of \<^verbatim>\<open>librbd\<close> (\<^verbatim>\<open>liblsvd.cc\<close>,
  \<^verbatim>\<open>spdk_wrap.cc\<close>) or an SPDK block device (\<^verbatim>\<open>bdev_lsvd.cc\<close>).

  \<^bold>\<open>Conventions.\<close> Classes are records, and members take and return the state. Widths matter where the code
  relies on them: \<open>sbf w\<close> and \<open>ubf w\<close> are the conversions to signed and unsigned integers of \<open>w\<close> bits, used for bit
  fields and conversions; elsewhere integers are \<open>int\<close>. Memory is a function from addresses to bytes, and the addresses that
  \<^verbatim>\<open>malloc\<close> returns are arguments. A failed assertion is \<open>None\<close>, or \<open>Abort\<close> where \<open>None\<close> already means that a thread waits;
  an exception is \<open>Inl\<close>. Threads are step relations or event lists: a function that waits is cut where it
  waits. \<^verbatim>\<open>std::map\<close> is a red-black tree.

  \<^bold>\<open>Theories, parts and lemmas.\<close>

  \<^item> \<open>Lsvd_Prelude\<close>, \<open>Smartiov\<close>, \<open>Bytes\<close>: integer widths and rounding (\<^verbatim>\<open>lsvd_types.h\<close>), scatter/gather vectors
    (\<^verbatim>\<open>smartiov.h\<close>), byte encodings.

  \<^item> \<open>Config\<close>: settings, defaults and JSON documents (\<^verbatim>\<open>config.h\<close>, \<^verbatim>\<open>config.cc\<close>): which document decides a setting, and
    that settings keep their types.

  \<^item> \<open>Extent\<close>, \<open>Extmap\<close>: the extent map, operation by operation, iterators as positions in its two-level list.
    \<open>Extent_Space\<close> has the locale \<open>extent_space\<close> (pointers that can be advanced), \<open>Extmap_Cursor\<close>, \<open>Extmap_Edit\<close> and
    \<open>Extmap_Update\<close> prove search, update and trim against the partial function that a map represents, and
    \<open>Sector_Map\<close> has the locale \<open>sector_map\<close>, the interface that all clients use. Both locales are interpreted for the object map
    and for the buffer map.

  \<^item> \<open>Objects\<close>, \<open>Objects_Codec\<close>: formats of superblocks, data headers and checkpoints (\<^verbatim>\<open>objects.h\<close>, \<^verbatim>\<open>objects.cc\<close>), and
    that what is written parses back.

  \<^item> \<open>Translate\<close>: state and operations of \<^verbatim>\<open>translate_impl\<close>. \<open>Translate_Live\<close>, \<open>Translate_Put\<close>, \<open>Translate_Trim\<close>: upload of a
    batch, exact accounting of live sectors, trims. \<open>Pipeline\<close> to \<open>Pipeline_Flush\<close>: batches, queue, uploads
    and completions in any order as a transition system \<open>psteps\<close>; it refines a flat disk, a flush makes all earlier writes
    durable, and the queue drains.

  \<^item> \<open>Image_Read\<close>, \<open>Image_Walk\<close>, \<open>Image_Read_Correct\<close>: the loop of \<^verbatim>\<open>handle_reads\<close> and that it ends with the right bytes.
    \<open>Image_Open\<close>, \<open>Checkpoint\<close>, \<open>Recovery\<close>, \<open>Log_Replay\<close>, \<open>Image_Manage\<close>: opening, replay, creating and deleting images, with
    the cases in which recovery loses data. \<open>Restart\<close>: the disk from one life of a volume to the next. \<open>Image_Request\<close>, \<open>Image_Write\<close>: the requests of clients with their
    reference counts (\<^verbatim>\<open>request.h\<close>), splitting of writes, completion by the device (\<^verbatim>\<open>nvme.cc\<close>), closing.

  \<^item> \<open>Read_Cache\<close> to \<open>Read_Cache_Chunks\<close>: one shard of the cache as a transition system over concurrent reads, fills
    and evictions: data, conservation of requests, progress, absence of failed assertions.

  \<^item> \<open>Journal\<close>, \<open>Write_Cache\<close>, \<open>Write_Cache_Ring\<close>, \<open>Write_Cache_Journal\<close>, \<open>Write_Cache_Open\<close>: the journal, its ring of pages, reading
    records back, creating and reopening it.

  \<^item> \<open>Gc\<close> to \<open>Gc_Safety\<close>: the garbage collector in the phases between its waiting points, beside worker, clients and
    uploads: what it deletes is garbage, the volume does not change, it makes progress; and the cases in which
    it leaks or deletes too much.

  \<^item> \<open>Rbd\<close>, \<open>Rbd_Correct\<close>, \<open>Rbd_Io\<close>: completions, the calls of the client library and the requests of the block device; lifetimes
    under interleaving, writes of zeroes, repeated writes. \<open>Rados\<close>: reads of the object store on RADOS.

  \<^bold>\<open>Bounds and fuel.\<close> \<open>obj_amax\<close> bounds sector addresses by the bit field of an extent, and the sizes in hypotheses
  (buffers below \<open>2 ^ 31\<close> bytes, sequence numbers below \<open>2 ^ 32\<close>) are those of the C++ types. The read loop gets one
  round per sector of the request, which its correctness shows to be enough. \<open>it_skip\<close> gets the number of extents of the map.
  \<open>roll_loop\<close> and \<open>delete_tail\<close> take their number of rounds as an argument, since they end only when the store does not have an
  object: the theorems give a number with which they end. The clock search of the read cache has the turns of its hand as
  fuel; it ends within two turns if a chunk is free, and is shown never to end otherwise.

  \<^bold>\<open>Parameters.\<close> The object store, \<^verbatim>\<open>librados\<close>, the checksum of zlib, the JSON library, the hash of cache keys, the
  results of device I/O and the addresses of new buffers are arguments; what is assumed of them (a store returns what was
  put into it, new buffers do not overlap live ones, numbers of the JSON library fit 64 bits) is a named hypothesis.

  \<^bold>\<open>Not modelled.\<close> Locks are not modelled as such: each step is a section that the code runs under its lock. Timers, logging
  and the joining of threads are left out. The replay of the journal under \<^verbatim>\<open>#if 0\<close> is not compiled; \<^verbatim>\<open>recover_from_wlog\<close>,
  \<^verbatim>\<open>clone_image\<close> and many functions of \<^verbatim>\<open>liblsvd.cc\<close> only throw or return an error. Registration of the block device, RPC
  methods and the SPDK applications (\<^verbatim>\<open>spdk_frontend.cc\<close>, \<^verbatim>\<open>lsvd_tgt.cc\<close>, \<^verbatim>\<open>bdev_lsvd_rpc.cc\<close>) are sequences of framework calls.
  \<^verbatim>\<open>io_uring\<close> submission, \<^verbatim>\<open>connect_to_pool\<close> and the asynchronous writes of \<^verbatim>\<open>rados_backend.cc\<close> pass their arguments to a library.
  The tools \<^verbatim>\<open>imgtool.cc\<close> and \<^verbatim>\<open>thick-image.cc\<close>, the debugging functions of \<^verbatim>\<open>lsvd_debug.cc\<close> and the macros and string helpers
  of \<^verbatim>\<open>utils.h\<close> are not part of the data path; \<^verbatim>\<open>fake_rbd.h\<close> has only prototypes.
\<close>

end
